(* ===== verification/Prelude.thy ===== *)
theory Prelude
  imports Main "HOL-Library.Word" "HOL-Library.Monad_Syntax"
begin

text \<open>
  Shared vocabulary of the development: the byte and node types, the outcome of a Rust
  computation that may panic, the total readings of \<open>Vec\<close> indexing, and the generic lemmas
  on lists and options that the component theories use.

  Conventions.  A Rust panic (index out of range, failed \<open>expect\<close>) is the value \<open>None\<close> of an
  \<open>option\<close> that the definition's comment calls its panic layer; a Rust \<open>Option\<close> inside it is
  a second \<open>option\<close>.  Strings are HOL strings, that is lists of bytes, as Rust's UTF-8
  strings are: \<open>length\<close> is Rust's \<open>len()\<close>.
\<close>

section \<open>Types and collections of facts\<close>

type_synonym byte = "8 word"
type_synonym node = "byte list"   \<comment> \<open>merkle.rs: \<open>pub type Node = [u8; 32]\<close>\<close>

named_theorems wf_intros \<open>introduction rules for the components' invariants\<close>
named_theorems table_simps \<open>simplification of queries over database tables\<close>

section \<open>Vec indexing\<close>

text \<open>\<open>vec_get v i\<close> is Rust's \<open>v.get(i).copied()\<close>; as the panic layer it is \<open>v[i]\<close>.\<close>

definition vec_get :: "'a list \<Rightarrow> nat \<Rightarrow> 'a option" where
  "vec_get xs i = (if i < length xs then Some (xs ! i) else None)"

lemma vec_get_Some [simp]: "i < length xs \<Longrightarrow> vec_get xs i = Some (xs ! i)"
  by (simp add: vec_get_def)

lemma vec_get_None [simp]: "length xs \<le> i \<Longrightarrow> vec_get xs i = None"
  by (simp add: vec_get_def)

lemma vec_get_eq_Some: "vec_get xs i = Some x \<longleftrightarrow> i < length xs \<and> xs ! i = x"
  by (auto simp: vec_get_def)

text \<open>\<open>vec_set v i x\<close> is the statement \<open>v[i] = x\<close>, with its panic.\<close>

definition vec_set :: "'a list \<Rightarrow> nat \<Rightarrow> 'a \<Rightarrow> 'a list option" where
  "vec_set xs i x = (if i < length xs then Some (xs[i := x]) else None)"

lemma vec_set_Some [simp]: "i < length xs \<Longrightarrow> vec_set xs i x = Some (xs[i := x])"
  by (simp add: vec_set_def)

section \<open>Lists\<close>

lemma map_upt_Suc_snoc: "map f [0..<Suc n] = map f [0..<n] @ [f n]"
  by simp

lemma map_upt_update_last:
  "n = Suc m \<Longrightarrow> (map f [0..<n])[m := x] = map f [0..<m] @ [x]"
  by (simp add: list_update_append)

lemma list_update_eqI:
  assumes "length xs = length ys" "k < length ys"
    and "\<And>i. i < length ys \<Longrightarrow> i \<noteq> k \<Longrightarrow> xs ! i = ys ! i"
    and "ys ! k = x"
  shows "xs[k := x] = ys"
  using assms by (intro nth_equalityI) (auto simp: nth_list_update)

lemma take_filter_prefix:
  assumes "\<And>i. i < length xs \<Longrightarrow> P (xs ! i)"
  shows "takeWhile P xs = xs"
  using assms by (induction xs) (force simp: nth_Cons split: nat.splits)+

lemma length_filter_update:
  "i < length xs \<Longrightarrow> int (length (filter P (xs[i := x])))
     = int (length (filter P xs)) - of_bool (P (xs ! i)) + of_bool (P x)"
proof (induction xs arbitrary: i)
  case (Cons a xs)
  then show ?case by (cases i) auto
qed simp

section \<open>Transition systems\<close>

text \<open>
  The states that a step relation reaches, for the components whose operations interleave.  The
  locale is the contract of their invariants: every step keeps \<open>ok\<close>, and it only moves along the
  preorder \<open>grows\<close>; then so does every run.
\<close>

inductive reachable :: "('s \<Rightarrow> 's \<Rightarrow> bool) \<Rightarrow> 's \<Rightarrow> 's \<Rightarrow> bool" for step s0 where
  start: "reachable step s0 s0"
| next_step: "reachable step s0 s \<Longrightarrow> step s s' \<Longrightarrow> reachable step s0 s'"

lemma reachable_one: "step s s' \<Longrightarrow> reachable step s s'"
  using reachable.next_step[OF reachable.start] .

lemma reachable_trans: "reachable step s s' \<Longrightarrow> reachable step s' s'' \<Longrightarrow> reachable step s s''"
  by (rotate_tac 1, induction rule: reachable.induct) (auto intro: reachable.next_step)

locale step_invariant =
  fixes step :: "'s \<Rightarrow> 's \<Rightarrow> bool" and ok :: "'s \<Rightarrow> bool" and grows :: "'s \<Rightarrow> 's \<Rightarrow> bool"
  assumes grows_refl: "grows s s"
    and grows_trans: "grows s s' \<Longrightarrow> grows s' s'' \<Longrightarrow> grows s s''"
    and step_keeps: "step s s' \<Longrightarrow> ok s \<Longrightarrow> ok s' \<and> grows s s'"
begin

lemma reachable_keeps: "reachable step s s' \<Longrightarrow> ok s \<Longrightarrow> ok s' \<and> grows s s'"
proof (induction rule: reachable.induct)
  case start
  then show ?case by (simp add: grows_refl)
next
  case (next_step s' s'')
  then show ?case using step_keeps grows_trans by blast
qed

lemma reachable_ok: "reachable step s s' \<Longrightarrow> ok s \<Longrightarrow> ok s'"
  using reachable_keeps by blast

lemma reachable_grows: "reachable step s s' \<Longrightarrow> ok s \<Longrightarrow> grows s s'"
  using reachable_keeps by blast

end

end
