(* ===== verification/RustStd.thy ===== *)
theory RustStd
  imports Prelude
begin

text \<open>
  The parts of Rust's core and standard library that the program's logic rests on: string
  trimming and splitting, \<open>FromStr\<close> for the integer types, checked and wrapping integer
  conversions, and monotonic time.  Strings are byte strings; the white space that \<open>trim\<close>
  removes is modelled on its ASCII subset.
\<close>

section \<open>Strings\<close>

definition is_ws :: "char \<Rightarrow> bool" where
  "is_ws c \<longleftrightarrow> c = CHR '' '' \<or> (9 \<le> (of_char c :: nat) \<and> (of_char c :: nat) \<le> 13)"

definition str_trim :: "string \<Rightarrow> string" where
  "str_trim s = rev (dropWhile is_ws (rev (dropWhile is_ws s)))"

text \<open>\<open>s.split(c)\<close>: always at least one piece.\<close>

fun str_split :: "char \<Rightarrow> string \<Rightarrow> string list" where
  "str_split c [] = [[]]"
| "str_split c (x # xs) =
     (if x = c then [] # str_split c xs
      else (case str_split c xs of [] \<Rightarrow> [[x]] | p # ps \<Rightarrow> (x # p) # ps))"

text \<open>\<open>s.trim_start_matches("0x")\<close> removes the prefix as often as it occurs.\<close>

fun trim_0x :: "string \<Rightarrow> string" where
  "trim_0x (a # b # s) = (if a = CHR ''0'' \<and> b = CHR ''x'' then trim_0x s else a # b # s)"
| "trim_0x s = s"

text \<open>
  \<open>s.split(',').map(str::trim).filter(|s| !s.is_empty())\<close>, the list syntax shared by the
  configuration and the SSE pool filter.
\<close>

definition csv :: "string \<Rightarrow> string list" where
  "csv s = filter (\<lambda>p. p \<noteq> []) (map str_trim (str_split CHR '','' s))"

section \<open>FromStr for integers\<close>

definition digit_val :: "char \<Rightarrow> nat option" where
  "digit_val c = (let n = of_char c in if 48 \<le> n \<and> n \<le> 57 then Some (n - 48) else None)"

fun digits_val :: "nat \<Rightarrow> string \<Rightarrow> nat option" where
  "digits_val acc [] = Some acc"
| "digits_val acc (c # cs) =
     (case digit_val c of None \<Rightarrow> None | Some d \<Rightarrow> digits_val (10 * acc + d) cs)"

definition parse_digits :: "string \<Rightarrow> nat option" where
  "parse_digits s = (if s = [] then None else digits_val 0 s)"

text \<open>\<open>parse::<uN>()\<close>: an optional plus sign, digits, and a range check.\<close>

definition parse_unsigned :: "nat \<Rightarrow> string \<Rightarrow> nat option" where
  "parse_unsigned w s = do {
     n \<leftarrow> parse_digits (if s \<noteq> [] \<and> hd s = CHR ''+'' then tl s else s);
     if n < 2 ^ w then Some n else None }"

text \<open>\<open>parse::<iN>()\<close>: an optional sign, digits, and a range check.\<close>

definition parse_signed :: "nat \<Rightarrow> string \<Rightarrow> int option" where
  "parse_signed w s =
     (if s \<noteq> [] \<and> hd s = CHR ''-''
      then do { n \<leftarrow> parse_digits (tl s);
                if n \<le> 2 ^ (w - 1) then Some (- int n) else None }
      else do { n \<leftarrow> parse_digits (if s \<noteq> [] \<and> hd s = CHR ''+'' then tl s else s);
                if n < 2 ^ (w - 1) then Some (int n) else None })"

section \<open>Display for integers\<close>

definition digit_char :: "nat \<Rightarrow> char" where
  "digit_char d = char_of (48 + d)"

fun show_nat :: "nat \<Rightarrow> string" where
  "show_nat n = (if n < 10 then [digit_char n] else show_nat (n div 10) @ [digit_char (n mod 10)])"

declare show_nat.simps [simp del]

definition show_int :: "int \<Rightarrow> string" where
  "show_int x = (if x < 0 then CHR ''-'' # show_nat (nat (- x)) else show_nat (nat x))"

section \<open>Integer conversions\<close>

definition in_i64 :: "int \<Rightarrow> bool" where
  "in_i64 x \<longleftrightarrow> - (2 ^ 63) \<le> x \<and> x < 2 ^ 63"

definition in_i128 :: "int \<Rightarrow> bool" where
  "in_i128 x \<longleftrightarrow> - (2 ^ 127) \<le> x \<and> x < 2 ^ 127"

text \<open>\<open>x as i64\<close> for a \<open>u64\<close>, \<open>x as i32\<close> for a \<open>u32\<close>: the same bits, read as two's complement.\<close>

definition u64_as_i64 :: "64 word \<Rightarrow> int" where
  "u64_as_i64 x = sint x"

definition u32_as_i32 :: "32 word \<Rightarrow> int" where
  "u32_as_i32 x = sint x"

definition i64_as_u64 :: "int \<Rightarrow> 64 word" where
  "i64_as_u64 x = word_of_int x"

definition i64_try_from_u64 :: "64 word \<Rightarrow> int option" where
  "i64_try_from_u64 x = (if uint x < 2 ^ 63 then Some (uint x) else None)"

section \<open>Monotonic time\<close>

text \<open>\<open>std::time::Instant\<close> as nanoseconds since an arbitrary origin; durations in nanoseconds.\<close>

datatype instant = Instant (nanos: nat)

instantiation instant :: linorder
begin

definition less_eq_instant :: "instant \<Rightarrow> instant \<Rightarrow> bool" where
  "less_eq_instant a b \<longleftrightarrow> nanos a \<le> nanos b"

definition less_instant :: "instant \<Rightarrow> instant \<Rightarrow> bool" where
  "less_instant a b \<longleftrightarrow> nanos a < nanos b"

instance
  by standard (auto simp: less_eq_instant_def less_instant_def instant.expand)

end

text \<open>\<open>a.duration_since(b)\<close> saturates to zero when \<open>b\<close> is later.\<close>

definition duration_since :: "instant \<Rightarrow> instant \<Rightarrow> nat" where
  "duration_since a b = nanos a - nanos b"

definition as_secs :: "nat \<Rightarrow> nat" where
  "as_secs d = d div 10 ^ 9"

section \<open>Lemmas\<close>

lemma str_split_not_Nil [simp]: "str_split c s \<noteq> []"
  by (induction s) (auto split: list.splits)

lemma digit_val_char: "d < 10 \<Longrightarrow> digit_val (digit_char d) = Some d"
  by (simp add: digit_val_def digit_char_def)

lemma digits_val_append:
  "digits_val acc (xs @ ys) = (case digits_val acc xs of None \<Rightarrow> None | Some n \<Rightarrow> digits_val n ys)"
  by (induction acc xs rule: digits_val.induct) (auto split: option.splits)

lemma show_nat_digits: "digits_val 0 (show_nat n) = Some n \<and> show_nat n \<noteq> []
    \<and> digit_val (hd (show_nat n)) \<noteq> None"
proof (induction n rule: show_nat.induct)
  case (1 n)
  show ?case
  proof (cases "n < 10")
    case True
    then show ?thesis by (simp add: show_nat.simps[of n] digit_val_char)
  next
    case False
    with 1 show ?thesis
      by (simp add: show_nat.simps[of n] digits_val_append digit_val_char)
  qed
qed

lemma show_nat_not_sign: "hd (show_nat n) \<noteq> CHR ''-''" "hd (show_nat n) \<noteq> CHR ''+''"
  using show_nat_digits[of n] by (auto simp: digit_val_def)

lemma parse_show_nat: "parse_digits (show_nat n) = Some n"
  using show_nat_digits[of n] by (simp add: parse_digits_def)

lemma parse_signed_show:
  assumes "- (2 ^ (w - 1)) \<le> x" "x < 2 ^ (w - 1)"
  shows "parse_signed w (show_int x) = Some x"
proof (cases "x < 0")
  case True
  have "nat (- x) \<le> 2 ^ (w - 1)" using assms(1) True by (simp add: nat_le_iff)
  with True show ?thesis by (simp add: parse_signed_def show_int_def parse_show_nat)
next
  case False
  have "nat x < 2 ^ (w - 1)" using assms(2) False by (simp add: nat_less_iff)
  with False show ?thesis
    by (simp add: parse_signed_def show_int_def parse_show_nat show_nat_not_sign)
qed

lemma parse_unsigned_bound: "parse_unsigned w s = Some n \<Longrightarrow> n < 2 ^ w"
  by (auto simp: parse_unsigned_def split: bind_splits if_splits)

lemma parse_signed_range:
  assumes "parse_signed w s = Some x"
  shows "- (2 ^ (w - 1)) \<le> x \<and> x < 2 ^ (w - 1)"
proof -
  have p: "(0 :: int) < 2 ^ (w - 1)" by simp
  from assms consider n where "x = - int n" "n \<le> 2 ^ (w - 1)" | n where "x = int n" "n < 2 ^ (w - 1)"
    by (auto simp: parse_signed_def split: bind_splits if_splits)
  then show ?thesis
  proof cases
    case 1
    then have "int n \<le> 2 ^ (w - 1)" by (metis of_nat_le_iff of_nat_numeral of_nat_power)
    with 1 p show ?thesis by linarith
  next
    case 2
    then have "int n < 2 ^ (w - 1)" by (metis of_nat_less_iff of_nat_numeral of_nat_power)
    with 2 p show ?thesis by linarith
  qed
qed

lemma u64_as_i64_small: "uint x < 2 ^ 63 \<Longrightarrow> u64_as_i64 x = uint x"
  unfolding u64_as_i64_def sint_uint
  by (rule signed_take_bit_int_eq_self) (simp_all, smt (verit) uint_ge_0)

lemma in_i64_u64_as_i64 [simp]: "in_i64 (u64_as_i64 x)"
  using sint_ge[of x] sint_lt[of x] by (simp add: in_i64_def u64_as_i64_def)

lemma duration_since_mono: "a \<le> a' \<Longrightarrow> duration_since a b \<le> duration_since a' b"
  by (simp add: duration_since_def less_eq_instant_def diff_le_mono)

lemma csv_nonempty: "p \<in> set (csv s) \<Longrightarrow> p \<noteq> []"
  by (simp add: csv_def)

end
