(* ===== verification/Errors.thy ===== *)
theory Errors
  imports RustStd
begin

text \<open>
  Error values: \<open>crates/attesta-core/src/error.rs\<close> and \<open>crates/attesta-api/src/error.rs\<close>.
  A handler returns \<open>api_error + 'a\<close>; \<open>?\<close> on a database call is the conversion
  \<open>of_sqlx\<close>, which hides the database's message from the client.
\<close>

datatype status_code =
    OK | CREATED | NO_CONTENT | BAD_REQUEST | FORBIDDEN | NOT_FOUND | CONFLICT
  | TOO_MANY_REQUESTS | INTERNAL_SERVER_ERROR | SERVICE_UNAVAILABLE

fun as_u16 :: "status_code \<Rightarrow> nat" where
  "as_u16 OK = 200"
| "as_u16 CREATED = 201"
| "as_u16 NO_CONTENT = 204"
| "as_u16 BAD_REQUEST = 400"
| "as_u16 FORBIDDEN = 403"
| "as_u16 NOT_FOUND = 404"
| "as_u16 CONFLICT = 409"
| "as_u16 TOO_MANY_REQUESTS = 429"
| "as_u16 INTERNAL_SERVER_ERROR = 500"
| "as_u16 SERVICE_UNAVAILABLE = 503"

definition is_server_error :: "status_code \<Rightarrow> bool" where
  "is_server_error s \<longleftrightarrow> 500 \<le> as_u16 s \<and> as_u16 s < 600"

text \<open>
  A response: status, the headers the program sets, and the body, which is JSON, bytes, an event
  stream, or missing.
\<close>

datatype json = JNull | JBool bool | JInt int | JStr string | JArr "json list" | JObj "(string \<times> json) list"

datatype body = NoBody | JsonBody json | RawBody "byte list" | EventStream

record response =
  rs_status :: status_code
  rs_headers :: "(string \<times> string) list"
  rs_body :: body

text \<open>\<open>sqlx::Error\<close>, as far as the program looks at it: an SQLSTATE code, or anything else.\<close>

datatype sqlx_error = SqlxDatabase "string option" | SqlxOther string

datatype core_error =
    Db sqlx_error
  | Migrate string
  | UnknownPool string
  | CommitmentNotFound
  | InvalidInput string

record api_error =
  status :: status_code
  message :: string

definition not_found :: "string \<Rightarrow> api_error" where
  "not_found msg = \<lparr>status = NOT_FOUND, message = msg\<rparr>"

definition bad_request :: "string \<Rightarrow> api_error" where
  "bad_request msg = \<lparr>status = BAD_REQUEST, message = msg\<rparr>"

definition forbidden :: "string \<Rightarrow> api_error" where
  "forbidden msg = \<lparr>status = FORBIDDEN, message = msg\<rparr>"

definition conflict :: "string \<Rightarrow> api_error" where
  "conflict msg = \<lparr>status = CONFLICT, message = msg\<rparr>"

definition too_many_requests :: "string \<Rightarrow> api_error" where
  "too_many_requests msg = \<lparr>status = TOO_MANY_REQUESTS, message = msg\<rparr>"

definition of_sqlx :: "sqlx_error \<Rightarrow> api_error" where
  "of_sqlx e = \<lparr>status = INTERNAL_SERVER_ERROR, message = ''internal error''\<rparr>"

fun of_core_error :: "core_error \<Rightarrow> api_error" where
  "of_core_error (UnknownPool p) = not_found (''unknown pool: '' @ p)"
| "of_core_error CommitmentNotFound = not_found ''commitment not found''"
| "of_core_error (InvalidInput m) = bad_request m"
| "of_core_error (Db e) = of_sqlx e"
| "of_core_error (Migrate e) = \<lparr>status = INTERNAL_SERVER_ERROR, message = ''internal error''\<rparr>"

definition api_error_response :: "api_error \<Rightarrow> response" where
  "api_error_response e =
     \<lparr>rs_status = status e, rs_headers = [], rs_body = JsonBody (JObj [(''error'', JStr (message e))])\<rparr>"

lemmas api_error_defs = not_found_def bad_request_def forbidden_def conflict_def
  too_many_requests_def of_sqlx_def

text \<open>
  Database calls.  A handler's calls to PostgreSQL are arguments of its model: \<open>None\<close> when the
  statement runs, \<open>Some e\<close> when \<open>sqlx\<close> reports the error \<open>e\<close> and the statement has no effect.
\<close>

type_synonym db_call = "sqlx_error option"

lemma server_errors: "is_server_error s \<longleftrightarrow> s = INTERNAL_SERVER_ERROR \<or> s = SERVICE_UNAVAILABLE"
  by (cases s) (auto simp: is_server_error_def)

end
