(* ===== verification/Schema.thy ===== *)
theory Schema
  imports RustStd
begin

text \<open>
  The database: the row types of \<open>crates/attesta-core/src/models.rs\<close> with the columns of
  \<open>migrations/*.sql\<close>, one list of rows per table, in insertion order.  The SQL statements of
  the program are rendered with the four combinators of this theory: \<open>insert_new\<close> (INSERT ...
  ON CONFLICT DO NOTHING), \<open>upsert_on\<close> (INSERT ... ON CONFLICT DO UPDATE), \<open>select_by\<close>
  (SELECT ... WHERE ... ORDER BY ... LIMIT) and \<open>update_where\<close>.  Timestamps are nanoseconds
  (\<open>int\<close>) of the database clock.
\<close>

section \<open>Rows\<close>

record commitment_row =
  c_pool :: string
  c_leaf_index :: int
  c_commitment :: "byte list"
  c_ledger :: int
  c_tx_hash :: string

record nullifier_row =
  n_pool :: string
  n_nullifier :: "byte list"
  n_ledger :: int
  n_tx_hash :: string

record note_row =
  e_id :: int
  e_pool :: string
  e_commitment :: "byte list"
  e_ephemeral_pubkey :: "byte list"
  e_ciphertext :: "byte list"
  e_ledger :: int
  e_tx_hash :: string

record issuer_row =
  i_issuer_id :: string
  i_name :: string
  i_public_key :: "byte list"
  i_claim_types :: "string list"
  i_status :: string
  i_registered_ledger :: int

record delivery_row =
  d_seq :: int
  d_delivery_id :: nat
  d_issuer_id :: string
  d_recipient_hint :: string
  d_ciphertext :: "byte list"
  d_issuer_signature :: "byte list"
  d_created_at :: int
  d_claimed_at :: "int option"
  d_claim_token_hash :: "byte list option"

record pool_total_row =
  t_pool :: string
  t_asset :: string
  t_total_in :: int
  t_total_out :: int

record tree_root_row =
  r_pool :: string
  r_leaf_count :: int
  r_root :: "byte list"
  r_ledger :: int

record cursor_row =
  k_contract_id :: string
  k_last_ledger :: int
  k_last_cursor :: "string option"
  k_updated_at :: int

record db =
  indexer_cursors :: "cursor_row list"
  commitments :: "commitment_row list"
  nullifiers :: "nullifier_row list"
  encrypted_notes :: "note_row list"
  issuers :: "issuer_row list"
  credential_deliveries :: "delivery_row list"
  pool_totals :: "pool_total_row list"
  tree_roots :: "tree_root_row list"
  note_serial :: int       \<comment> \<open>the BIGSERIAL sequence of \<open>encrypted_notes.id\<close>: the next value\<close>
  delivery_serial :: int   \<comment> \<open>the identity sequence of \<open>credential_deliveries.seq\<close>\<close>

definition empty_db :: db where
  "empty_db = \<lparr>indexer_cursors = [], commitments = [], nullifiers = [], encrypted_notes = [],
     issuers = [], credential_deliveries = [], pool_totals = [], tree_roots = [],
     note_serial = 1, delivery_serial = 1\<rparr>"

section \<open>Statements\<close>

definition insert_new :: "('r \<Rightarrow> 'r \<Rightarrow> bool) \<Rightarrow> 'r \<Rightarrow> 'r list \<Rightarrow> 'r list" where
  "insert_new clash r rows = (if list_ex (\<lambda>r'. clash r r') rows then rows else rows @ [r])"

definition upsert_on :: "('r \<Rightarrow> 'k) \<Rightarrow> ('r \<Rightarrow> 'r \<Rightarrow> 'r) \<Rightarrow> 'r \<Rightarrow> 'r list \<Rightarrow> 'r list" where
  "upsert_on key upd r rows =
     (if list_ex (\<lambda>r'. key r' = key r) rows
      then map (\<lambda>r'. if key r' = key r then upd r' r else r') rows
      else rows @ [r])"

definition select_by :: "('r \<Rightarrow> 'k::linorder) \<Rightarrow> ('r \<Rightarrow> bool) \<Rightarrow> 'r list \<Rightarrow> 'r list" where
  "select_by key P rows = sort_key key (filter P rows)"

definition update_where :: "('r \<Rightarrow> bool) \<Rightarrow> ('r \<Rightarrow> 'r) \<Rightarrow> 'r list \<Rightarrow> 'r list" where
  "update_where P f rows = map (\<lambda>r. if P r then f r else r) rows"

section \<open>Unique keys\<close>

definition unique_key :: "('r \<Rightarrow> 'k) \<Rightarrow> 'r list \<Rightarrow> bool" where
  "unique_key key rows \<longleftrightarrow> distinct (map key rows)"

lemma unique_key_Nil [simp]: "unique_key key []"
  by (simp add: unique_key_def)

lemma unique_key_eq:
  "unique_key key rows \<Longrightarrow> r \<in> set rows \<Longrightarrow> r' \<in> set rows \<Longrightarrow> key r = key r' \<Longrightarrow> r = r'"
  by (auto simp: unique_key_def distinct_map inj_on_def)

lemma unique_key_filter: "unique_key key rows \<Longrightarrow> unique_key key (filter P rows)"
  by (auto simp: unique_key_def distinct_map_filter)

lemma insert_new_absorb:
  "r' \<in> set rows \<Longrightarrow> clash r r' \<Longrightarrow> insert_new clash r rows = rows"
  by (auto simp: insert_new_def list_ex_iff)

lemma insert_new_fresh:
  "\<forall>r' \<in> set rows. \<not> clash r r' \<Longrightarrow> insert_new clash r rows = rows @ [r]"
  by (auto simp: insert_new_def list_ex_iff)

lemma insert_new_mono: "set rows \<subseteq> set (insert_new clash r rows)"
  by (auto simp: insert_new_def)

lemma insert_new_idem:
  "clash r r \<Longrightarrow> insert_new clash r (insert_new clash r rows) = insert_new clash r rows"
  by (auto simp: insert_new_def list_ex_iff)

lemma unique_key_insert_new [wf_intros]:
  assumes "unique_key key rows" "\<And>r'. key r' = key r \<Longrightarrow> clash r r'"
  shows "unique_key key (insert_new clash r rows)"
  using assms by (auto simp: insert_new_def unique_key_def list_ex_iff)

lemma unique_key_upsert [wf_intros]:
  assumes "unique_key key rows" "\<And>r'. key r' = key r \<Longrightarrow> key (upd r' r) = key r"
  shows "unique_key key (upsert_on key upd r rows)"
proof -
  have m: "map key (map (\<lambda>r'. if key r' = key r then upd r' r else r') rows) = map key rows"
    using assms(2) by simp
  show ?thesis
    using assms(1) unfolding upsert_on_def unique_key_def
    by (auto simp: list_ex_iff m simp del: map_map)
qed

lemma set_select_by [simp]: "set (select_by key P rows) = {r \<in> set rows. P r}"
  by (simp add: select_by_def)

lemma sorted_select_by: "sorted (map key (select_by key P rows))"
  by (simp add: select_by_def)

lemma distinct_select_by:
  assumes "inj_on key {r \<in> set rows. P r}" "distinct rows"
  shows "distinct (map key (select_by key P rows))"
  using assms by (simp add: select_by_def distinct_map)

lemma select_by_filter:
  "select_by key P (filter Q rows) = select_by key (\<lambda>r. Q r \<and> P r) rows"
  by (simp add: select_by_def conj_commute)

lemma filter_select_by:
  "filter Q (select_by key P rows) = select_by key (\<lambda>r. P r \<and> Q r) rows"
  by (simp add: select_by_def filter_sort conj_commute)

end
