(* ===== verification/Merkle.thy ===== *)
theory Merkle
  imports Prelude
begin

unbundle bit_operations_syntax

text \<open>
  \<open>crates/attesta-core/src/merkle.rs\<close>: the incremental append-only Merkle tree.  The tree
  record keeps the source's three fields; every indexing expression that can panic is in
  the panic layer.  The abstract view of a tree is the list of its leaves
  (\<open>tree_repr\<close>): every cached level is the canonical level of the complete binary tree
  over those leaves, padded with empty leaves.
\<close>

section \<open>The code\<close>

record tree_hasher =
  hash_pair :: "node \<Rightarrow> node \<Rightarrow> node"
  empty_leaf :: node

definition sha256_hasher :: "(byte list \<Rightarrow> byte list) \<Rightarrow> tree_hasher" where
  "sha256_hasher sha256 = \<lparr>hash_pair = (\<lambda>left right. sha256 (left @ right)),
                           empty_leaf = replicate 32 0\<rparr>"

record path_element =
  sibling :: node
  sibling_on_right :: bool

record merkle_tree =
  hasher :: tree_hasher
  levels :: "node list list"
  zeros :: "node list"

definition TREE_DEPTH :: nat where
  "TREE_DEPTH = 32"

definition zeros_of :: "tree_hasher \<Rightarrow> node list" where
  "zeros_of h = fold (\<lambda>d zs. zs @ [hash_pair h (zs ! d) (zs ! d)]) [0..<TREE_DEPTH] [empty_leaf h]"

definition new_tree :: "tree_hasher \<Rightarrow> merkle_tree" where
  "new_tree h = \<lparr>hasher = h, levels = replicate (TREE_DEPTH + 1) [], zeros = zeros_of h\<rparr>"

definition store_parent :: "node list \<Rightarrow> nat \<Rightarrow> node \<Rightarrow> node list option" where
  "store_parent parents parent_idx parent =
     (if parent_idx = length parents then Some (parents @ [parent])
      else vec_set parents parent_idx parent)"

text \<open>One iteration of the loop of \<open>append\<close> (panic layer); the loop state is \<open>(idx, levels)\<close>.\<close>

definition append_step ::
  "tree_hasher \<Rightarrow> node list \<Rightarrow> nat \<Rightarrow> nat \<times> node list list \<Rightarrow> (nat \<times> node list list) option" where
  "append_step h zs depth s = (case s of (idx, lvls) \<Rightarrow> do {
     let parent_idx = idx div 2;
     lvl \<leftarrow> vec_get lvls depth;
     left \<leftarrow> vec_get lvl (2 * parent_idx);
     z \<leftarrow> vec_get zs depth;
     let right = (case vec_get lvl (2 * parent_idx + 1) of Some r \<Rightarrow> r | None \<Rightarrow> z);
     let parent = hash_pair h left right;
     parents \<leftarrow> vec_get lvls (depth + 1);
     parents' \<leftarrow> store_parent parents parent_idx parent;
     Some (parent_idx, lvls[depth + 1 := parents'])
   })"

fun append_loop ::
  "tree_hasher \<Rightarrow> node list \<Rightarrow> nat list \<Rightarrow> nat \<times> node list list \<Rightarrow> (nat \<times> node list list) option" where
  "append_loop h zs [] s = Some s"
| "append_loop h zs (depth # ds) s = do { s' \<leftarrow> append_step h zs depth s; append_loop h zs ds s' }"

definition append_leaf :: "merkle_tree \<Rightarrow> node \<Rightarrow> (merkle_tree \<times> nat) option" where
  "append_leaf t leaf = do {
     lvl0 \<leftarrow> vec_get (levels t) 0;
     let index = length lvl0;
     (_, lvls) \<leftarrow> append_loop (hasher t) (zeros t) [0..<TREE_DEPTH]
                    (index, (levels t)[0 := lvl0 @ [leaf]]);
     Some (t\<lparr>levels := lvls\<rparr>, index)
   }"

fun append_all :: "merkle_tree \<Rightarrow> node list \<Rightarrow> merkle_tree option" where
  "append_all t [] = Some t"
| "append_all t (leaf # leaves) = do { (t', _) \<leftarrow> append_leaf t leaf; append_all t' leaves }"

definition from_leaves :: "tree_hasher \<Rightarrow> node list \<Rightarrow> merkle_tree option" where
  "from_leaves h leaves = append_all (new_tree h) leaves"

definition tree_len :: "merkle_tree \<Rightarrow> nat" where
  "tree_len t = length (levels t ! 0)"

definition tree_is_empty :: "merkle_tree \<Rightarrow> bool" where
  "tree_is_empty t \<longleftrightarrow> levels t ! 0 = []"

definition tree_root :: "merkle_tree \<Rightarrow> node" where
  "tree_root t = (case levels t ! TREE_DEPTH of [] \<Rightarrow> zeros t ! TREE_DEPTH | r # _ \<Rightarrow> r)"

definition path_step ::
  "merkle_tree \<Rightarrow> nat \<Rightarrow> nat \<Rightarrow> path_element option" where
  "path_step t depth idx = do {
     lvl \<leftarrow> vec_get (levels t) depth;
     z \<leftarrow> vec_get (zeros t) depth;
     let sib = (case vec_get lvl (idx XOR 1) of Some s \<Rightarrow> s | None \<Rightarrow> z);
     Some \<lparr>sibling = sib, sibling_on_right = (idx mod 2 = 0)\<rparr>
   }"

fun path_loop :: "merkle_tree \<Rightarrow> nat list \<Rightarrow> nat \<Rightarrow> path_element list option" where
  "path_loop t [] idx = Some []"
| "path_loop t (depth # ds) idx = do {
     el \<leftarrow> path_step t depth idx;
     rest \<leftarrow> path_loop t ds (idx div 2);
     Some (el # rest)
   }"

text \<open>Outer option: panic layer.  Inner option: the \<open>Option\<close> the function returns.\<close>

definition tree_path :: "merkle_tree \<Rightarrow> nat \<Rightarrow> path_element list option option" where
  "tree_path t index =
     (if index \<ge> length (levels t ! 0) then Some None
      else map_option Some (path_loop t [0..<TREE_DEPTH] index))"

definition fold_path :: "tree_hasher \<Rightarrow> node \<Rightarrow> path_element list \<Rightarrow> node" where
  "fold_path h leaf path =
     fold (\<lambda>el node. if sibling_on_right el then hash_pair h node (sibling el)
                     else hash_pair h (sibling el) node) path leaf"

definition verify_path :: "merkle_tree \<Rightarrow> node \<Rightarrow> path_element list \<Rightarrow> node \<Rightarrow> bool" where
  "verify_path t leaf path root \<longleftrightarrow> fold_path (hasher t) leaf path = root"

text \<open>The reference of the test module: a full rebuild, level by level.\<close>

fun pair_up :: "tree_hasher \<Rightarrow> node \<Rightarrow> node list \<Rightarrow> node list" where
  "pair_up h z [] = []"
| "pair_up h z [l] = [hash_pair h l z]"
| "pair_up h z (l # r # rest) = hash_pair h l r # pair_up h z rest"

fun naive_loop :: "tree_hasher \<Rightarrow> node list \<Rightarrow> nat list \<Rightarrow> node list \<Rightarrow> node" where
  "naive_loop h zs [] level = level ! 0"
| "naive_loop h zs (depth # ds) level =
     (if level = [] then zs ! TREE_DEPTH else naive_loop h zs ds (pair_up h (zs ! depth) level))"

definition naive_root :: "tree_hasher \<Rightarrow> node list \<Rightarrow> node" where
  "naive_root h leaves = naive_loop h (zeros_of h) [0..<TREE_DEPTH] leaves"

section \<open>The abstract tree\<close>

text \<open>Node \<open>i\<close> at height \<open>d\<close> of the complete tree whose leaves are \<open>ls\<close>, then empty leaves.\<close>

fun node_at :: "tree_hasher \<Rightarrow> node list \<Rightarrow> nat \<Rightarrow> nat \<Rightarrow> node" where
  "node_at h ls 0 i = (if i < length ls then ls ! i else empty_leaf h)"
| "node_at h ls (Suc d) i = hash_pair h (node_at h ls d (2 * i)) (node_at h ls d (2 * i + 1))"

definition level_len :: "nat \<Rightarrow> nat \<Rightarrow> nat" where
  "level_len n d = (if n = 0 then 0 else (n - 1) div 2 ^ d + 1)"

definition canonical_level :: "tree_hasher \<Rightarrow> node list \<Rightarrow> nat \<Rightarrow> node list" where
  "canonical_level h ls d = map (node_at h ls d) [0..<level_len (length ls) d]"

definition tree_repr :: "merkle_tree \<Rightarrow> node list \<Rightarrow> bool" where
  "tree_repr t ls \<longleftrightarrow>
     levels t = map (canonical_level (hasher t) ls) [0..<TREE_DEPTH + 1] \<and>
     zeros t = map (\<lambda>d. node_at (hasher t) [] d 0) [0..<TREE_DEPTH + 1]"

section \<open>Refinement: append keeps every cached level canonical\<close>


lemma node_at_cong:
  assumes "\<And>j. j div 2 ^ d = i \<Longrightarrow> node_at h ls 0 j = node_at h ls' 0 j"
  shows "node_at h ls d i = node_at h ls' d i"
  using assms
proof (induction d arbitrary: i)
  case 0
  then show ?case by simp
next
  case (Suc d)
  have "node_at h ls d (2 * i + c) = node_at h ls' d (2 * i + c)" if "c < 2" for c
  proof (rule Suc.IH)
    fix j assume "j div 2 ^ d = 2 * i + c"
    then have "j div 2 ^ Suc d = i"
      using that by (simp only: power_Suc2 div_mult2_eq)
    then show "node_at h ls 0 j = node_at h ls' 0 j" by (rule Suc.prems)
  qed
  from this[of 0] this[of 1] show ?case by simp
qed

lemma node_at_snoc:
  assumes "i \<noteq> length ls div 2 ^ d"
  shows "node_at h (ls @ [x]) d i = node_at h ls d i"
proof (rule node_at_cong)
  fix j assume "j div 2 ^ d = i"
  with assms have "j \<noteq> length ls" by blast
  then show "node_at h (ls @ [x]) 0 j = node_at h ls 0 j" by (simp add: nth_append)
qed

lemma node_at_beyond:
  assumes "level_len (length ls) d \<le> i"
  shows "node_at h ls d i = node_at h [] d 0"
proof -
  have "node_at h ls d i = node_at h [] d i"
  proof (rule node_at_cong)
    fix j assume j: "j div 2 ^ d = i"
    have "length ls \<le> j"
    proof (rule ccontr)
      assume "\<not> length ls \<le> j"
      then have "j \<le> length ls - 1" "length ls \<noteq> 0" by auto
      then have "j div 2 ^ d \<le> (length ls - 1) div 2 ^ d" by (simp add: div_le_mono)
      with j assms \<open>length ls \<noteq> 0\<close> show False by (simp add: level_len_def)
    qed
    then show "node_at h ls 0 j = node_at h [] 0 j" by simp
  qed
  also have "\<dots> = node_at h [] d 0"
  proof (induction d arbitrary: i)
    case (Suc d)
    show ?case using Suc[of "2 * i"] Suc[of "2 * i + 1"] Suc[of 1] by simp
  qed simp
  finally show ?thesis .
qed

lemma level_len_Suc: "level_len (Suc n) d = n div 2 ^ d + 1"
  by (simp add: level_len_def)

lemma level_len_cases:
  "level_len n d = n div 2 ^ d \<or> level_len n d = n div 2 ^ d + 1"
proof (cases n)
  case (Suc m)
  have "Suc m div 2 ^ d = m div 2 ^ d \<or> Suc m div 2 ^ d = m div 2 ^ d + 1"
    by (simp add: div_Suc)
  with Suc show ?thesis by (auto simp: level_len_def)
qed (simp add: level_len_def)

lemma length_canonical_level [simp]: "length (canonical_level h ls d) = level_len (length ls) d"
  by (simp add: canonical_level_def)

lemma nth_canonical_level [simp]:
  "i < level_len (length ls) d \<Longrightarrow> canonical_level h ls d ! i = node_at h ls d i"
  by (simp add: canonical_level_def)

lemma canonical_level_0 [simp]: "canonical_level h ls 0 = ls"
  by (rule nth_equalityI) (auto simp: canonical_level_def level_len_def split: if_splits)

lemma canonical_level_snoc:
  assumes p: "p = length ls div 2 ^ d" and v: "v = node_at h (ls @ [x]) d p"
  shows "store_parent (canonical_level h ls d) p v = Some (canonical_level h (ls @ [x]) d)"
proof (cases "level_len (length ls) d = p")
  case True
  have "canonical_level h (ls @ [x]) d = canonical_level h ls d @ [v]"
    using True p v
    by (intro nth_equalityI) (auto simp: nth_append level_len_Suc node_at_snoc less_Suc_eq)
  with True show ?thesis by (simp add: store_parent_def)
next
  case False
  with level_len_cases[of "length ls" d] p have l: "level_len (length ls) d = p + 1" by auto
  have "(canonical_level h ls d)[p := v] = canonical_level h (ls @ [x]) d"
    using l p v
    by (intro list_update_eqI) (auto simp: level_len_Suc node_at_snoc)
  with l show ?thesis by (simp add: store_parent_def vec_set_def)
qed

lemma zeros_of_eq: "zeros_of h = map (\<lambda>d. node_at h [] d 0) [0..<TREE_DEPTH + 1]"
proof -
  have z: "node_at h [] d i = node_at h [] d 0" for d i
    using node_at_beyond[of "[]" d i h] by (simp add: level_len_def)
  have "fold (\<lambda>d zs. zs @ [hash_pair h (zs ! d) (zs ! d)]) [0..<k] [empty_leaf h]
        = map (\<lambda>d. node_at h [] d 0) [0..<Suc k]" for k
  proof (induction k)
    case (Suc k)
    then show ?case using z[of k 1] by (simp add: nth_append)
  qed simp
  from this[of TREE_DEPTH] show ?thesis unfolding zeros_of_def by simp
qed

lemma length_levels_repr [simp]: "tree_repr t ls \<Longrightarrow> length (levels t) = TREE_DEPTH + 1"
  by (simp add: tree_repr_def)

lemma length_zeros_repr [simp]: "tree_repr t ls \<Longrightarrow> length (zeros t) = TREE_DEPTH + 1"
  by (simp add: tree_repr_def)

lemma nth_levels_repr:
  "tree_repr t ls \<Longrightarrow> d \<le> TREE_DEPTH \<Longrightarrow> levels t ! d = canonical_level (hasher t) ls d"
  by (simp add: tree_repr_def nth_append not_less less_Suc_eq_le del: upt_Suc)

lemma nth_zeros_repr:
  "tree_repr t ls \<Longrightarrow> d \<le> TREE_DEPTH \<Longrightarrow> zeros t ! d = node_at (hasher t) [] d 0"
  by (simp add: tree_repr_def del: upt_Suc)

lemma tree_repr_new [wf_intros]: "tree_repr (new_tree h) []"
proof -
  have "map (canonical_level h []) [0..<n] = replicate n []" for n
    by (intro nth_equalityI) (auto simp: canonical_level_def level_len_def)
  from this[of "TREE_DEPTH + 1"] show ?thesis
    by (simp add: tree_repr_def new_tree_def zeros_of_eq del: upt_Suc)
qed

text \<open>The levels after \<open>k\<close> iterations: up to height \<open>k\<close> they already hold the new leaf.\<close>

definition mixed_levels :: "tree_hasher \<Rightarrow> node list \<Rightarrow> node \<Rightarrow> nat \<Rightarrow> node list list" where
  "mixed_levels h ls x k =
     map (\<lambda>d. canonical_level h (if d \<le> k then ls @ [x] else ls) d) [0..<TREE_DEPTH + 1]"

lemma mixed_levels_nth:
  "d \<le> TREE_DEPTH \<Longrightarrow>
   mixed_levels h ls x k ! d = canonical_level h (if d \<le> k then ls @ [x] else ls) d"
  by (simp add: mixed_levels_def del: upt_Suc)

lemma mixed_levels_update:
  assumes "k < TREE_DEPTH"
  shows "(mixed_levels h ls x k)[Suc k := canonical_level h (ls @ [x]) (Suc k)]
         = mixed_levels h ls x (Suc k)"
  using assms
  by (intro list_update_eqI) (auto simp: mixed_levels_def le_Suc_eq simp del: upt_Suc)

lemma append_step_mixed:
  assumes k: "k < TREE_DEPTH" and zs: "zs = map (\<lambda>d. node_at h [] d 0) [0..<TREE_DEPTH + 1]"
  shows "append_step h zs k (length ls div 2 ^ k, mixed_levels h ls x k)
         = Some (length ls div 2 ^ Suc k, mixed_levels h ls x (Suc k))"
proof -
  define i p where "i = length ls div 2 ^ k" and "p = i div 2"
  have p: "p = length ls div 2 ^ Suc k"
    by (simp add: i_def p_def power_Suc2 div_mult2_eq del: power_Suc)
  let ?lvl = "canonical_level h (ls @ [x]) k"
  have len: "length ?lvl = i + 1" by (simp add: level_len_Suc i_def)
  have left: "vec_get ?lvl (2 * p) = Some (node_at h (ls @ [x]) k (2 * p))"
    using len by (simp add: p_def vec_get_eq_Some)
  have zk: "vec_get zs k = Some (node_at h [] k 0)"
    using k by (simp add: zs vec_get_eq_Some del: upt_Suc)
  have right: "(case vec_get ?lvl (2 * p + 1) of Some r \<Rightarrow> r | None \<Rightarrow> node_at h [] k 0)
               = node_at h (ls @ [x]) k (2 * p + 1)"
  proof (cases "2 * p + 1 < i + 1")
    case True
    with len show ?thesis by simp
  next
    case False
    then have "node_at h (ls @ [x]) k (2 * p + 1) = node_at h [] k 0"
      by (intro node_at_beyond) (simp add: level_len_Suc i_def)
    with False len show ?thesis by simp
  qed
  have upd: "store_parent (canonical_level h ls (Suc k)) p
               (hash_pair h (node_at h (ls @ [x]) k (2 * p)) (node_at h (ls @ [x]) k (2 * p + 1)))
             = Some (canonical_level h (ls @ [x]) (Suc k))"
    by (rule canonical_level_snoc) (simp_all add: p)
  have lvls: "vec_get (mixed_levels h ls x k) k = Some ?lvl"
    "vec_get (mixed_levels h ls x k) (k + 1) = Some (canonical_level h ls (Suc k))"
    using k by (simp_all add: vec_get_eq_Some mixed_levels_nth) (simp_all add: mixed_levels_def)
  show ?thesis
    unfolding append_step_def i_def[symmetric] p[symmetric] prod.case p_def[symmetric] Let_def
      lvls left zk bind.bind_lunit right upd
    using mixed_levels_update[OF k, of h ls x] by simp
qed

lemma append_loop_mixed:
  assumes "zs = map (\<lambda>d. node_at h [] d 0) [0..<TREE_DEPTH + 1]" "k + m = TREE_DEPTH"
  shows "append_loop h zs [k..<TREE_DEPTH] (length ls div 2 ^ k, mixed_levels h ls x k)
         = Some (length ls div 2 ^ TREE_DEPTH, mixed_levels h ls x TREE_DEPTH)"
  using assms(2)
proof (induction m arbitrary: k)
  case (Suc m)
  then have "[k..<TREE_DEPTH] = k # [Suc k..<TREE_DEPTH]" by (simp add: upt_rec)
  with Suc.prems Suc.IH[of "Suc k"] append_step_mixed[OF _ assms(1), of k ls x]
  show ?case by (simp del: power_Suc)
qed simp

lemma append_leaf_repr:
  assumes "tree_repr t ls"
  obtains t' where "append_leaf t x = Some (t', length ls)" "tree_repr t' (ls @ [x])"
    "hasher t' = hasher t"
proof -
  let ?h = "hasher t"
  let ?t' = "t\<lparr>levels := mixed_levels ?h ls x TREE_DEPTH\<rparr>"
  have l0: "vec_get (levels t) 0 = Some ls"
    using assms by (simp add: vec_get_eq_Some nth_levels_repr)
  have "(levels t)[0 := ls @ [x]] = mixed_levels ?h ls x 0"
    using assms
    by (intro list_update_eqI) (auto simp: mixed_levels_def nth_levels_repr simp del: upt_Suc)
  then have "append_leaf t x = Some (?t', length ls)"
    using l0 append_loop_mixed[of "zeros t" ?h 0 TREE_DEPTH ls x] assms
    by (simp add: append_leaf_def Let_def tree_repr_def)
  moreover have "tree_repr ?t' (ls @ [x])"
    using assms by (simp add: tree_repr_def mixed_levels_def del: upt_Suc)
  ultimately show thesis by (rule that) simp
qed

lemma append_all_repr:
  assumes "tree_repr t ls"
  shows "\<exists>t'. append_all t xs = Some t' \<and> tree_repr t' (ls @ xs) \<and> hasher t' = hasher t"
  using assms
proof (induction xs arbitrary: t ls)
  case (Cons x xs)
  from append_leaf_repr[OF Cons.prems, of x] obtain t'
    where t': "append_leaf t x = Some (t', length ls)" "tree_repr t' (ls @ [x])" "hasher t' = hasher t" .
  from Cons.IH[OF t'(2)] t' show ?case by auto
qed simp

lemma from_leaves_repr:
  obtains t where "from_leaves h ls = Some t" "tree_repr t ls" "hasher t = h"
proof -
  from append_all_repr[OF tree_repr_new, of h ls] obtain t
    where "append_all (new_tree h) ls = Some t" "tree_repr t ls" "hasher t = h"
    by (auto simp: new_tree_def)
  then show thesis by (intro that) (simp_all add: from_leaves_def)
qed

section \<open>len, root and path\<close>

lemma tree_len_repr: "tree_repr t ls \<Longrightarrow> tree_len t = length ls"
  by (simp add: tree_len_def nth_levels_repr)

lemma tree_is_empty_repr: "tree_repr t ls \<Longrightarrow> tree_is_empty t \<longleftrightarrow> ls = []"
  by (simp add: tree_is_empty_def nth_levels_repr)

lemma tree_root_repr:
  assumes "tree_repr t ls"
  shows "tree_root t = node_at (hasher t) ls TREE_DEPTH 0"
proof (cases "ls = []")
  case True
  then have "canonical_level (hasher t) ls TREE_DEPTH = []"
    by (simp add: canonical_level_def level_len_def)
  with True assms show ?thesis by (simp add: tree_root_def nth_levels_repr nth_zeros_repr)
next
  case False
  then have "0 < level_len (length ls) TREE_DEPTH" by (simp add: level_len_def)
  then obtain n where "level_len (length ls) TREE_DEPTH = Suc n" using gr0_implies_Suc by blast
  then have "canonical_level (hasher t) ls TREE_DEPTH
             = node_at (hasher t) ls TREE_DEPTH 0 # map (node_at (hasher t) ls TREE_DEPTH) [1..<Suc n]"
    by (simp add: canonical_level_def upt_conv_Cons del: upt_Suc)
  with assms show ?thesis by (simp add: tree_root_def nth_levels_repr)
qed

lemma xor_1_nat: "(i :: nat) XOR Suc 0 = (if even i then i + 1 else i - 1)"
  using xor_one_eq[of i] by auto

text \<open>The path of leaf \<open>i\<close>, read off the abstract tree.\<close>

definition spec_path :: "tree_hasher \<Rightarrow> node list \<Rightarrow> nat \<Rightarrow> nat \<Rightarrow> path_element list" where
  "spec_path h ls i k =
     map (\<lambda>d. \<lparr>sibling = node_at h ls d ((i div 2 ^ d) XOR 1),
               sibling_on_right = even (i div 2 ^ d)\<rparr>) [0..<k]"

lemma path_step_repr:
  assumes "tree_repr t ls" "d < TREE_DEPTH"
  shows "path_step t d i = Some \<lparr>sibling = node_at (hasher t) ls d (i XOR 1),
                                 sibling_on_right = even i\<rparr>"
proof -
  have l: "vec_get (levels t) d = Some (canonical_level (hasher t) ls d)"
    and z: "vec_get (zeros t) d = Some (node_at (hasher t) [] d 0)"
    using assms by (simp_all add: vec_get_eq_Some nth_levels_repr nth_zeros_repr)
  have "(case vec_get (canonical_level (hasher t) ls d) (i XOR 1) of Some s \<Rightarrow> s
           | None \<Rightarrow> node_at (hasher t) [] d 0) = node_at (hasher t) ls d (i XOR 1)"
    using node_at_beyond[of ls d "i XOR 1" "hasher t"] by (simp add: vec_get_def)
  then show ?thesis using l z by (simp add: path_step_def even_iff_mod_2_eq_zero)
qed

lemma path_loop_repr:
  assumes "tree_repr t ls" "k + m = TREE_DEPTH"
  shows "path_loop t [k..<TREE_DEPTH] (i div 2 ^ k)
         = Some (map (\<lambda>d. \<lparr>sibling = node_at (hasher t) ls d ((i div 2 ^ d) XOR 1),
                           sibling_on_right = even (i div 2 ^ d)\<rparr>) [k..<TREE_DEPTH])"
  using assms(2)
proof (induction m arbitrary: k)
  case (Suc m)
  then have u: "[k..<TREE_DEPTH] = k # [Suc k..<TREE_DEPTH]" by (simp add: upt_rec)
  have d: "i div 2 ^ k div 2 = i div 2 ^ Suc k"
    by (simp add: power_Suc2 div_mult2_eq del: power_Suc)
  from Suc.prems Suc.IH[of "Suc k"] show ?case
    unfolding u path_loop.simps d by (simp add: path_step_repr[OF assms(1)] del: power_Suc)
qed simp

lemma tree_path_repr:
  assumes "tree_repr t ls"
  shows "tree_path t i = (if i < length ls then Some (Some (spec_path (hasher t) ls i TREE_DEPTH))
                          else Some None)"
  using path_loop_repr[OF assms, of 0 TREE_DEPTH i] assms
  by (simp add: tree_path_def nth_levels_repr spec_path_def)

lemma fold_spec_path:
  "fold_path h (node_at h ls 0 i) (spec_path h ls i k) = node_at h ls k (i div 2 ^ k)"
proof (induction k)
  case 0
  show ?case by (simp add: fold_path_def spec_path_def)
next
  case (Suc k)
  let ?j = "i div 2 ^ k"
  have d: "i div 2 ^ Suc k = ?j div 2" by (simp add: power_Suc2 div_mult2_eq del: power_Suc)
  have "fold_path h (node_at h ls 0 i) (spec_path h ls i (Suc k))
        = (if even ?j then hash_pair h (node_at h ls k ?j) (node_at h ls k (?j XOR 1))
           else hash_pair h (node_at h ls k (?j XOR 1)) (node_at h ls k ?j))"
    using Suc by (simp add: fold_path_def spec_path_def)
  also have "\<dots> = node_at h ls (Suc k) (?j div 2)"
    by (cases "even ?j") (auto simp: xor_1_nat elim!: evenE oddE)
  finally show ?case unfolding d .
qed

lemma verify_spec_path:
  assumes "tree_repr t ls" "i < length ls" "i < 2 ^ TREE_DEPTH"
  shows "fold_path (hasher t) (ls ! i) (spec_path (hasher t) ls i TREE_DEPTH) = tree_root t"
  using fold_spec_path[of "hasher t" ls i TREE_DEPTH] assms by (simp add: tree_root_repr)

section \<open>The full rebuild\<close>

lemma pair_up_map:
  "pair_up h (f n) (map f [0..<n]) = map (\<lambda>i. hash_pair h (f (2 * i)) (f (2 * i + 1))) [0..<(n + 1) div 2]"
proof -
  have "pair_up h (f (k + n)) (map f [k..<k + n])
        = map (\<lambda>i. hash_pair h (f (k + 2 * i)) (f (k + 2 * i + 1))) [0..<(n + 1) div 2]" for k
  proof (induction n arbitrary: k rule: less_induct)
    case (less n)
    consider "n = 0" | "n = 1" | m where "n = Suc (Suc m)" by (metis One_nat_def not0_implies_Suc)
    then show ?case
    proof cases
      case 3
      have "[k..<k + n] = k # Suc k # [Suc (Suc k)..<Suc (Suc k) + m]"
        using 3 by (simp add: upt_conv_Cons)
      moreover have "map (\<lambda>i. hash_pair h (f (k + 2 * i)) (f (k + 2 * i + 1))) [0..<Suc ((m + 1) div 2)]
        = hash_pair h (f k) (f (Suc k)) #
          map (\<lambda>i. hash_pair h (f (Suc (Suc k) + 2 * i)) (f (Suc (Suc k) + 2 * i + 1))) [0..<(m + 1) div 2]"
        by (simp add: upt_conv_Cons map_Suc_upt[symmetric] o_def del: upt_Suc)
      ultimately show ?thesis using 3 less[of m "Suc (Suc k)"] by simp
    qed simp_all
  qed
  from this[of 0] show ?thesis by simp
qed

lemma level_len_Suc_height: "level_len n (Suc d) = (level_len n d + 1) div 2"
  by (cases n) (simp_all add: level_len_def power_Suc2 div_mult2_eq del: power_Suc)

lemma pair_up_canonical:
  "pair_up h (node_at h [] d 0) (canonical_level h ls d) = canonical_level h ls (Suc d)"
proof -
  have "pair_up h (node_at h ls d (level_len (length ls) d)) (canonical_level h ls d)
        = canonical_level h ls (Suc d)"
    unfolding canonical_level_def pair_up_map level_len_Suc_height by simp
  then show ?thesis by (simp add: node_at_beyond)
qed

lemma naive_loop_canonical:
  assumes "ls \<noteq> []" "k + m = TREE_DEPTH"
  shows "naive_loop h (zeros_of h) [k..<TREE_DEPTH] (canonical_level h ls k) = node_at h ls TREE_DEPTH 0"
  using assms(2)
proof (induction m arbitrary: k)
  case 0
  with assms(1) show ?case by (simp add: level_len_def)
next
  case (Suc m)
  then have u: "[k..<TREE_DEPTH] = k # [Suc k..<TREE_DEPTH]" by (simp add: upt_rec)
  have ne: "canonical_level h ls k \<noteq> []" using assms(1) by (simp add: canonical_level_def level_len_def)
  have z: "zeros_of h ! k = node_at h [] k 0" using Suc.prems by (simp add: zeros_of_eq del: upt_Suc)
  from Suc show ?case by (simp add: u ne z pair_up_canonical)
qed

lemma naive_root_eq: "naive_root h ls = node_at h ls TREE_DEPTH 0"
proof (cases "ls = []")
  case True
  have u: "[0..<TREE_DEPTH] = 0 # [Suc 0..<TREE_DEPTH]" by (simp add: TREE_DEPTH_def upt_conv_Cons del: upt_Suc)
  have "zeros_of h ! TREE_DEPTH = node_at h [] TREE_DEPTH 0"
    by (simp add: zeros_of_eq nth_append)
  with True show ?thesis by (simp only: naive_root_def u naive_loop.simps simp_thms if_True)
next
  case False
  from naive_loop_canonical[OF this, of 0 TREE_DEPTH h] show ?thesis by (simp add: naive_root_def)
qed

section \<open>Soundness of path verification, up to an explicit hash collision\<close>

text \<open>
  \<open>path_collision\<close> walks two paths of the same shape in step and returns the first pair of
  different inputs on which \<open>hash_pair\<close> agrees.
\<close>

definition step_input :: "node \<Rightarrow> path_element \<Rightarrow> node \<times> node" where
  "step_input n el = (if sibling_on_right el then (n, sibling el) else (sibling el, n))"

fun path_collision ::
  "tree_hasher \<Rightarrow> node \<Rightarrow> path_element list \<Rightarrow> node \<Rightarrow> path_element list
   \<Rightarrow> ((node \<times> node) \<times> (node \<times> node)) option" where
  "path_collision h n (el # els) m (el' # els') =
     (let a = step_input n el; b = step_input m el';
          n' = hash_pair h (fst a) (snd a); m' = hash_pair h (fst b) (snd b)
      in if n' = m' then Some (a, b) else path_collision h n' els m' els')"
| "path_collision h n _ m _ = None"

definition is_collision :: "tree_hasher \<Rightarrow> (node \<times> node) \<times> (node \<times> node) \<Rightarrow> bool" where
  "is_collision h c \<longleftrightarrow> fst c \<noteq> snd c \<and>
     hash_pair h (fst (fst c)) (snd (fst c)) = hash_pair h (fst (snd c)) (snd (snd c))"

lemma fold_path_Nil [simp]: "fold_path h n [] = n"
  by (simp add: fold_path_def)

lemma fold_path_Cons:
  "fold_path h n (el # els) =
     fold_path h (hash_pair h (fst (step_input n el)) (snd (step_input n el))) els"
  by (simp add: fold_path_def step_input_def)

lemma path_collision_found:
  assumes "map sibling_on_right p = map sibling_on_right q" "n \<noteq> m"
    and "fold_path h n p = fold_path h m q"
  shows "\<exists>c. path_collision h n p m q = Some c \<and> is_collision h c"
  using assms
proof (induction h n p m q rule: path_collision.induct)
  case (1 h n el els m el' els')
  let ?a = "step_input n el" and ?b = "step_input m el'"
  have ne: "?a \<noteq> ?b" using "1.prems"(1,2) by (auto simp: step_input_def)
  show ?case
  proof (cases "hash_pair h (fst ?a) (snd ?a) = hash_pair h (fst ?b) (snd ?b)")
    case True
    with ne show ?thesis by (simp add: Let_def is_collision_def)
  next
    case False
    with "1.prems" "1.IH"[OF refl refl refl refl False] show ?thesis
      by (simp add: fold_path_Cons Let_def)
  qed
qed auto

lemma spec_path_directions:
  "map sibling_on_right (spec_path h ls i k) = map (\<lambda>d. even (i div 2 ^ d)) [0..<k]"
  by (simp add: spec_path_def o_def)

section \<open>Degenerate appends\<close>

lemma node_at_empty_leaf: "node_at h (ls @ [empty_leaf h]) d i = node_at h ls d i"
  by (rule node_at_cong) (simp add: nth_append)

lemma node_at_full:
  assumes "2 ^ TREE_DEPTH \<le> length ls"
  shows "node_at h (ls @ [x]) TREE_DEPTH 0 = node_at h ls TREE_DEPTH 0"
  using assms by (intro node_at_snoc) (simp add: div_eq_0_iff)

section \<open>Every node is 32 bytes long\<close>

definition hasher_ok :: "tree_hasher \<Rightarrow> bool" where
  "hasher_ok h \<longleftrightarrow> length (empty_leaf h) = 32 \<and> (\<forall>l r. length (hash_pair h l r) = 32)"

lemma hasher_ok_sha256 [wf_intros]:
  "(\<And>bs. length (sha256 bs) = 32) \<Longrightarrow> hasher_ok (sha256_hasher sha256)"
  by (simp add: hasher_ok_def sha256_hasher_def)

lemma length_node_at:
  "hasher_ok h \<Longrightarrow> \<forall>l \<in> set ls. length l = 32 \<Longrightarrow> length (node_at h ls d i) = 32"
  by (cases d) (auto simp: hasher_ok_def)

section \<open>The tree as an abstract data type\<close>

text \<open>
  What the API's pool cache relies on: an append-only sequence of leaves with a root that is
  a function of them and paths that check.  \<open>rep t ls\<close> says that \<open>t\<close> holds the leaves \<open>ls\<close>.
\<close>

locale commitment_tree =
  fixes mk :: "'t"
    and append :: "'t \<Rightarrow> node \<Rightarrow> ('t \<times> nat) option"
    and len :: "'t \<Rightarrow> nat"
    and root :: "'t \<Rightarrow> node"
    and path :: "'t \<Rightarrow> nat \<Rightarrow> path_element list option option"
    and check :: "node \<Rightarrow> path_element list \<Rightarrow> node"
    and rep :: "'t \<Rightarrow> node list \<Rightarrow> bool"
    and spec_root :: "node list \<Rightarrow> node"
    and capacity :: nat
  assumes rep_mk: "rep mk []"
    and rep_append: "rep t ls \<Longrightarrow> \<exists>t'. append t x = Some (t', length ls) \<and> rep t' (ls @ [x])"
    and rep_len: "rep t ls \<Longrightarrow> len t = length ls"
    and rep_root: "rep t ls \<Longrightarrow> root t = spec_root ls"
    and rep_path: "rep t ls \<Longrightarrow> i < length ls \<Longrightarrow> \<exists>p. path t i = Some (Some p) \<and>
                     (i < capacity \<longrightarrow> check (ls ! i) p = root t)"
    and rep_no_path: "rep t ls \<Longrightarrow> length ls \<le> i \<Longrightarrow> path t i = Some None"
begin

lemma appendE:
  assumes "rep t ls"
  obtains t' where "append t x = Some (t', length ls)" "rep t' (ls @ [x])"
    "len t' = Suc (length ls)" "root t' = spec_root (ls @ [x])"
  using rep_append[OF assms, of x] rep_len rep_root by force

lemma append_never_panics: "rep t ls \<Longrightarrow> append t x \<noteq> None"
  using rep_append by force

lemma path_iff: "rep t ls \<Longrightarrow> (\<exists>p. path t i = Some (Some p)) \<longleftrightarrow> i < length ls"
  using rep_path rep_no_path by (metis not_less option.distinct(1) option.inject)

lemma same_leaves_same_root: "rep t ls \<Longrightarrow> rep t' ls \<Longrightarrow> root t = root t' \<and> len t = len t'"
  by (simp add: rep_root rep_len)

end

interpretation mt: commitment_tree "new_tree h" append_leaf tree_len tree_root tree_path
  "fold_path h" "\<lambda>t ls. tree_repr t ls \<and> hasher t = h" "\<lambda>ls. node_at h ls TREE_DEPTH 0"
  "2 ^ TREE_DEPTH" for h
proof (unfold_locales, goal_cases)
  case 1 show ?case by (simp add: tree_repr_new) (simp add: new_tree_def)
next
  case (2 t ls x) then show ?case by (metis append_leaf_repr)
next
  case (5 t ls i)
  then show ?case
    using verify_spec_path[of t ls i] by (auto simp: tree_path_repr)
qed (auto simp: tree_len_repr tree_root_repr tree_path_repr)

section \<open>Properties\<close>

text \<open>
  C1. \<open>append\<close> refines appending to the list of leaves: on a tree that caches the leaves
  \<open>ls\<close> it does not panic, returns the new leaf's index \<open>length ls\<close>, and every one of the 33
  cached levels of the new tree is the level of the complete tree over \<open>ls @ [x]\<close>.
\<close>

theorem append_refines_snoc:
  assumes "tree_repr t ls"
  shows "\<exists>t'. append_leaf t x = Some (t', length ls) \<and> tree_repr t' (ls @ [x])"
  by (metis append_leaf_repr[OF assms])

theorem append_refines_snoc_witness:
  "\<exists>t'. append_leaf (new_tree (sha256_hasher (\<lambda>_. replicate 32 7))) (replicate 32 1) = Some (t', 0)
     \<and> tree_repr t' [replicate 32 1]"
  using append_refines_snoc[OF tree_repr_new] by simp

text \<open>
  C2. The incremental root equals the root of a naive level-by-level rebuild, for every
  hasher and every list of leaves, and building the tree never panics.
\<close>

theorem incremental_root_is_naive_root:
  "\<exists>t. from_leaves h ls = Some t \<and> tree_root t = naive_root h ls \<and> tree_len t = length ls"
proof -
  obtain t where "from_leaves h ls = Some t" "tree_repr t ls" "hasher t = h"
    by (rule from_leaves_repr)
  then show ?thesis by (simp add: naive_root_eq tree_root_repr tree_len_repr)
qed

text \<open>
  C3. \<open>path\<close> returns a path exactly for the populated indexes; it has 32 elements and (below
  the capacity of the tree) verifies against the current root for the leaf stored there.
\<close>

theorem path_complete:
  assumes "from_leaves h ls = Some t" "i < 2 ^ TREE_DEPTH"
  shows "if i < length ls
         then \<exists>p. tree_path t i = Some (Some p) \<and> length p = TREE_DEPTH
                  \<and> verify_path t (ls ! i) p (tree_root t)
         else tree_path t i = Some None"
proof -
  have t: "tree_repr t ls" "hasher t = h" using assms(1) from_leaves_repr[of h ls] by force+
  show ?thesis
    using verify_spec_path[OF t(1) _ assms(2)]
    by (simp add: tree_path_repr[OF t(1)] verify_path_def spec_path_def)
qed

theorem path_complete_witness:
  "\<exists>t p. from_leaves (sha256_hasher (\<lambda>_. replicate 32 7)) [replicate 32 1, replicate 32 2] = Some t
     \<and> tree_path t 1 = Some (Some p) \<and> length p = 32 \<and> verify_path t (replicate 32 2) p (tree_root t)"
proof -
  let ?h = "sha256_hasher (\<lambda>_. replicate 32 7)" and ?ls = "[replicate 32 1, replicate 32 2] :: node list"
  obtain t where t: "from_leaves ?h ?ls = Some t" by (rule from_leaves_repr)
  from path_complete[OF t, of 1] t show ?thesis by (auto simp: TREE_DEPTH_def)
qed

text \<open>
  C4. Soundness: whoever presents a path with the directions of leaf \<open>i\<close> that verifies
  against the tree's root presents the leaf stored at \<open>i\<close>, or hands over (computably, through
  \<open>path_collision\<close>) two different inputs on which \<open>hash_pair\<close> collides.
\<close>

theorem verify_path_sound:
  assumes "tree_repr t ls" "i < length ls" "i < 2 ^ TREE_DEPTH"
    and "map sibling_on_right p = map (\<lambda>d. even (i div 2 ^ d)) [0..<TREE_DEPTH]"
    and "verify_path t leaf p (tree_root t)"
  shows "leaf = ls ! i \<or>
         (\<exists>q c. tree_path t i = Some (Some q) \<and> path_collision (hasher t) leaf p (ls ! i) q = Some c
                \<and> is_collision (hasher t) c)"
proof (cases "leaf = ls ! i")
  case False
  let ?q = "spec_path (hasher t) ls i TREE_DEPTH"
  have "fold_path (hasher t) leaf p = fold_path (hasher t) (ls ! i) ?q"
    using assms(5) verify_spec_path[OF assms(1-3)] by (simp add: verify_path_def)
  with False assms(4) have "\<exists>c. path_collision (hasher t) leaf p (ls ! i) ?q = Some c \<and> is_collision (hasher t) c"
    by (intro path_collision_found) (simp_all add: spec_path_directions)
  with assms(1,2) show ?thesis by (auto simp: tree_path_repr)
qed simp

text \<open>Sample data for the witnesses: a constant hash and two leaves.\<close>

definition sample_hasher :: tree_hasher where
  "sample_hasher = sha256_hasher (\<lambda>_. replicate 32 7)"

definition sample_leaves :: "node list" where
  "sample_leaves = [replicate 32 1, replicate 32 2]"

theorem verify_path_sound_witness:
  "\<exists>t p. from_leaves sample_hasher sample_leaves = Some t
     \<and> verify_path t (replicate 32 2) p (tree_root t)
     \<and> (replicate 32 2 = sample_leaves ! 1 \<or>
         (\<exists>q c. tree_path t 1 = Some (Some q) \<and> path_collision (hasher t) (replicate 32 2) p (sample_leaves ! 1) q = Some c
                \<and> is_collision (hasher t) c))"
proof -
  obtain t where t: "from_leaves sample_hasher sample_leaves = Some t"
    and r: "tree_repr t sample_leaves" by (rule from_leaves_repr)
  let ?p = "spec_path (hasher t) sample_leaves 1 TREE_DEPTH"
  have i: "1 < length sample_leaves" "(1 :: nat) < 2 ^ TREE_DEPTH"
    by (simp_all add: sample_leaves_def TREE_DEPTH_def)
  have v: "verify_path t (sample_leaves ! 1) ?p (tree_root t)"
    using verify_spec_path[OF r i] by (simp add: verify_path_def)
  have l: "sample_leaves ! 1 = replicate 32 2" by (simp add: sample_leaves_def)
  show ?thesis
    using verify_path_sound[OF r i spec_path_directions v] t v unfolding l by blast
qed

text \<open>
  The root does not see every append: appending the empty leaf, or appending to a tree
  that already holds \<open>2 ^ 32\<close> leaves, grows the tree and leaves its root unchanged.
\<close>

theorem silent_appends:
  assumes "tree_repr t ls" "x = empty_leaf (hasher t) \<or> 2 ^ TREE_DEPTH \<le> length ls"
  shows "\<exists>t'. append_leaf t x = Some (t', length ls) \<and> tree_len t' = Suc (length ls)
              \<and> tree_root t' = tree_root t"
proof -
  obtain t' where t': "append_leaf t x = Some (t', length ls)" "tree_repr t' (ls @ [x])"
    "hasher t' = hasher t" by (rule append_leaf_repr[OF assms(1)])
  have "tree_root t' = tree_root t"
    using assms t'(2,3) by (auto simp: tree_root_repr node_at_empty_leaf node_at_full)
  with t' show ?thesis by (simp add: tree_len_repr)
qed

theorem silent_appends_witness:
  "\<exists>t'. append_leaf (new_tree sample_hasher) (replicate 32 0) = Some (t', 0)
     \<and> tree_len t' = 1 \<and> tree_root t' = tree_root (new_tree sample_hasher)"
proof -
  have "empty_leaf (hasher (new_tree sample_hasher)) = replicate 32 0"
    by (simp add: new_tree_def sample_hasher_def sha256_hasher_def)
  with silent_appends[OF tree_repr_new, of "replicate 32 0" sample_hasher] show ?thesis by simp
qed

text \<open>
  With a hash of 32-byte output, every root and every sibling the tree serves for 32-byte
  leaves is 32 bytes long, as the type \<open>Node = [u8; 32]\<close> says.
\<close>

theorem served_nodes_are_32_bytes:
  assumes "hasher_ok h" "\<forall>l \<in> set ls. length l = 32" "from_leaves h ls = Some t"
  shows "length (tree_root t) = 32 \<and>
         (\<forall>i p. tree_path t i = Some (Some p) \<longrightarrow> (\<forall>el \<in> set p. length (sibling el) = 32))"
proof -
  have t: "tree_repr t ls" "hasher t = h" using assms(3) from_leaves_repr[of h ls] by force+
  then show ?thesis
    using assms
    by (auto simp: tree_root_repr tree_path_repr spec_path_def length_node_at split: if_splits)
qed

theorem served_nodes_are_32_bytes_witness:
  "\<exists>t. from_leaves sample_hasher sample_leaves = Some t \<and> length (tree_root t) = 32"
proof -
  have ok: "hasher_ok sample_hasher" "\<forall>l \<in> set sample_leaves. length l = 32"
    by (simp_all add: sample_hasher_def hasher_ok_sha256 sample_leaves_def)
  obtain t where t: "from_leaves sample_hasher sample_leaves = Some t" by (rule from_leaves_repr)
  with served_nodes_are_32_bytes[OF ok t] show ?thesis by blast
qed

end
