(* ===== verification/Codec.thy ===== *)
theory Codec
  imports RustStd
begin

text \<open>
  What the program relies on from the crate \<open>hex\<close>: encoding prints two hexadecimal digits a
  byte (so no letter \<open>x\<close>), and decoding inverts it.  The codec itself is a parameter of the
  models that use it; the concrete codec at the end is the one the witnesses run.
\<close>

definition hex_codec_ok :: "(string \<Rightarrow> byte list option) \<Rightarrow> (byte list \<Rightarrow> string) \<Rightarrow> bool" where
  "hex_codec_ok hex_decode hex_encode \<longleftrightarrow>
     (\<forall>bs. hex_decode (hex_encode bs) = Some bs) \<and> (\<forall>bs. CHR ''x'' \<notin> set (hex_encode bs))"

lemma trim_0x_no_x: "CHR ''x'' \<notin> set s \<Longrightarrow> trim_0x s = s"
  by (induction s rule: trim_0x.induct) auto

lemma hex_codec_0x:
  assumes "hex_codec_ok hex_decode hex_encode"
  shows "hex_decode (trim_0x (''0x'' @ hex_encode bs)) = Some bs"
  using assms by (simp add: hex_codec_ok_def trim_0x_no_x)

section \<open>A concrete codec\<close>

definition hex_digits :: string where
  "hex_digits = ''0123456789abcdef''"

definition sample_hex_encode :: "byte list \<Rightarrow> string" where
  "sample_hex_encode bs =
     concat (map (\<lambda>b. [hex_digits ! (unat b div 16), hex_digits ! (unat b mod 16)]) bs)"

definition nibble :: "char \<Rightarrow> nat option" where
  "nibble c = (case filter (\<lambda>n. hex_digits ! n = c) [0..<16] of [] \<Rightarrow> None | n # _ \<Rightarrow> Some n)"

fun sample_hex_decode :: "string \<Rightarrow> byte list option" where
  "sample_hex_decode [] = Some []"
| "sample_hex_decode [c] = None"
| "sample_hex_decode (a # b # s) = do {
     x \<leftarrow> nibble a; y \<leftarrow> nibble b; bs \<leftarrow> sample_hex_decode s;
     Some (word_of_nat (16 * x + y) # bs) }"

lemma nibble_hex_digit: "n < 16 \<Longrightarrow> nibble (hex_digits ! n) = Some n"
proof -
  have "list_all (\<lambda>n. nibble (hex_digits ! n) = Some n) [0..<16]"
    by (simp add: nibble_def hex_digits_def upt_rec)
  moreover assume "n < 16"
  ultimately show ?thesis by (auto simp: list_all_iff)
qed

lemma sample_hex_roundtrip: "sample_hex_decode (sample_hex_encode bs) = Some bs"
proof (induction bs)
  case (Cons b bs)
  have n: "unat b < 256" using unsigned_less[of b, where 'a = nat] by simp
  have b: "word_of_nat (16 * (unat b div 16) + unat b mod 16) = b"
    by (simp only: mult_div_mod_eq) simp
  show ?case using Cons n b
    by (simp add: sample_hex_encode_def nibble_hex_digit del: of_nat_add of_nat_mult)
qed (simp add: sample_hex_encode_def)

lemma sample_hex_ok [wf_intros]: "hex_codec_ok sample_hex_decode sample_hex_encode"
proof -
  have "CHR ''x'' \<notin> set hex_digits" by (simp add: hex_digits_def)
  then have "hex_digits ! n \<noteq> CHR ''x''" if "n < 16" for n
    using that nth_mem[of n hex_digits] by (auto simp: hex_digits_def)
  moreover have "unat (b :: byte) div 16 < 16" "unat b mod 16 < 16" for b
    using unsigned_less[of b, where 'a = nat] by auto
  ultimately have "\<forall>b. hex_digits ! (unat (b :: byte) div 16) \<noteq> CHR ''x''
                      \<and> hex_digits ! (unat b mod 16) \<noteq> CHR ''x''" by blast
  then have "CHR ''x'' \<notin> set (sample_hex_encode bs)" for bs
    by (force simp: sample_hex_encode_def)
  then show ?thesis by (simp add: hex_codec_ok_def sample_hex_roundtrip)
qed

end
