(* ===== verification/TreeService.thy ===== *)
theory TreeService
  imports Merkle Errors Schema Codec
begin

text \<open>
  \<open>crates/attesta-api/src/routes/tree.rs\<close> with the \<open>PoolTree\<close> of \<open>state.rs\<close>: the per-pool
  cache of commitment trees, its top-up from the \<open>commitments\<close> table, the persisted root
  history, and the two endpoints that serve paths and roots.

  The hex codec (crate \<open>hex\<close>) is a pair of parameters.  The state of a handler is the
  database and the map of cached trees; \<open>None\<close> as the result of a handler is a panic.  Each
  handler holds the lock of the map from its first access to it, so no two of them interleave;
  \<open>System\<close> runs their statements between those of the other programs.
\<close>

section \<open>The code\<close>

record pool_tree =
  pt_tree :: merkle_tree
  index_by_commitment :: "node \<rightharpoonup> nat"
  anchored_ledger :: int

type_synonym trees = "string \<rightharpoonup> pool_tree"
type_synonym leaf = "int \<times> byte list \<times> int"     \<comment> \<open>leaf_index, commitment, ledger\<close>
type_synonym root_entry = "int \<times> byte list \<times> int"  \<comment> \<open>leaf_count, root, ledger\<close>

definition pool_tree_new :: "tree_hasher \<Rightarrow> pool_tree" where
  "pool_tree_new h = \<lparr>pt_tree = new_tree h, index_by_commitment = Map.empty, anchored_ledger = 0\<rparr>"

definition leaf_query :: "db \<Rightarrow> string \<Rightarrow> int \<Rightarrow> leaf list" where
  "leaf_query d pool from =
     map (\<lambda>r. (c_leaf_index r, c_commitment r, c_ledger r))
       (select_by c_leaf_index (\<lambda>r. c_pool r = pool \<and> c_leaf_index r \<ge> from) (commitments d))"

text \<open>
  The loop over the fetched rows.  The result holds the error of the early return, if any,
  the pool tree with every leaf appended so far, and the accumulated root history.
\<close>

fun top_up :: "leaf list \<Rightarrow> pool_tree \<Rightarrow> root_entry list
               \<Rightarrow> (api_error option \<times> pool_tree \<times> root_entry list) option" where
  "top_up [] pt new_roots = Some (None, pt, new_roots)"
| "top_up ((leaf_index, bytes, ledger) # rows) pt new_roots =
     (if leaf_index \<noteq> int (tree_len (pt_tree pt)) then Some (None, pt, new_roots)
      else if length bytes \<noteq> 32
      then Some (Some (bad_request ''corrupt commitment in index''), pt, new_roots)
      else do {
        (t, idx) \<leftarrow> append_leaf (pt_tree pt) bytes;
        top_up rows
          \<lparr>pt_tree = t, index_by_commitment = (index_by_commitment pt)(bytes \<mapsto> idx),
           anchored_ledger = max (anchored_ledger pt) ledger\<rparr>
          (new_roots @ [(int (tree_len t), tree_root t, ledger)])
      })"

definition same_root_slot :: "tree_root_row \<Rightarrow> tree_root_row \<Rightarrow> bool" where
  "same_root_slot r r' \<longleftrightarrow> r_pool r = r_pool r' \<and> r_leaf_count r = r_leaf_count r'"

definition root_row :: "string \<Rightarrow> root_entry \<Rightarrow> tree_root_row" where
  "root_row pool e = (case e of (n, root, ledger) \<Rightarrow>
     \<lparr>r_pool = pool, r_leaf_count = n, r_root = root, r_ledger = ledger\<rparr>)"

text \<open>\<open>unzip3\<close> makes the arrays that the statement binds; \<open>UNNEST\<close> lines them up again.\<close>

primrec unzip3 :: "('a \<times> 'b \<times> 'c) list \<Rightarrow> 'a list \<times> 'b list \<times> 'c list" where
  "unzip3 [] = ([], [], [])"
| "unzip3 (t # v) = (case t of (x, y, z) \<Rightarrow> (case unzip3 v of (a, b, c) \<Rightarrow> (x # a, y # b, z # c)))"

definition unnest3 :: "'a list \<times> 'b list \<times> 'c list \<Rightarrow> ('a \<times> 'b \<times> 'c) list" where
  "unnest3 arrays = (case arrays of (a, b, c) \<Rightarrow> zip a (zip b c))"

lemma unnest3_unzip3 [simp]: "unnest3 (unzip3 v) = v"
  by (induction v) (auto simp: unnest3_def split: prod.splits)

lemma unnest3_empty [simp]: "unnest3 ([], [], []) = []"
  by (simp add: unnest3_def)

definition insert_roots :: "string \<Rightarrow> root_entry list \<Rightarrow> db \<Rightarrow> db" where
  "insert_roots pool es d =
     d\<lparr>tree_roots := fold (\<lambda>e. insert_new same_root_slot (root_row pool e)) es (tree_roots d)\<rparr>"

text \<open>
  \<open>sync_pool_tree\<close> is its SELECT with the top-up, which leaves the pool tree and the rows to
  persist, and its INSERT.  The lock keeps other tree requests out between the two, but not the
  indexer.
\<close>

definition sync_select ::
  "tree_hasher \<Rightarrow> db_call \<Rightarrow> string \<Rightarrow> db \<Rightarrow> trees
   \<Rightarrow> (trees \<times> (api_error + pool_tree \<times> root_entry list)) option" where
  "sync_select h select_call pool d trees =
     (let pt = (case trees pool of Some pt \<Rightarrow> pt | None \<Rightarrow> pool_tree_new h)
      in case select_call of
           Some e \<Rightarrow> Some (trees(pool \<mapsto> pt), Inl (of_sqlx e))
         | None \<Rightarrow> do {
             (err, pt', new_roots) \<leftarrow> top_up (leaf_query d pool (int (tree_len (pt_tree pt)))) pt [];
             Some (trees(pool \<mapsto> pt'), case err of Some e \<Rightarrow> Inl e | None \<Rightarrow> Inr (pt', new_roots))
           })"

definition sync_insert ::
  "db_call \<Rightarrow> string \<Rightarrow> pool_tree \<times> root_entry list \<Rightarrow> db \<Rightarrow> db \<times> (api_error + pool_tree)" where
  "sync_insert insert_call pool synced d =
     (case synced of (pt, new_roots) \<Rightarrow>
        (case (if new_roots = [] then None else insert_call) of
           Some e \<Rightarrow> (d, Inl (of_sqlx e))
         | None \<Rightarrow> (insert_roots pool (unnest3 (unzip3 new_roots)) d,
                    if tree_is_empty (pt_tree pt) then Inl (not_found (''unknown or empty pool: '' @ pool))
                    else Inr pt)))"

definition sync_pool_tree ::
  "tree_hasher \<Rightarrow> db_call \<Rightarrow> db_call \<Rightarrow> string \<Rightarrow> db \<Rightarrow> trees
   \<Rightarrow> (db \<times> trees \<times> (api_error + pool_tree)) option" where
  "sync_pool_tree h select_call insert_call pool d trees =
     do {
       (trees', res) \<leftarrow> sync_select h select_call pool d trees;
       (case res of
          Inl e \<Rightarrow> Some (d, trees', Inl e)
        | Inr synced \<Rightarrow> (case sync_insert insert_call pool synced d of (d', r) \<Rightarrow> Some (d', trees', r)))
     }"

lemmas sync_defs = sync_pool_tree_def sync_select_def sync_insert_def

definition parse_node :: "(string \<Rightarrow> byte list option) \<Rightarrow> string \<Rightarrow> api_error + node" where
  "parse_node hex_decode s =
     (case hex_decode (trim_0x s) of
        None \<Rightarrow> Inl (bad_request ''commitment must be 0x-hex'')
      | Some bytes \<Rightarrow>
          if length bytes \<noteq> 32 then Inl (bad_request ''commitment must be 32 bytes'')
          else Inr bytes)"

definition hex0x :: "(byte list \<Rightarrow> string) \<Rightarrow> node \<Rightarrow> string" where
  "hex0x hex_encode n = ''0x'' @ hex_encode n"

record path_element_json =
  pj_sibling :: string
  pj_sibling_on_right :: bool

record path_response =
  pr_pool :: string
  pr_leaf_index :: int
  pr_root :: string
  pr_leaf_count :: int
  pr_anchored_ledger :: int
  pr_path :: "path_element_json list"

definition get_path ::
  "(string \<Rightarrow> byte list option) \<Rightarrow> (byte list \<Rightarrow> string) \<Rightarrow> tree_hasher \<Rightarrow> db_call \<Rightarrow> db_call
   \<Rightarrow> string \<Rightarrow> string \<Rightarrow> db \<Rightarrow> trees \<Rightarrow> (db \<times> trees \<times> (api_error + path_response)) option" where
  "get_path hex_decode hex_encode h select_call insert_call pool q d trees =
     (case parse_node hex_decode q of
        Inl e \<Rightarrow> Some (d, trees, Inl e)
      | Inr commitment \<Rightarrow> do {
          (d', trees', res) \<leftarrow> sync_pool_tree h select_call insert_call pool d trees;
          (case res of
             Inl e \<Rightarrow> Some (d', trees', Inl e)
           | Inr pt \<Rightarrow>
               (case index_by_commitment pt commitment of
                  None \<Rightarrow> Some (d', trees', Inl (not_found ''commitment not found in tree''))
                | Some leaf_index \<Rightarrow> do {
                    path \<leftarrow> tree_path (pt_tree pt) leaf_index;
                    (case path of
                       None \<Rightarrow> Some (d', trees', Inl (not_found ''commitment not found in tree''))
                     | Some els \<Rightarrow> Some (d', trees', Inr
                         \<lparr>pr_pool = pool, pr_leaf_index = int leaf_index,
                          pr_root = hex0x hex_encode (tree_root (pt_tree pt)),
                          pr_leaf_count = int (tree_len (pt_tree pt)),
                          pr_anchored_ledger = anchored_ledger pt,
                          pr_path = map (\<lambda>el. \<lparr>pj_sibling = hex0x hex_encode (sibling el),
                                               pj_sibling_on_right = sibling_on_right el\<rparr>) els\<rparr>)) }))
        })"

record root_query =
  at_ledger :: "int option"
  at_leaf_count :: "int option"

record root_response =
  rr_pool :: string
  rr_root :: string
  rr_leaf_count :: int
  rr_anchored_ledger :: int

definition path_response_json :: "path_response \<Rightarrow> json" where
  "path_response_json r = JObj
     [(''pool'', JStr (pr_pool r)), (''leaf_index'', JInt (pr_leaf_index r)), (''root'', JStr (pr_root r)),
      (''leaf_count'', JInt (pr_leaf_count r)), (''anchored_ledger'', JInt (pr_anchored_ledger r)),
      (''path'', JArr (map (\<lambda>el. JObj [(''sibling'', JStr (pj_sibling el)), (''sibling_on_right'', JBool (pj_sibling_on_right el))])
        (pr_path r)))]"

definition root_response_json :: "root_response \<Rightarrow> json" where
  "root_response_json r = JObj
     [(''pool'', JStr (rr_pool r)), (''root'', JStr (rr_root r)),
      (''leaf_count'', JInt (rr_leaf_count r)), (''anchored_ledger'', JInt (rr_anchored_ledger r))]"

text \<open>\<open>ORDER BY leaf_count DESC LIMIT 1\<close>.\<close>

definition newest_root :: "(tree_root_row \<Rightarrow> bool) \<Rightarrow> tree_root_row list \<Rightarrow> tree_root_row option" where
  "newest_root P rows =
     (case rev (select_by r_leaf_count P rows) of [] \<Rightarrow> None | r # _ \<Rightarrow> Some r)"

definition history_lookup :: "string \<Rightarrow> root_query \<Rightarrow> db \<Rightarrow> tree_root_row option" where
  "history_lookup pool q d =
     (case at_ledger q of
        Some l \<Rightarrow> newest_root (\<lambda>r. r_pool r = pool \<and> r_ledger r \<le> l) (tree_roots d)
      | None \<Rightarrow>
          newest_root (\<lambda>r. r_pool r = pool \<and>
            r_leaf_count r \<le> (case at_leaf_count q of Some n \<Rightarrow> n | None \<Rightarrow> 0)) (tree_roots d))"

definition get_root ::
  "(byte list \<Rightarrow> string) \<Rightarrow> tree_hasher \<Rightarrow> db_call \<Rightarrow> db_call \<Rightarrow> db_call
   \<Rightarrow> string \<Rightarrow> root_query \<Rightarrow> db \<Rightarrow> trees \<Rightarrow> (db \<times> trees \<times> (api_error + root_response)) option" where
  "get_root hex_encode h select_call insert_call history_call pool q d trees =
     (if at_ledger q \<noteq> None \<and> at_leaf_count q \<noteq> None
      then Some (d, trees, Inl (bad_request ''at_ledger and at_leaf_count are mutually exclusive''))
      else do {
        (d', trees', res) \<leftarrow> sync_pool_tree h select_call insert_call pool d trees;
        (case res of
           Inl e \<Rightarrow> Some (d', trees', Inl e)
         | Inr pt \<Rightarrow>
             if at_ledger q = None \<and> at_leaf_count q = None
             then Some (d', trees', Inr
                    \<lparr>rr_pool = pool, rr_root = hex0x hex_encode (tree_root (pt_tree pt)),
                     rr_leaf_count = int (tree_len (pt_tree pt)),
                     rr_anchored_ledger = anchored_ledger pt\<rparr>)
             else (case history_call of
                     Some e \<Rightarrow> Some (d', trees', Inl (of_sqlx e))
                   | None \<Rightarrow>
                       (case history_lookup pool q d' of
                          None \<Rightarrow> Some (d', trees', Inl (not_found ''no root recorded at or before that point''))
                        | Some r \<Rightarrow>
                            if length (r_root r) \<noteq> 32
                            then Some (d', trees', Inl (bad_request ''corrupt root in history''))
                            else Some (d', trees', Inr
                                   \<lparr>rr_pool = pool, rr_root = hex0x hex_encode (r_root r),
                                    rr_leaf_count = r_leaf_count r,
                                    rr_anchored_ledger = r_ledger r\<rparr>))))
      })"

section \<open>The mirror: what the cached tree should hold\<close>

text \<open>
  The longest run of well-formed leaves with indexes \<open>k, k + 1, \<dots>\<close> at the head of a list of
  rows.  The \<open>mirror\<close> of a pool is that run over all its rows, from index 0.
\<close>

fun clean_prefix :: "nat \<Rightarrow> leaf list \<Rightarrow> leaf list" where
  "clean_prefix k [] = []"
| "clean_prefix k ((i, b, l) # rows) =
     (if i = int k \<and> length b = 32 then (i, b, l) # clean_prefix (Suc k) rows else [])"

definition mirror :: "db \<Rightarrow> string \<Rightarrow> leaf list" where
  "mirror d pool = clean_prefix 0 (leaf_query d pool 0)"

abbreviation leaf_nodes :: "leaf list \<Rightarrow> node list" where
  "leaf_nodes rows \<equiv> map (\<lambda>(i, b, l). b) rows"

definition leaf_ledger :: "leaf \<Rightarrow> int" where
  "leaf_ledger r = snd (snd r)"

text \<open>The row that follows the run is the next leaf, but not 32 bytes long.\<close>

fun stops_corrupt :: "nat \<Rightarrow> leaf list \<Rightarrow> bool" where
  "stops_corrupt k [] = False"
| "stops_corrupt k ((i, b, l) # rows) =
     (i = int k \<and> (length b \<noteq> 32 \<or> stops_corrupt (Suc k) rows))"

definition index_ok :: "(node \<rightharpoonup> nat) \<Rightarrow> node list \<Rightarrow> bool" where
  "index_ok m ls \<longleftrightarrow>
     (\<forall>c. case m c of None \<Rightarrow> c \<notin> set ls | Some i \<Rightarrow> i < length ls \<and> ls ! i = c)"

text \<open>A pool tree that holds exactly the given rows.\<close>

definition pool_tree_ok :: "tree_hasher \<Rightarrow> leaf list \<Rightarrow> pool_tree \<Rightarrow> bool" where
  "pool_tree_ok h rows pt \<longleftrightarrow>
     tree_repr (pt_tree pt) (leaf_nodes rows) \<and> hasher (pt_tree pt) = h
     \<and> index_ok (index_by_commitment pt) (leaf_nodes rows)
     \<and> anchored_ledger pt = fold max (map leaf_ledger rows) 0"

text \<open>The history entry of the append that made the tree \<open>n\<close> leaves long.\<close>

definition history_entry :: "tree_hasher \<Rightarrow> leaf list \<Rightarrow> nat \<Rightarrow> root_entry" where
  "history_entry h rows n =
     (int n, node_at h (leaf_nodes (take n rows)) TREE_DEPTH 0, leaf_ledger (rows ! (n - 1)))"

text \<open>The entries of all appends after the first \<open>k\<close>.\<close>

definition history :: "tree_hasher \<Rightarrow> leaf list \<Rightarrow> nat \<Rightarrow> root_entry list" where
  "history h rows k = map (history_entry h rows) [Suc k..<Suc (length rows)]"

lemma history_Cons:
  "k < length rows \<Longrightarrow> history h rows k = history_entry h rows (Suc k) # history h rows (Suc k)"
  by (simp add: history_def upt_conv_Cons del: upt_Suc)

lemma history_all [simp]: "length rows \<le> k \<Longrightarrow> history h rows k = []"
  by (simp add: history_def)

lemma pool_tree_ok_new [wf_intros]: "pool_tree_ok h [] (pool_tree_new h)"
  by (simp add: pool_tree_ok_def pool_tree_new_def tree_repr_new index_ok_def)
     (simp add: new_tree_def)

lemma index_ok_snoc: "index_ok m ls \<Longrightarrow> index_ok (m(c \<mapsto> length ls)) (ls @ [c])"
  unfolding index_ok_def by (fastforce simp: nth_append split: option.splits)

lemma pool_tree_ok_len: "pool_tree_ok h rows pt \<Longrightarrow> tree_len (pt_tree pt) = length rows"
  by (auto simp: pool_tree_ok_def dest: tree_len_repr)

lemma pool_tree_ok_append:
  assumes "pool_tree_ok h rows pt"
  obtains t where "append_leaf (pt_tree pt) b = Some (t, length rows)"
    "tree_len t = Suc (length rows)" "tree_root t = node_at h (leaf_nodes (rows @ [(i, b, l)])) TREE_DEPTH 0"
    "pool_tree_ok h (rows @ [(i, b, l)])
       \<lparr>pt_tree = t, index_by_commitment = (index_by_commitment pt)(b \<mapsto> length rows),
        anchored_ledger = max (anchored_ledger pt) l\<rparr>"
proof -
  have rep: "tree_repr (pt_tree pt) (leaf_nodes rows) \<and> hasher (pt_tree pt) = h"
    and idx: "index_ok (index_by_commitment pt) (leaf_nodes rows)"
    and anc: "anchored_ledger pt = fold max (map leaf_ledger rows) 0"
    using assms by (simp_all add: pool_tree_ok_def)
  from mt.appendE[OF rep, of b] obtain t where
    t: "append_leaf (pt_tree pt) b = Some (t, length (leaf_nodes rows))"
      "tree_repr t (leaf_nodes rows @ [b]) \<and> hasher t = h"
      "tree_len t = Suc (length (leaf_nodes rows))"
      "tree_root t = node_at h (leaf_nodes rows @ [b]) TREE_DEPTH 0" .
  show thesis
    by (rule that[of t])
       (use t anc index_ok_snoc[OF idx, of b] in
         \<open>simp_all add: pool_tree_ok_def leaf_ledger_def max.commute\<close>)
qed

text \<open>The top-up loop appends the clean run and records one history entry for each leaf.\<close>

lemma top_up_correct:
  assumes "pool_tree_ok h done pt"
  shows "\<exists>pt'. top_up rows pt es
           = Some (if stops_corrupt (length done) rows
                   then Some (bad_request ''corrupt commitment in index'') else None, pt',
                   es @ history h (done @ clean_prefix (length done) rows) (length done))
         \<and> pool_tree_ok h (done @ clean_prefix (length done) rows) pt'"
  using assms
proof (induction rows pt es arbitrary: "done" rule: top_up.induct)
  case (1 pt es)
  then show ?case by simp
next
  case (2 i b l rows pt es)
  have len: "tree_len (pt_tree pt) = length done" using "2.prems" by (rule pool_tree_ok_len)
  consider "i \<noteq> int (length done)" | "i = int (length done)" "length b \<noteq> 32"
    | "i = int (length done)" "length b = 32" by blast
  then show ?case
  proof cases
    case 3
    let ?done = "done @ [(i, b, l)]" and ?n = "Suc (length done)"
    let ?cp = "clean_prefix ?n rows"
    obtain t where t: "append_leaf (pt_tree pt) b = Some (t, length done)" "tree_len t = ?n"
      "tree_root t = node_at h (leaf_nodes ?done) TREE_DEPTH 0"
      "pool_tree_ok h ?done \<lparr>pt_tree = t, index_by_commitment = (index_by_commitment pt)(b \<mapsto> length done),
         anchored_ledger = max (anchored_ledger pt) l\<rparr>"
      using pool_tree_ok_append[OF "2.prems"] by blast
    have e: "(int ?n, tree_root t, l) = history_entry h (?done @ ?cp) ?n"
      by (simp add: history_entry_def t(3) leaf_ledger_def nth_append)
    have hist: "history h (?done @ ?cp) (length done)
                = (int (tree_len t), tree_root t, l) # history h (?done @ ?cp) ?n"
      using e t(2) by (simp add: history_Cons)
    obtain pt' where IH: "top_up rows
             \<lparr>pt_tree = t, index_by_commitment = (index_by_commitment pt)(b \<mapsto> length done),
              anchored_ledger = max (anchored_ledger pt) l\<rparr> (es @ [(int (tree_len t), tree_root t, l)])
        = Some (if stops_corrupt ?n rows then Some (bad_request ''corrupt commitment in index'') else None, pt',
            (es @ [(int (tree_len t), tree_root t, l)]) @ history h (?done @ ?cp) ?n)"
      "pool_tree_ok h (?done @ ?cp) pt'"
      using "2.IH"[of "(t, length done)" t "length done" ?done] t 3 len by auto
    have step: "top_up ((i, b, l) # rows) pt es = top_up rows
             \<lparr>pt_tree = t, index_by_commitment = (index_by_commitment pt)(b \<mapsto> length done),
              anchored_ledger = max (anchored_ledger pt) l\<rparr> (es @ [(int (tree_len t), tree_root t, l)])"
      using t(1) 3 len by simp
    have run: "clean_prefix (length done) ((i, b, l) # rows) = (i, b, l) # ?cp"
      "stops_corrupt (length done) ((i, b, l) # rows) = stops_corrupt ?n rows"
      using 3 by simp_all
    have app: "done @ (i, b, l) # ?cp = ?done @ ?cp" by simp
    have snoc: "(es @ [x]) @ xs = es @ x # xs" for x and xs :: "root_entry list" by simp
    show ?thesis
      by (rule exI[of _ pt']) (simp only: step run app hist IH snoc simp_thms)
  qed (use len "2.prems" in simp_all)
qed

lemma clean_prefix_take:
  "clean_prefix k rows = take (length (clean_prefix k rows)) rows"
  by (induction k rows rule: clean_prefix.induct) auto

lemma clean_prefix_index:
  "j < length (clean_prefix k rows) \<Longrightarrow> fst (clean_prefix k rows ! j) = int (k + j)"
  by (induction k rows arbitrary: j rule: clean_prefix.induct)
     (auto simp: nth_Cons split: nat.splits if_splits)

lemma clean_prefix_bytes: "(i, b, l) \<in> set (clean_prefix k rows) \<Longrightarrow> length b = 32"
  by (induction k rows rule: clean_prefix.induct) (auto split: if_splits)

lemma clean_prefix_drop:
  "n \<le> length (clean_prefix k rows) \<Longrightarrow>
   clean_prefix (k + n) (drop n rows) = drop n (clean_prefix k rows)"
  by (induction k rows arbitrary: n rule: clean_prefix.induct)
     (auto simp: drop_Cons split: nat.splits if_splits)

lemma stops_corrupt_drop:
  "n \<le> length (clean_prefix k rows) \<Longrightarrow> stops_corrupt (k + n) (drop n rows) = stops_corrupt k rows"
  by (induction k rows arbitrary: n rule: clean_prefix.induct)
     (auto simp: drop_Cons split: nat.splits if_splits)

definition unique_leaves :: "db \<Rightarrow> bool" where
  "unique_leaves d \<longleftrightarrow> unique_key (\<lambda>r. (c_pool r, c_leaf_index r)) (commitments d)"

lemma leaf_query_filter:
  "0 \<le> n \<Longrightarrow> leaf_query d pool n = filter (\<lambda>x. n \<le> fst x) (leaf_query d pool 0)"
proof -
  assume "0 \<le> n"
  then have eq: "(\<lambda>r. c_pool r = pool \<and> c_leaf_index r \<ge> n)
             = (\<lambda>r. (c_pool r = pool \<and> c_leaf_index r \<ge> 0) \<and> n \<le> c_leaf_index r)" by auto
  have "select_by c_leaf_index (\<lambda>r. c_pool r = pool \<and> c_leaf_index r \<ge> n) (commitments d)
        = filter (\<lambda>r. n \<le> c_leaf_index r)
            (select_by c_leaf_index (\<lambda>r. c_pool r = pool \<and> c_leaf_index r \<ge> 0) (commitments d))"
    by (simp only: filter_select_by eq)
  then show ?thesis by (simp add: leaf_query_def filter_map o_def)
qed

lemma leaf_query_sorted:
  assumes "unique_leaves d"
  shows "sorted_wrt (<) (map fst (leaf_query d pool n))"
proof -
  let ?P = "\<lambda>r. c_pool r = pool \<and> c_leaf_index r \<ge> n"
  have "inj_on c_leaf_index {r \<in> set (commitments d). ?P r}" "distinct (commitments d)"
    using assms by (auto simp: unique_leaves_def unique_key_def distinct_map inj_on_def)
  then have "distinct (map c_leaf_index (select_by c_leaf_index ?P (commitments d)))"
    by (rule distinct_select_by)
  moreover have "map fst (leaf_query d pool n) = map c_leaf_index (select_by c_leaf_index ?P (commitments d))"
    by (simp add: leaf_query_def o_def)
  ultimately show ?thesis
    using sorted_select_by[of c_leaf_index ?P] by (simp add: strict_sorted_iff)
qed

lemma filter_drop_strict:
  assumes "sorted_wrt (<) (map f xs)" "n \<le> length xs"
    and "\<And>j. j < n \<Longrightarrow> f (xs ! j) < c" "\<And>j. n \<le> j \<Longrightarrow> j < length xs \<Longrightarrow> (c :: int) \<le> f (xs ! j)"
  shows "filter (\<lambda>x. c \<le> f x) xs = drop n xs"
proof -
  have "filter (\<lambda>x. c \<le> f x) (take n xs) = []"
    using assms(2,3) by (force simp: filter_empty_conv in_set_conv_nth)
  moreover have "filter (\<lambda>x. c \<le> f x) (drop n xs) = drop n xs"
    using assms(4) by (intro filter_True) (force simp: in_set_conv_nth)
  ultimately show ?thesis by (metis append_Nil append_take_drop_id filter_append)
qed

lemma leaf_query_drop:
  assumes u: "unique_leaves d" and n: "n \<le> length (mirror d pool)"
  shows "leaf_query d pool (int n) = drop n (leaf_query d pool 0)"
proof -
  let ?q = "leaf_query d pool 0"
  have s: "sorted_wrt (<) (map fst ?q)" by (rule leaf_query_sorted[OF u])
  have m: "mirror d pool = take (length (mirror d pool)) ?q"
    unfolding mirror_def by (rule clean_prefix_take)
  have len: "length (mirror d pool) \<le> length ?q" by (metis m length_take min.cobounded1)
  have idx: "fst (?q ! j) = int j" if "j < length (mirror d pool)" for j
    using clean_prefix_index[of j 0 ?q] that m by (metis mirror_def add_0 nth_take)
  have up: "int n \<le> fst (?q ! j)" if "n \<le> j" "j < length ?q" for j
  proof (cases n)
    case 0
    have "?q ! j \<in> set ?q" using that by simp
    then show ?thesis using 0 by (auto simp: leaf_query_def)
  next
    case (Suc m)
    with n that have "fst (?q ! m) < fst (?q ! j)"
      using s by (auto simp: sorted_wrt_iff_nth_less)
    with Suc n idx[of m] show ?thesis by simp
  qed
  have "filter (\<lambda>x. int n \<le> fst x) ?q = drop n ?q"
  proof (rule filter_drop_strict[OF s])
    show "n \<le> length ?q" using n len by linarith
    show "fst (?q ! j) < int n" if "j < n" for j using that idx[of j] n by simp
  qed (rule up)
  then show ?thesis using leaf_query_filter[of "int n" d pool] by simp
qed

lemma mirror_resume:
  assumes "unique_leaves d" "n \<le> length (mirror d pool)"
  shows "take n (mirror d pool) @ clean_prefix n (leaf_query d pool (int n)) = mirror d pool"
    and "stops_corrupt n (leaf_query d pool (int n)) = stops_corrupt 0 (leaf_query d pool 0)"
proof -
  have n: "n \<le> length (clean_prefix 0 (leaf_query d pool 0))"
    using assms(2) by (simp add: mirror_def)
  have "clean_prefix n (leaf_query d pool (int n)) = drop n (mirror d pool)"
    using clean_prefix_drop[OF n] unfolding leaf_query_drop[OF assms] mirror_def by simp
  then show "take n (mirror d pool) @ clean_prefix n (leaf_query d pool (int n)) = mirror d pool"
    by simp
  show "stops_corrupt n (leaf_query d pool (int n)) = stops_corrupt 0 (leaf_query d pool 0)"
    using stops_corrupt_drop[OF n] unfolding leaf_query_drop[OF assms] by simp
qed

section \<open>The cache invariant and the top-up\<close>

definition cached_len :: "trees \<Rightarrow> string \<Rightarrow> nat" where
  "cached_len trees pool = (case trees pool of None \<Rightarrow> 0 | Some pt \<Rightarrow> tree_len (pt_tree pt))"

definition cache_ok :: "tree_hasher \<Rightarrow> db \<Rightarrow> trees \<Rightarrow> bool" where
  "cache_ok h d trees \<longleftrightarrow>
     (\<forall>pool pt. trees pool = Some pt \<longrightarrow>
        (\<exists>n \<le> length (mirror d pool). pool_tree_ok h (take n (mirror d pool)) pt))"

lemma cache_ok_empty [wf_intros]: "cache_ok h d Map.empty"
  by (simp add: cache_ok_def)

lemma cache_ok_entry:
  assumes "cache_ok h d trees"
  shows "cached_len trees pool \<le> length (mirror d pool) \<and>
    pool_tree_ok h (take (cached_len trees pool) (mirror d pool))
      (case trees pool of Some pt \<Rightarrow> pt | None \<Rightarrow> pool_tree_new h)"
proof (cases "trees pool")
  case None
  then show ?thesis by (simp add: cached_len_def pool_tree_ok_new)
next
  case (Some pt)
  with assms obtain n where "n \<le> length (mirror d pool)" "pool_tree_ok h (take n (mirror d pool)) pt"
    by (auto simp: cache_ok_def)
  with Some show ?thesis by (simp add: cached_len_def pool_tree_ok_len min_absorb2)
qed

lemma cache_ok_update:
  assumes "cache_ok h d trees" "pool_tree_ok h (take n (mirror d pool)) pt" "n \<le> length (mirror d pool)"
  shows "cache_ok h d (trees(pool \<mapsto> pt))"
  using assms by (auto simp: cache_ok_def)

definition corrupt_error :: api_error where
  "corrupt_error = bad_request ''corrupt commitment in index''"

text \<open>The result of a top-up, read off the database and the length of the cached tree.\<close>

definition sync_result ::
  "tree_hasher \<Rightarrow> db_call \<Rightarrow> string \<Rightarrow> nat \<Rightarrow> db \<Rightarrow> pool_tree \<Rightarrow> db \<times> (api_error + pool_tree)" where
  "sync_result h insert_call pool n d pt =
     (if stops_corrupt 0 (leaf_query d pool 0) then (d, Inl corrupt_error)
      else (case (if n < length (mirror d pool) then insert_call else None) of
              Some e \<Rightarrow> (d, Inl (of_sqlx e))
            | None \<Rightarrow> (insert_roots pool (history h (mirror d pool) n) d,
                       if mirror d pool = [] then Inl (not_found (''unknown or empty pool: '' @ pool))
                       else Inr pt)))"

lemma history_eq_Nil: "history h rows n = [] \<longleftrightarrow> length rows \<le> n"
  by (auto simp: history_def)

lemma sync_select_correct:
  assumes "unique_leaves d" "cache_ok h d trees"
  obtains pt where "pool_tree_ok h (mirror d pool) pt"
    "sync_select h None pool d trees
     = Some (trees(pool \<mapsto> pt), if stops_corrupt 0 (leaf_query d pool 0) then Inl corrupt_error
             else Inr (pt, history h (mirror d pool) (cached_len trees pool)))"
proof -
  let ?pt = "case trees pool of Some pt \<Rightarrow> pt | None \<Rightarrow> pool_tree_new h"
  define n where "n = cached_len trees pool"
  have n: "n \<le> length (mirror d pool)" and ok: "pool_tree_ok h (take n (mirror d pool)) ?pt"
    using cache_ok_entry[OF assms(2), of pool] by (simp_all add: n_def)
  have len: "tree_len (pt_tree ?pt) = n" using pool_tree_ok_len[OF ok] n by simp
  have l: "length (take n (mirror d pool)) = n" using n by simp
  from top_up_correct[OF ok, of "leaf_query d pool (int n)" "[]"]
  obtain pt where top: "top_up (leaf_query d pool (int n)) ?pt []
      = Some (if stops_corrupt 0 (leaf_query d pool 0) then Some corrupt_error else None, pt,
              history h (mirror d pool) n)"
    and pt: "pool_tree_ok h (mirror d pool) pt"
    unfolding l mirror_resume[OF assms(1) n] corrupt_error_def by auto
  show thesis
    by (rule that[OF pt]) (simp add: sync_select_def Let_def len top n_def[symmetric])
qed

lemma sync_pool_tree_correct:
  assumes "unique_leaves d" "cache_ok h d trees"
  obtains pt where "pool_tree_ok h (mirror d pool) pt"
    "sync_pool_tree h None insert_call pool d trees
     = (let (d', res) = sync_result h insert_call pool (cached_len trees pool) d pt
        in Some (d', trees(pool \<mapsto> pt), res))"
proof -
  obtain pt where pt: "pool_tree_ok h (mirror d pool) pt"
    and s: "sync_select h None pool d trees
     = Some (trees(pool \<mapsto> pt), if stops_corrupt 0 (leaf_query d pool 0) then Inl corrupt_error
             else Inr (pt, history h (mirror d pool) (cached_len trees pool)))"
    by (rule sync_select_correct[OF assms])
  have "tree_is_empty (pt_tree pt) \<longleftrightarrow> mirror d pool = []"
    using pt by (auto simp: pool_tree_ok_def tree_is_empty_repr)
  then show thesis
    by (intro that[OF pt]) (auto simp: sync_pool_tree_def s sync_insert_def sync_result_def history_eq_Nil split: option.splits)
qed

section \<open>The root history\<close>

definition unique_roots :: "db \<Rightarrow> bool" where
  "unique_roots d \<longleftrightarrow> unique_key (\<lambda>r. (r_pool r, r_leaf_count r)) (tree_roots d)"

text \<open>Every persisted root is the root of the first \<open>n\<close> mirrored leaves, for the row's count \<open>n\<close>.\<close>

definition roots_ok :: "tree_hasher \<Rightarrow> db \<Rightarrow> bool" where
  "roots_ok h d \<longleftrightarrow> (\<forall>r \<in> set (tree_roots d). \<exists>n. 1 \<le> n \<and> n \<le> length (mirror d (r_pool r)) \<and>
     r = root_row (r_pool r) (history_entry h (mirror d (r_pool r)) n))"

definition roots_upto :: "db \<Rightarrow> string \<Rightarrow> nat \<Rightarrow> bool" where
  "roots_upto d pool n \<longleftrightarrow>
     (\<forall>c. 1 \<le> c \<longrightarrow> c \<le> n \<longrightarrow> (\<exists>r \<in> set (tree_roots d). r_pool r = pool \<and> r_leaf_count r = int c))"

definition tree_inv :: "tree_hasher \<Rightarrow> db \<Rightarrow> trees \<Rightarrow> bool" where
  "tree_inv h d trees \<longleftrightarrow> unique_leaves d \<and> unique_roots d \<and> roots_ok h d \<and> cache_ok h d trees"

text \<open>No cached leaf is without its history row.\<close>

definition history_complete :: "db \<Rightarrow> trees \<Rightarrow> bool" where
  "history_complete d trees \<longleftrightarrow> (\<forall>pool. roots_upto d pool (cached_len trees pool))"

lemma root_row_sel [simp]:
  "r_pool (root_row pool e) = pool" "r_leaf_count (root_row pool e) = fst e"
  "r_root (root_row pool e) = fst (snd e)" "r_ledger (root_row pool e) = snd (snd e)"
  by (simp_all add: root_row_def split: prod.splits)

lemma mirror_tree_roots [simp]: "mirror (d\<lparr>tree_roots := x\<rparr>) = mirror d"
  by (simp add: fun_eq_iff mirror_def leaf_query_def)

lemma leaf_query_tree_roots [simp]: "leaf_query (d\<lparr>tree_roots := x\<rparr>) = leaf_query d"
  by (simp add: fun_eq_iff leaf_query_def)

lemma mirror_insert_roots [simp]: "mirror (insert_roots pool es d) = mirror d"
  by (simp add: insert_roots_def)

lemma unique_leaves_insert_roots [simp]: "unique_leaves (insert_roots pool es d) = unique_leaves d"
  by (simp add: insert_roots_def unique_leaves_def)

lemma cache_ok_insert_roots [simp]: "cache_ok h (insert_roots pool es d) trees = cache_ok h d trees"
  by (simp add: cache_ok_def)

lemma fold_insert_new_set:
  "set (fold (\<lambda>e. insert_new clash (f e)) es rows) \<subseteq> set rows \<union> f ` set es"
  "set rows \<subseteq> set (fold (\<lambda>e. insert_new clash (f e)) es rows)"
proof (induction es arbitrary: rows)
  case (Cons e es)
  { case 1 show ?case using Cons.IH(1)[of "insert_new clash (f e) rows"]
      by (auto simp: insert_new_def split: if_splits) }
  { case 2 show ?case using Cons.IH(2)[of "insert_new clash (f e) rows"] insert_new_mono[of rows clash "f e"]
      by auto }
qed simp_all

lemma set_history: "set (history h rows n) = history_entry h rows ` {c. n < c \<and> c \<le> length rows}"
  by (auto simp: history_def less_Suc_eq_le Suc_le_eq simp del: upt_Suc)

lemma unique_roots_insert [wf_intros]:
  "unique_roots d \<Longrightarrow> unique_roots (insert_roots pool es d)"
proof (induction es arbitrary: d)
  case (Cons e es)
  have "unique_roots (d\<lparr>tree_roots := insert_new same_root_slot (root_row pool e) (tree_roots d)\<rparr>)"
    using Cons.prems by (auto simp: unique_roots_def same_root_slot_def intro!: unique_key_insert_new)
  from Cons.IH[OF this] show ?case by (simp add: insert_roots_def)
qed (simp add: insert_roots_def)

text \<open>Rows that may be persisted: entries of the history of the mirrored leaves.\<close>

definition entries_ok :: "tree_hasher \<Rightarrow> db \<Rightarrow> string \<Rightarrow> root_entry list \<Rightarrow> bool" where
  "entries_ok h d pool es \<longleftrightarrow> (\<forall>e \<in> set es. \<exists>n. 1 \<le> n \<and> n \<le> length (mirror d pool) \<and> e = history_entry h (mirror d pool) n)"

lemma entries_ok_history [wf_intros]: "entries_ok h d pool (history h (mirror d pool) n)"
  unfolding entries_ok_def set_history
proof (intro ballI, elim imageE)
  fix e c
  assume "e = history_entry h (mirror d pool) c" "c \<in> {c. n < c \<and> c \<le> length (mirror d pool)}"
  then show "\<exists>n. 1 \<le> n \<and> n \<le> length (mirror d pool) \<and> e = history_entry h (mirror d pool) n"
    by (intro exI[of _ c]) simp
qed

lemma roots_ok_insert [wf_intros]:
  assumes "roots_ok h d" "entries_ok h d pool es"
  shows "roots_ok h (insert_roots pool es d)"
proof -
  have "set (tree_roots (insert_roots pool es d)) \<subseteq> set (tree_roots d) \<union> root_row pool ` set es"
    unfolding insert_roots_def using fold_insert_new_set(1) by simp
  moreover have "\<exists>c. 1 \<le> c \<and> c \<le> length (mirror d (r_pool r))
                 \<and> r = root_row (r_pool r) (history_entry h (mirror d (r_pool r)) c)"
    if "r \<in> root_row pool ` set es" for r
    using that assms(2) by (fastforce simp: entries_ok_def)
  ultimately show ?thesis
    using assms(1) unfolding roots_ok_def mirror_insert_roots by blast
qed

lemma roots_upto_insert:
  assumes "roots_upto d pool n"
  shows "roots_upto (insert_roots pool (history h (mirror d pool) n) d) pool (length (mirror d pool))"
proof -
  have clash: "\<exists>r \<in> set (fold (\<lambda>e. insert_new same_root_slot (root_row pool e)) es rows).
                 r_pool r = pool \<and> r_leaf_count r = fst e" if "e \<in> set es" for e es rows
    using that
  proof (induction es arbitrary: rows)
    case (Cons a es)
    show ?case
    proof (cases "e = a")
      case True
      have "\<exists>r \<in> set (insert_new same_root_slot (root_row pool a) rows). r_pool r = pool \<and> r_leaf_count r = fst e"
        using True by (auto simp: insert_new_def list_ex_iff same_root_slot_def)
      then show ?thesis using fold_insert_new_set(2) by fastforce
    qed (use Cons in auto)
  qed simp
  have "\<exists>r \<in> set (tree_roots (insert_roots pool (history h (mirror d pool) n) d)).
          r_pool r = pool \<and> r_leaf_count r = int c" if "1 \<le> c" "c \<le> length (mirror d pool)" for c
  proof (cases "c \<le> n")
    case True
    with assms that show ?thesis
      using fold_insert_new_set(2) by (fastforce simp: roots_upto_def insert_roots_def)
  next
    case False
    then have "history_entry h (mirror d pool) c \<in> set (history h (mirror d pool) n)"
      using that by (simp add: set_history)
    from clash[OF this] show ?thesis by (simp add: insert_roots_def history_entry_def)
  qed
  then show ?thesis by (simp add: roots_upto_def)
qed

lemma roots_upto_mono:
  "roots_upto d pool n \<Longrightarrow> roots_upto (insert_roots pool' es d) pool n"
  using fold_insert_new_set(2) by (fastforce simp: roots_upto_def insert_roots_def)

section \<open>History lookups\<close>

lemma newest_root_None: "newest_root P rows = None \<longleftrightarrow> (\<forall>r \<in> set rows. \<not> P r)"
proof -
  have "select_by r_leaf_count P rows = [] \<longleftrightarrow> (\<forall>r \<in> set rows. \<not> P r)"
    using set_select_by[of r_leaf_count P rows] by (metis (mono_tags, lifting) Collect_empty_eq set_empty)
  then show ?thesis by (auto simp: newest_root_def split: list.splits)
qed

lemma newest_root_Some:
  assumes "newest_root P rows = Some r"
  shows "r \<in> set rows" "P r" "\<And>r'. r' \<in> set rows \<Longrightarrow> P r' \<Longrightarrow> r_leaf_count r' \<le> r_leaf_count r"
proof -
  from assms obtain rs where rs: "rev (select_by r_leaf_count P rows) = r # rs"
    by (auto simp: newest_root_def split: list.splits)
  then have s: "select_by r_leaf_count P rows = rev rs @ [r]" by (simp add: rev_eq_Cons_iff)
  then have "r \<in> set (select_by r_leaf_count P rows)" by simp
  then show "r \<in> set rows" "P r" by simp_all
  fix r' assume "r' \<in> set rows" "P r'"
  then have "r' \<in> set (rev rs @ [r])" using s set_select_by[of r_leaf_count P rows] by simp
  moreover have "sorted (map r_leaf_count (rev rs @ [r]))" using sorted_select_by s by metis
  ultimately show "r_leaf_count r' \<le> r_leaf_count r" by (auto simp: sorted_append)
qed

lemma roots_okD:
  assumes "roots_ok h d" "r \<in> set (tree_roots d)" "r_pool r = pool"
  obtains n where "1 \<le> n" "n \<le> length (mirror d pool)" "r_leaf_count r = int n"
    "r_root r = node_at h (leaf_nodes (take n (mirror d pool))) TREE_DEPTH 0"
    "r_ledger r = leaf_ledger (mirror d pool ! (n - 1))"
proof -
  from assms obtain n where n: "1 \<le> n" "n \<le> length (mirror d pool)"
    "r = root_row pool (history_entry h (mirror d pool) n)" by (auto simp: roots_ok_def)
  show thesis by (rule that[OF n(1,2)]) (simp_all add: n(3), simp_all add: history_entry_def)
qed

text \<open>
  A lookup over a complete history finds the largest leaf count whose row satisfies the
  condition.
\<close>

lemma newest_root_complete:
  assumes ok: "roots_ok h d" and all: "roots_upto d pool (length (mirror d pool))"
    and P: "\<And>r. P r \<longleftrightarrow> r_pool r = pool \<and> Q (nat (r_leaf_count r)) (r_ledger r)"
    and n: "1 \<le> n" "n \<le> length (mirror d pool)" "Q n (leaf_ledger (mirror d pool ! (n - 1)))"
    and max: "\<And>m. n < m \<Longrightarrow> m \<le> length (mirror d pool) \<Longrightarrow> \<not> Q m (leaf_ledger (mirror d pool ! (m - 1)))"
  shows "\<exists>r. newest_root P (tree_roots d) = Some r \<and> r_leaf_count r = int n
           \<and> r_root r = node_at h (leaf_nodes (take n (mirror d pool))) TREE_DEPTH 0
           \<and> r_ledger r = leaf_ledger (mirror d pool ! (n - 1))"
proof -
  obtain r0 where r0: "r0 \<in> set (tree_roots d)" "r_pool r0 = pool" "r_leaf_count r0 = int n"
    using all n by (auto simp: roots_upto_def)
  with roots_okD[OF ok r0(1,2)] n have "P r0" by (metis P nat_int of_nat_eq_iff)
  then obtain r where r: "newest_root P (tree_roots d) = Some r"
    using newest_root_None[of P] r0(1) by (cases "newest_root P (tree_roots d)") auto
  note s = newest_root_Some[OF r]
  have pool: "r_pool r = pool" using s(2) P by blast
  obtain m where m: "1 \<le> m" "m \<le> length (mirror d pool)" "r_leaf_count r = int m"
    "r_root r = node_at h (leaf_nodes (take m (mirror d pool))) TREE_DEPTH 0"
    "r_ledger r = leaf_ledger (mirror d pool ! (m - 1))"
    by (rule roots_okD[OF ok s(1) pool])
  have "n \<le> m" using s(3)[OF r0(1) \<open>P r0\<close>] r0(3) m(3) by simp
  moreover have "\<not> n < m" using max[of m] m s(2) P by auto
  ultimately show ?thesis using r m by auto
qed

section \<open>Preservation\<close>

lemma sync_result_db:
  "fst (sync_result h ic pool n d pt) = d \<or>
   fst (sync_result h ic pool n d pt) = insert_roots pool (history h (mirror d pool) n) d"
  by (auto simp: sync_result_def split: option.splits)

lemma tree_inv_insert_roots [wf_intros]:
  "tree_inv h d trees \<Longrightarrow> entries_ok h d pool es \<Longrightarrow> tree_inv h (insert_roots pool es d) trees"
  by (simp add: tree_inv_def unique_roots_insert roots_ok_insert)

lemma tree_inv_update:
  assumes "tree_inv h d trees" "pool_tree_ok h (mirror d pool) pt"
  shows "tree_inv h d (trees(pool \<mapsto> pt))"
  using assms cache_ok_update[of h d trees "length (mirror d pool)" pool pt] by (simp add: tree_inv_def)

lemma sync_selectE:
  assumes "tree_inv h d trees"
  obtains trees' res where "sync_select h call pool d trees = Some (trees', res)" "tree_inv h d trees'"
    "\<And>pt es. res = Inr (pt, es) \<Longrightarrow> entries_ok h d pool es"
proof (cases call)
  case (Some e)
  have inv: "tree_inv h d (trees(pool \<mapsto> case trees pool of Some pt \<Rightarrow> pt | None \<Rightarrow> pool_tree_new h))"
    using assms cache_ok_entry[of h d trees pool] by (auto simp: tree_inv_def intro!: cache_ok_update)
  show thesis
    by (rule that[OF _ inv, of "Inl (of_sqlx e)"]) (simp_all add: sync_select_def Some Let_def)
next
  case None
  have u: "unique_leaves d" and c: "cache_ok h d trees" using assms by (simp_all add: tree_inv_def)
  obtain pt where pt: "pool_tree_ok h (mirror d pool) pt"
    and s: "sync_select h None pool d trees
     = Some (trees(pool \<mapsto> pt), if stops_corrupt 0 (leaf_query d pool 0) then Inl corrupt_error
             else Inr (pt, history h (mirror d pool) (cached_len trees pool)))"
    by (rule sync_select_correct[OF u c])
  show thesis
    by (rule that[OF s[folded None] tree_inv_update[OF assms pt]]) (auto simp: entries_ok_history split: if_splits)
qed

text \<open>
  The outcome of a top-up, for all results of its two database calls: no panic, the
  invariant, and the same mirror; on success the returned tree holds the mirror.
\<close>

lemma sync_pool_treeE:
  assumes "tree_inv h d trees"
  obtains d' trees' res where
    "sync_pool_tree h select_call insert_call pool d trees = Some (d', trees', res)"
    "tree_inv h d' trees'" "mirror d' = mirror d" "commitments d' = commitments d"
    "\<And>pt. res = Inr pt \<Longrightarrow> trees' pool = Some pt \<and> pool_tree_ok h (mirror d pool) pt \<and> mirror d pool \<noteq> []"
proof (cases select_call)
  case (Some e)
  have inv: "tree_inv h d (trees(pool \<mapsto> case trees pool of Some pt \<Rightarrow> pt | None \<Rightarrow> pool_tree_new h))"
    using assms cache_ok_entry[of h d trees pool] by (auto simp: tree_inv_def intro!: cache_ok_update)
  show thesis
    by (rule that[OF _ inv, of "Inl (of_sqlx e)"]) (simp_all add: sync_defs Some Let_def)
next
  case None
  have u: "unique_leaves d" and c: "cache_ok h d trees" using assms by (simp_all add: tree_inv_def)
  obtain pt where pt: "pool_tree_ok h (mirror d pool) pt"
    and s: "sync_pool_tree h None insert_call pool d trees
     = (let (d', res) = sync_result h insert_call pool (cached_len trees pool) d pt
        in Some (d', trees(pool \<mapsto> pt), res))"
    by (rule sync_pool_tree_correct[OF u c])
  define r where "r = sync_result h insert_call pool (cached_len trees pool) d pt"
  have inv: "tree_inv h (fst r) (trees(pool \<mapsto> pt))"
    using sync_result_db[of h insert_call pool "cached_len trees pool" d pt] tree_inv_update[OF assms pt]
      tree_inv_insert_roots[OF tree_inv_update[OF assms pt] entries_ok_history] unfolding r_def by metis
  have same: "mirror (fst r) = mirror d \<and> commitments (fst r) = commitments d"
    using sync_result_db[of h insert_call pool "cached_len trees pool" d pt]
    unfolding r_def by (auto simp: insert_roots_def)
  have res: "snd r = Inr pt' \<Longrightarrow> pt' = pt \<and> mirror d pool \<noteq> []" for pt'
    by (auto simp: r_def sync_result_def split: option.splits if_splits)
  show thesis
    by (rule that[OF _ inv, of "snd r"]) (use s same res pt in \<open>auto simp: None r_def[symmetric] split: prod.splits\<close>)
qed

lemma history_complete_sync:
  assumes "tree_inv h d trees" "history_complete d trees"
    and "sync_pool_tree h None None pool d trees = Some (d', trees', Inr pt)"
  shows "history_complete d' trees'"
proof -
  have u: "unique_leaves d" and c: "cache_ok h d trees" using assms(1) by (simp_all add: tree_inv_def)
  obtain pt' where pt': "pool_tree_ok h (mirror d pool) pt'"
    and s: "sync_pool_tree h None None pool d trees
     = (let (d', res) = sync_result h None pool (cached_len trees pool) d pt'
        in Some (d', trees(pool \<mapsto> pt'), res))"
    by (rule sync_pool_tree_correct[OF u c])
  have d': "d' = insert_roots pool (history h (mirror d pool) (cached_len trees pool)) d"
    and t': "trees' = trees(pool \<mapsto> pt')"
    using s assms(3) by (auto simp: sync_result_def split: if_splits)
  have "cached_len trees' pool = length (mirror d pool)"
    using pool_tree_ok_len[OF pt'] by (simp add: t' cached_len_def)
  moreover have "roots_upto d pool (cached_len trees pool)" using assms(2) by (simp add: history_complete_def)
  ultimately have "roots_upto d' pool' (cached_len trees' pool')" for pool'
    using assms(2) roots_upto_insert[of d pool "cached_len trees pool" h]
    by (cases "pool' = pool") (auto simp: d' t' history_complete_def cached_len_def roots_upto_mono)
  then show ?thesis by (simp add: history_complete_def)
qed

lemma get_pathE:
  assumes "tree_inv h d trees"
  obtains d' trees' res where
    "get_path hdec henc h c1 c2 pool q d trees = Some (d', trees', res)"
    "tree_inv h d' trees'" "mirror d' = mirror d" "commitments d' = commitments d"
proof (cases "parse_node hdec q")
  case (Inl e)
  with that[OF _ assms refl refl] show thesis by (simp add: get_path_def)
next
  case (Inr c)
  obtain d' trees' res where s: "sync_pool_tree h c1 c2 pool d trees = Some (d', trees', res)"
    "tree_inv h d' trees'" "mirror d' = mirror d" "commitments d' = commitments d"
    "\<And>pt. res = Inr pt \<Longrightarrow> trees' pool = Some pt \<and> pool_tree_ok h (mirror d pool) pt \<and> mirror d pool \<noteq> []"
    using sync_pool_treeE[OF assms, of c1 c2 pool] by metis
  have "\<exists>r. get_path hdec henc h c1 c2 pool q d trees = Some (d', trees', r)"
  proof (cases res)
    case Inl
    then show ?thesis using s(1) Inr by (simp add: get_path_def)
  next
    case (Inr pt)
    with s(5) have "tree_repr (pt_tree pt) (leaf_nodes (mirror d pool))" by (simp add: pool_tree_ok_def)
    with tree_path_repr[OF this] s(1) Inr \<open>parse_node hdec q = Inr c\<close> show ?thesis
      by (auto simp: get_path_def split: option.splits)
  qed
  with that[OF _ s(2-4)] show thesis by blast
qed

lemma get_rootE:
  assumes "tree_inv h d trees"
  obtains d' trees' res where
    "get_root henc h c1 c2 c3 pool q d trees = Some (d', trees', res)"
    "tree_inv h d' trees'" "mirror d' = mirror d" "commitments d' = commitments d"
proof (cases "at_ledger q \<noteq> None \<and> at_leaf_count q \<noteq> None")
  case True
  with that[OF _ assms refl refl] show thesis by (simp add: get_root_def)
next
  case False
  obtain d' trees' res where s: "sync_pool_tree h c1 c2 pool d trees = Some (d', trees', res)"
    "tree_inv h d' trees'" "mirror d' = mirror d" "commitments d' = commitments d"
    using sync_pool_treeE[OF assms, of c1 c2 pool] by metis
  have "\<exists>r. get_root henc h c1 c2 c3 pool q d trees = Some (d', trees', r)"
    using s(1) False by (auto simp: get_root_def split: sum.splits option.splits)
  with that[OF _ s(2-4)] show thesis by blast
qed

lemma mirror_from_db:
  assumes "i < length (mirror d pool)"
  shows "\<exists>r \<in> set (commitments d). c_pool r = pool \<and> c_leaf_index r = int i
           \<and> mirror d pool ! i = (int i, c_commitment r, c_ledger r)"
proof -
  have idx: "fst (mirror d pool ! i) = int i"
    using clean_prefix_index[of i 0 "leaf_query d pool 0"] assms by (simp add: mirror_def)
  have "mirror d pool ! i \<in> set (leaf_query d pool 0)"
    using assms unfolding mirror_def by (metis clean_prefix_take in_set_takeD nth_mem)
  with idx show ?thesis by (auto simp: leaf_query_def)
qed

lemma mirror_bytes: "(i, b, l) \<in> set (mirror d pool) \<Longrightarrow> length b = 32"
  unfolding mirror_def by (rule clean_prefix_bytes)

lemma mirror_stops_at_gap:
  assumes "\<forall>r \<in> set (commitments d). c_pool r = pool \<longrightarrow> c_leaf_index r \<noteq> int k"
  shows "length (mirror d pool) \<le> k"
  using assms mirror_from_db[of k d pool] by force

text \<open>What the client reads out of a path response.\<close>

fun client_path :: "(string \<Rightarrow> byte list option) \<Rightarrow> path_element_json list \<Rightarrow> path_element list option" where
  "client_path hex_decode [] = Some []"
| "client_path hex_decode (j # js) = do {
     s \<leftarrow> hex_decode (trim_0x (pj_sibling j));
     els \<leftarrow> client_path hex_decode js;
     Some (\<lparr>sibling = s, sibling_on_right = pj_sibling_on_right j\<rparr> # els) }"

lemma client_path_encode:
  assumes "hex_codec_ok hex_decode hex_encode"
  shows "client_path hex_decode (map (\<lambda>el. \<lparr>pj_sibling = hex0x hex_encode (sibling el),
           pj_sibling_on_right = sibling_on_right el\<rparr>) els) = Some els"
  by (induction els) (simp_all add: hex0x_def hex_codec_0x[OF assms, simplified])

lemma index_okD: "index_ok m ls \<Longrightarrow> m c = Some i \<Longrightarrow> i < length ls \<and> ls ! i = c"
  by (auto simp: index_ok_def split: option.splits)

lemma parse_node_32: "parse_node hex_decode q = Inr c \<Longrightarrow> length c = 32"
  by (auto simp: parse_node_def split: option.splits if_splits)

text \<open>A sample database: two leaves of pool \<open>P\<close>, then a gap, then a leaf that must not be served.\<close>

definition sample_commitment :: "int \<Rightarrow> byte \<Rightarrow> int \<Rightarrow> commitment_row" where
  "sample_commitment i b l =
     \<lparr>c_pool = ''P'', c_leaf_index = i, c_commitment = replicate 32 b, c_ledger = l, c_tx_hash = ''tx''\<rparr>"

definition sample_db :: db where
  "sample_db = empty_db\<lparr>commitments :=
     [sample_commitment 1 2 11, sample_commitment 0 1 10, sample_commitment 3 9 12]\<rparr>"

lemma sample_db_query:
  "leaf_query sample_db ''P'' 0
   = [(0, replicate 32 1, 10), (1, replicate 32 2, 11), (3, replicate 32 9, 12)]"
  by (simp add: leaf_query_def select_by_def sample_db_def sample_commitment_def)

lemma sample_db_mirror: "mirror sample_db ''P'' = [(0, replicate 32 1, 10), (1, replicate 32 2, 11)]"
  by (simp add: mirror_def sample_db_query)

lemma sample_db_clean: "\<not> stops_corrupt 0 (leaf_query sample_db ''P'' 0)"
  by (simp add: sample_db_query)

lemma sample_tree_inv: "tree_inv h sample_db Map.empty"
proof -
  have "unique_leaves sample_db"
    by (simp add: unique_leaves_def unique_key_def sample_db_def sample_commitment_def)
  then show ?thesis
    by (simp add: tree_inv_def cache_ok_empty unique_roots_def roots_ok_def)
       (simp add: sample_db_def empty_db_def)
qed

lemma history_complete_empty: "history_complete d Map.empty"
  by (simp add: history_complete_def cached_len_def roots_upto_def)

text \<open>A top-up whose database calls all succeed.\<close>

lemma sync_ok:
  assumes "tree_inv h d trees" "mirror d pool \<noteq> []" "\<not> stops_corrupt 0 (leaf_query d pool 0)"
  obtains pt where "sync_pool_tree h None None pool d trees
      = Some (insert_roots pool (history h (mirror d pool) (cached_len trees pool)) d,
              trees(pool \<mapsto> pt), Inr pt)"
    "pool_tree_ok h (mirror d pool) pt"
proof -
  have u: "unique_leaves d" and c: "cache_ok h d trees" using assms(1) by (simp_all add: tree_inv_def)
  obtain pt where "pool_tree_ok h (mirror d pool) pt"
    "sync_pool_tree h None None pool d trees
     = (let (d', res) = sync_result h None pool (cached_len trees pool) d pt
        in Some (d', trees(pool \<mapsto> pt), res))"
    by (rule sync_pool_tree_correct[OF u c])
  with assms(2,3) that show thesis by (simp add: sync_result_def)
qed

section \<open>Properties\<close>



text \<open>
  The tree endpoints never panic and keep the service invariant (unique leaves and root
  rows, every cached tree a prefix of its pool's mirror with the right index, every persisted
  root the root of the leaves it names), for all requests and all results of their database
  calls; neither changes the \<open>commitments\<close> table.
\<close>

theorem tree_endpoints_keep_invariant:
  assumes "tree_inv h d trees"
  shows "(\<exists>d' trees' res. get_path hdec henc h c1 c2 pool q d trees = Some (d', trees', res)
            \<and> tree_inv h d' trees' \<and> commitments d' = commitments d)
       \<and> (\<exists>d' trees' res. get_root henc h c1 c2 c3 pool rq d trees = Some (d', trees', res)
            \<and> tree_inv h d' trees' \<and> commitments d' = commitments d)"
  by (metis get_pathE[OF assms] get_rootE[OF assms])

theorem tree_endpoints_keep_invariant_witness:
  "\<exists>d' trees' res. get_path sample_hex_decode sample_hex_encode sample_hasher None
      (Some (SqlxOther ''timeout'')) ''P'' ''0x00'' sample_db Map.empty = Some (d', trees', res)
    \<and> tree_inv sample_hasher d' trees' \<and> commitments d' = commitments sample_db"
  using tree_endpoints_keep_invariant[OF sample_tree_inv] by blast

text \<open>
  C12. A path response checks: the client that decodes the response's siblings and root, and
  folds the path over the commitment it asked for, obtains the root of the response; the leaf
  index is below the leaf count and names the database row of that commitment.
\<close>

theorem get_path_verifies:
  assumes "tree_inv h d trees" "hex_codec_ok hex_decode hex_encode"
    and "get_path hex_decode hex_encode h c1 c2 pool q d trees = Some (d', trees', Inr resp)"
    and "pr_leaf_index resp < 2 ^ TREE_DEPTH"
  shows "\<exists>c els root. parse_node hex_decode q = Inr c
           \<and> client_path hex_decode (pr_path resp) = Some els \<and> length els = TREE_DEPTH
           \<and> hex_decode (trim_0x (pr_root resp)) = Some root \<and> fold_path h c els = root
           \<and> pr_leaf_index resp < pr_leaf_count resp
           \<and> (\<exists>r \<in> set (commitments d). c_pool r = pool \<and> c_leaf_index r = pr_leaf_index resp
                \<and> c_commitment r = c)"
proof -
  from assms(3) obtain c where c: "parse_node hex_decode q = Inr c"
    by (auto simp: get_path_def split: sum.splits)
  obtain d1 t1 res where s: "sync_pool_tree h c1 c2 pool d trees = Some (d1, t1, res)"
    "\<And>pt. res = Inr pt \<Longrightarrow> t1 pool = Some pt \<and> pool_tree_ok h (mirror d pool) pt \<and> mirror d pool \<noteq> []"
    using sync_pool_treeE[OF assms(1), of c1 c2 pool] by metis
  with assms(3) c obtain pt where pt: "res = Inr pt" by (cases res) (auto simp: get_path_def)
  let ?ls = "leaf_nodes (mirror d pool)"
  from s(2)[OF pt] have ok: "pool_tree_ok h (mirror d pool) pt" by blast
  then have rep: "tree_repr (pt_tree pt) ?ls" and h: "hasher (pt_tree pt) = h"
    and idx: "index_ok (index_by_commitment pt) ?ls" by (simp_all add: pool_tree_ok_def)
  from assms(3) c s(1) pt obtain i where i: "index_by_commitment pt c = Some i"
    by (auto simp: get_path_def split: option.splits)
  from index_okD[OF idx i] have il: "i < length ?ls" "?ls ! i = c" by simp_all
  let ?els = "spec_path h ?ls i TREE_DEPTH"
  have resp: "resp = \<lparr>pr_pool = pool, pr_leaf_index = int i,
      pr_root = hex0x hex_encode (tree_root (pt_tree pt)), pr_leaf_count = int (length ?ls),
      pr_anchored_ledger = anchored_ledger pt,
      pr_path = map (\<lambda>el. \<lparr>pj_sibling = hex0x hex_encode (sibling el),
                           pj_sibling_on_right = sibling_on_right el\<rparr>) ?els\<rparr>"
    using assms(3) c s(1) pt i il tree_path_repr[OF rep, of i] tree_len_repr[OF rep]
    by (simp add: get_path_def h)
  have i32: "i < 2 ^ TREE_DEPTH" using assms(4) by (simp add: resp)
  have fold: "fold_path h c ?els = tree_root (pt_tree pt)"
    using verify_spec_path[OF rep il(1) i32] il(2) by (simp add: h)
  obtain r where "r \<in> set (commitments d)" "c_pool r = pool" "c_leaf_index r = int i"
    "mirror d pool ! i = (int i, c_commitment r, c_ledger r)"
    using mirror_from_db[of i d pool] il(1) by auto
  moreover from this(4) have "c_commitment r = c" using il by simp
  ultimately show ?thesis
    using c fold il(1) client_path_encode[OF assms(2), of ?els] hex_codec_0x[OF assms(2)]
    by (intro exI[of _ c] exI[of _ ?els] exI[of _ "tree_root (pt_tree pt)"])
       (auto simp: resp hex0x_def spec_path_def)
qed

definition sample_q :: string where
  "sample_q = ''0x'' @ sample_hex_encode (replicate 32 2)"

lemma sample_get_path:
  "\<exists>d' trees' resp. get_path sample_hex_decode sample_hex_encode sample_hasher None None ''P'' sample_q
      sample_db Map.empty = Some (d', trees', Inr resp) \<and> pr_leaf_index resp = 1"
proof -
  obtain pt where s: "sync_pool_tree sample_hasher None None ''P'' sample_db Map.empty
      = Some (insert_roots ''P'' (history sample_hasher (mirror sample_db ''P'') (cached_len Map.empty ''P'')) sample_db,
              [''P'' \<mapsto> pt], Inr pt)" and pt: "pool_tree_ok sample_hasher (mirror sample_db ''P'') pt"
    by (rule sync_ok[OF sample_tree_inv, of "''P''" sample_hasher]) (simp_all add: sample_db_mirror sample_db_clean)
  have q: "parse_node sample_hex_decode sample_q = Inr (replicate 32 2)"
    unfolding sample_q_def parse_node_def hex_codec_0x[OF sample_hex_ok] by simp
  let ?ls = "[replicate 32 1, replicate 32 2] :: node list"
  have rep: "tree_repr (pt_tree pt) ?ls" and idx: "index_ok (index_by_commitment pt) ?ls"
    using pt by (simp_all add: pool_tree_ok_def sample_db_mirror)
  have "index_by_commitment pt (replicate 32 2) = Some 1"
    using idx[unfolded index_ok_def, rule_format, of "replicate 32 2"]
    by (auto simp: less_Suc_eq numeral_2_eq_2 split: option.splits)
  then show ?thesis using q s tree_path_repr[OF rep, of 1] by (simp add: get_path_def)
qed

theorem get_path_verifies_witness:
  "\<exists>d' trees' resp els root. get_path sample_hex_decode sample_hex_encode sample_hasher None None ''P'' sample_q
      sample_db Map.empty = Some (d', trees', Inr resp)
    \<and> client_path sample_hex_decode (pr_path resp) = Some els
    \<and> sample_hex_decode (trim_0x (pr_root resp)) = Some root"
proof -
  obtain d' trees' resp where r: "get_path sample_hex_decode sample_hex_encode sample_hasher None None ''P'' sample_q
      sample_db Map.empty = Some (d', trees', Inr resp)" "pr_leaf_index resp = 1"
    using sample_get_path by blast
  have "pr_leaf_index resp < 2 ^ TREE_DEPTH" using r(2) by (simp add: TREE_DEPTH_def)
  from get_path_verifies[OF sample_tree_inv sample_hex_ok r(1) this] r(1) show ?thesis by blast
qed

text \<open>
  Gaps are never bridged: when the row of leaf index \<open>k\<close> is missing, a successful
  top-up returns a tree of at most \<open>k\<close> leaves, and leaf \<open>i\<close> of it is the database row with
  \<open>leaf_index = i\<close>.
\<close>

theorem sync_stops_at_gap:
  assumes "tree_inv h d trees"
    and "\<forall>r \<in> set (commitments d). c_pool r = pool \<longrightarrow> c_leaf_index r \<noteq> int k"
    and "sync_pool_tree h c1 c2 pool d trees = Some (d', trees', Inr pt)"
  shows "tree_len (pt_tree pt) \<le> k \<and>
    (\<forall>i < tree_len (pt_tree pt). \<exists>r \<in> set (commitments d). c_pool r = pool \<and> c_leaf_index r = int i
       \<and> levels (pt_tree pt) ! 0 ! i = c_commitment r)"
proof -
  from sync_pool_treeE[OF assms(1), of c1 c2 pool] assms(3)
  have ok: "pool_tree_ok h (mirror d pool) pt" by (metis option.inject prod.inject)
  then have l: "tree_len (pt_tree pt) = length (mirror d pool)" "levels (pt_tree pt) ! 0 = leaf_nodes (mirror d pool)"
    by (simp add: pool_tree_ok_len, auto simp: pool_tree_ok_def nth_levels_repr)
  have "\<exists>r \<in> set (commitments d). c_pool r = pool \<and> c_leaf_index r = int i
       \<and> leaf_nodes (mirror d pool) ! i = c_commitment r" if "i < length (mirror d pool)" for i
    using mirror_from_db[OF that] that by (force simp: split_beta)
  with mirror_stops_at_gap[OF assms(2)] show ?thesis by (simp add: l)
qed

theorem sync_stops_at_gap_witness:
  "\<exists>d' trees' pt. sync_pool_tree sample_hasher None None ''P'' sample_db Map.empty = Some (d', trees', Inr pt)
     \<and> tree_len (pt_tree pt) \<le> 2"
proof -
  obtain pt where s: "sync_pool_tree sample_hasher None None ''P'' sample_db Map.empty
      = Some (insert_roots ''P'' (history sample_hasher (mirror sample_db ''P'') (cached_len Map.empty ''P'')) sample_db,
              [''P'' \<mapsto> pt], Inr pt)"
    by (rule sync_ok[OF sample_tree_inv, of "''P''" sample_hasher]) (simp_all add: sample_db_mirror sample_db_clean)
  have "\<forall>r \<in> set (commitments sample_db). c_pool r = ''P'' \<longrightarrow> c_leaf_index r \<noteq> int 2"
    by (simp add: sample_db_def sample_commitment_def)
  from sync_stops_at_gap[OF sample_tree_inv this s] s show ?thesis by blast
qed

lemma sync_ok_mirror:
  assumes "tree_inv h d trees" "sync_pool_tree h None None pool d trees = Some (d', trees', Inr pt)"
  shows "tree_inv h d' trees'" "mirror d' = mirror d" "cached_len trees' pool = length (mirror d pool)"
    "pool_tree_ok h (mirror d pool) pt" "mirror d pool \<noteq> []"
proof -
  from sync_pool_treeE[OF assms(1), of None None pool] assms(2)
  have *: "tree_inv h d' trees' \<and> mirror d' = mirror d \<and> trees' pool = Some pt
    \<and> pool_tree_ok h (mirror d pool) pt \<and> mirror d pool \<noteq> []"
    by (smt (verit, best) option.inject prod.inject)
  then show "tree_inv h d' trees'" "mirror d' = mirror d" "pool_tree_ok h (mirror d pool) pt" "mirror d pool \<noteq> []"
    by simp_all
  then show "cached_len trees' pool = length (mirror d pool)"
    using * pool_tree_ok_len[of h "mirror d pool" pt] by (simp add: cached_len_def)
qed

text \<open>
  A historical query whose condition holds for leaf count \<open>n\<close> and for no larger one answers
  with the root of the first \<open>n\<close> leaves.
\<close>

lemma get_root_history:
  assumes inv: "tree_inv h d trees" "history_complete d trees"
    and ok: "hasher_ok h" "mirror d pool \<noteq> []" "\<not> stops_corrupt 0 (leaf_query d pool 0)"
    and q: "(at_ledger q = None) \<noteq> (at_leaf_count q = None)"
    and P: "\<And>d. history_lookup pool q d = newest_root P (tree_roots d)"
      "\<And>r. P r \<longleftrightarrow> r_pool r = pool \<and> Q (nat (r_leaf_count r)) (r_ledger r)"
    and n: "1 \<le> n" "n \<le> length (mirror d pool)" "Q n (leaf_ledger (mirror d pool ! (n - 1)))"
      "\<And>m. n < m \<Longrightarrow> m \<le> length (mirror d pool) \<Longrightarrow> \<not> Q m (leaf_ledger (mirror d pool ! (m - 1)))"
  shows "\<exists>d' trees'. get_root hex_encode h None None None pool q d trees = Some (d', trees',
           Inr \<lparr>rr_pool = pool,
                rr_root = hex0x hex_encode (naive_root h (leaf_nodes (take n (mirror d pool)))),
                rr_leaf_count = int n,
                rr_anchored_ledger = leaf_ledger (mirror d pool ! (n - 1))\<rparr>)"
proof -
  obtain d' pt where s: "sync_pool_tree h None None pool d trees = Some (d', trees(pool \<mapsto> pt), Inr pt)"
    using sync_ok[OF inv(1) ok(2,3)] by metis
  note m = sync_ok_mirror[OF inv(1) s]
  have "roots_upto d' pool (length (mirror d' pool))"
    using history_complete_sync[OF inv s] m(2,3) by (metis history_complete_def)
  then have all: "roots_upto d' pool (length (mirror d pool))" by (simp add: m(2))
  have rok: "roots_ok h d'" using m(1) by (simp add: tree_inv_def)
  obtain r where r: "newest_root P (tree_roots d') = Some r" "r_leaf_count r = int n"
      "r_root r = node_at h (leaf_nodes (take n (mirror d pool))) TREE_DEPTH 0"
      "r_ledger r = leaf_ledger (mirror d pool ! (n - 1))"
    using newest_root_complete[of h d' pool P Q n, unfolded m(2), OF rok all P(2) n(1,2,3) n(4)] by blast
  have "\<forall>l \<in> set (leaf_nodes (take n (mirror d pool))). length l = 32"
    using mirror_bytes by (fastforce dest: in_set_takeD)
  then have "length (r_root r) = 32" using length_node_at[OF ok(1)] r(3) by simp
  with s r q P(1)[of d'] show ?thesis by (auto simp: get_root_def naive_root_eq)
qed

text \<open>
  With a complete history, \<open>?at_leaf_count=N\<close> answers with the root the tree had at
  \<open>min N len\<close> leaves (the naive root of that prefix), and with that leaf's ledger.
\<close>

theorem get_root_at_leaf_count:
  assumes "tree_inv h d trees" "history_complete d trees" "hasher_ok h"
    and "mirror d pool \<noteq> []" "\<not> stops_corrupt 0 (leaf_query d pool 0)" "1 \<le> N"
  shows "\<exists>d' trees'. let n = min (nat N) (length (mirror d pool)) in
    get_root hex_encode h None None None pool \<lparr>at_ledger = None, at_leaf_count = Some N\<rparr> d trees
      = Some (d', trees', Inr \<lparr>rr_pool = pool,
          rr_root = hex0x hex_encode (naive_root h (leaf_nodes (take n (mirror d pool)))),
          rr_leaf_count = int n, rr_anchored_ledger = leaf_ledger (mirror d pool ! (n - 1))\<rparr>)"
  unfolding Let_def
proof (rule get_root_history[OF assms(1-5),
         where P = "\<lambda>r. r_pool r = pool \<and> r_leaf_count r \<le> N" and Q = "\<lambda>m l. int m \<le> N \<and> m \<le> nat N"])
  fix r :: tree_root_row
  show "(r_pool r = pool \<and> r_leaf_count r \<le> N)
        = (r_pool r = pool \<and> int (nat (r_leaf_count r)) \<le> N \<and> nat (r_leaf_count r) \<le> nat N)"
    using assms(6) by auto
qed (use assms(4,6) in \<open>auto simp: history_lookup_def Suc_le_eq\<close>)


text \<open>Both witnesses query the sample pool, whose leaves are of ledgers 10 and 11.\<close>

lemma sample_hasher_ok: "hasher_ok sample_hasher"
  by (simp add: sample_hasher_def hasher_ok_sha256)

theorem get_root_at_leaf_count_witness:
  "\<exists>d' trees' r. get_root sample_hex_encode sample_hasher None None None ''P''
     \<lparr>at_ledger = None, at_leaf_count = Some 7\<rparr> sample_db Map.empty = Some (d', trees', Inr r)
     \<and> rr_leaf_count r = 2 \<and> rr_anchored_ledger r = 11"
proof -
  have "mirror sample_db ''P'' \<noteq> []" by (simp add: sample_db_mirror)
  from get_root_at_leaf_count[OF sample_tree_inv history_complete_empty sample_hasher_ok this sample_db_clean,
      of 7 sample_hex_encode]
  show ?thesis by (auto simp: sample_db_mirror leaf_ledger_def Let_def)
qed


text \<open>
  History is lost for good when its insert fails: the failed request has already moved the
  leaves into the cached tree, so the next, successful top-up writes nothing, and the database
  never receives the rows although the tree serves the leaves.
\<close>

theorem failed_history_insert_is_never_repaired:
  assumes "tree_inv h d trees" "\<not> stops_corrupt 0 (leaf_query d pool 0)"
    and "cached_len trees pool < length (mirror d pool)"
  shows "\<exists>trees1 pt. sync_pool_tree h None (Some e) pool d trees = Some (d, trees1, Inl (of_sqlx e))
           \<and> sync_pool_tree h None None pool d trees1 = Some (d, trees1, Inr pt)
           \<and> tree_len (pt_tree pt) = length (mirror d pool)"
proof -
  have u: "unique_leaves d" and c: "cache_ok h d trees" using assms(1) by (simp_all add: tree_inv_def)
  obtain pt where pt: "pool_tree_ok h (mirror d pool) pt"
    and s: "sync_pool_tree h None (Some e) pool d trees
     = (let (d', res) = sync_result h (Some e) pool (cached_len trees pool) d pt
        in Some (d', trees(pool \<mapsto> pt), res))"
    by (rule sync_pool_tree_correct[OF u c])
  have s1: "sync_pool_tree h None (Some e) pool d trees = Some (d, trees(pool \<mapsto> pt), Inl (of_sqlx e))"
    using s assms(2,3) by (simp add: sync_result_def)
  have len: "tree_len (pt_tree pt) = length (mirror d pool)" by (rule pool_tree_ok_len[OF pt])
  have "mirror d pool \<noteq> []" using assms(3) by auto
  from pt this have ne: "\<not> tree_is_empty (pt_tree pt)" by (auto simp: pool_tree_ok_def tree_is_empty_repr)
  have "top_up (leaf_query d pool (int (tree_len (pt_tree pt)))) pt [] = Some (None, pt, [])"
    using leaf_query_drop[OF u, of "length (mirror d pool)" pool] assms(2) len
      clean_prefix_drop[of "length (mirror d pool)" 0 "leaf_query d pool 0"]
      stops_corrupt_drop[of "length (mirror d pool)" 0 "leaf_query d pool 0"]
    by (cases "drop (length (mirror d pool)) (leaf_query d pool 0)")
       (auto simp: mirror_def split: if_splits)
  then have "sync_pool_tree h None None pool d (trees(pool \<mapsto> pt)) = Some (d, trees(pool \<mapsto> pt), Inr pt)"
    using ne by (simp add: sync_defs Let_def insert_roots_def)
  with s1 len show ?thesis by blast
qed

theorem failed_history_insert_is_never_repaired_witness:
  "\<exists>trees1 pt. sync_pool_tree sample_hasher None (Some (SqlxOther ''connection lost'')) ''P'' sample_db Map.empty
       = Some (sample_db, trees1, Inl (of_sqlx (SqlxOther ''connection lost'')))
     \<and> sync_pool_tree sample_hasher None None ''P'' sample_db trees1 = Some (sample_db, trees1, Inr pt)
     \<and> tree_len (pt_tree pt) = 2 \<and> tree_roots sample_db = []"
proof -
  have "cached_len Map.empty ''P'' < length (mirror sample_db ''P'')"
    by (simp add: cached_len_def sample_db_mirror)
  moreover have "tree_roots sample_db = []" by (simp add: sample_db_def empty_db_def)
  ultimately show ?thesis
    using failed_history_insert_is_never_repaired[OF sample_tree_inv sample_db_clean, of sample_hasher
        "SqlxOther ''connection lost''"]
    by (simp add: sample_db_mirror numeral_2_eq_2)
qed

end
