(* ===== verification/F64.thy ===== *)
theory F64
  imports Complex_Main "HOL-Library.Log_Nat" RustStd
begin

text \<open>
  \<open>f64\<close> arithmetic for the rate limiter: a double is a rational number, every operation is the
  exact operation followed by \<open>f64_round\<close>, round-to-nearest-even to 53 significant bits (with
  the smallest subnormal as the finest grid; the values at hand are far below overflow).
  The limiter's proofs use only the laws of the locale \<open>rounding\<close>.
\<close>

section \<open>Round to nearest, ties to even\<close>

definition flog2 :: "rat \<Rightarrow> int" where
  "flog2 x = (if 1 \<le> x then int (floorlog 2 (nat \<lfloor>x\<rfloor>)) - 1 else - int (ceillog2 (nat \<lceil>1 / x\<rceil>)))"

definition ulp :: "rat \<Rightarrow> rat" where
  "ulp x = power_int 2 (max (flog2 x - 52) (- 1074))"

definition round_half_even :: "rat \<Rightarrow> int" where
  "round_half_even y =
     (let f = \<lfloor>y\<rfloor>; r = y - of_int f
      in if r < 1 / 2 then f else if 1 / 2 < r then f + 1 else if even f then f else f + 1)"

definition f64_round :: "rat \<Rightarrow> rat" where
  "f64_round x =
     (if x = 0 then 0
      else if x < 0 then - (of_int (round_half_even (- x / ulp (- x))) * ulp (- x))
      else of_int (round_half_even (x / ulp x)) * ulp x)"

section \<open>The laws the limiter needs\<close>

locale rounding =
  fixes fl :: "rat \<Rightarrow> rat"
  assumes mono: "0 \<le> x \<Longrightarrow> x \<le> y \<Longrightarrow> fl x \<le> fl y"
    and nat: "n \<le> 2 ^ 53 \<Longrightarrow> fl (of_nat n) = of_nat n"
    and pow: "n \<le> 1000 \<Longrightarrow> fl (1 / 2 ^ n) = 1 / 2 ^ n"
    and gap: "0 \<le> x \<Longrightarrow> fl x < 1 \<Longrightarrow> fl x \<le> 1 - 1 / 2 ^ 53"
begin

lemma zero [simp]: "fl 0 = 0"
  using nat[of 0] by simp

lemma one [simp]: "fl 1 = 1"
  using nat[of 1] by simp

lemma nonneg: "0 \<le> x \<Longrightarrow> 0 \<le> fl x"
  using mono[of 0 x] by simp

lemma le_nat: "0 \<le> x \<Longrightarrow> x \<le> of_nat n \<Longrightarrow> n \<le> 2 ^ 53 \<Longrightarrow> fl x \<le> of_nat n"
  using mono[of x "of_nat n"] nat[of n] by simp

lemma ge_nat: "of_nat n \<le> x \<Longrightarrow> n \<le> 2 ^ 53 \<Longrightarrow> of_nat n \<le> fl x"
  using mono[of "of_nat n" x] nat[of n] by simp

lemma ge_pow: "1 / 2 ^ n \<le> x \<Longrightarrow> n \<le> 1000 \<Longrightarrow> 1 / 2 ^ n \<le> fl x"
  using mono[of "1 / 2 ^ n" x] pow[of n] by simp

lemma le_one: "0 \<le> x \<Longrightarrow> x \<le> 1 \<Longrightarrow> fl x \<le> 1"
  using mono[of x 1] by simp

end

section \<open>f64_round satisfies them\<close>

lemma flog2_bounds:
  assumes "0 < x"
  shows "power_int 2 (flog2 x) \<le> x" "x < power_int 2 (flog2 x + 1)"
proof -
  have "power_int 2 (flog2 x) \<le> x \<and> x < power_int 2 (flog2 x + 1)"
  proof (cases "1 \<le> x")
    case True
    define n where "n = nat \<lfloor>x\<rfloor>"
    have n: "0 < n" "of_nat n \<le> x" "x < of_nat n + 1"
      using True by (simp_all add: n_def) linarith+
    define k where "k = floorlog 2 n - 1"
    have fl: "flog2 x = int k" using True n(1) floorlog_eq_zero_iff[of 2 n]
      by (simp add: flog2_def n_def[symmetric] k_def of_nat_diff)
    have b: "2 ^ k \<le> n" "n < 2 ^ (k + 1)"
      using floorlog_bounds[of n 2] n(1) floorlog_eq_zero_iff[of 2 n] by (auto simp: k_def)
    have "(2 ^ k :: rat) \<le> of_nat n" using b(1) by (metis of_nat_le_iff of_nat_numeral of_nat_power)
    then have "(2 ^ k :: rat) \<le> x" using n(2) by linarith
    moreover have "(of_nat n + 1 :: rat) \<le> of_nat (2 ^ (k + 1))"
      using b(2) by (metis Suc_eq_plus1 Suc_leI of_nat_Suc of_nat_le_iff add.commute)
    ultimately show ?thesis using n fl by (simp add: power_int_add)
  next
    case False
    define n where "n = nat \<lceil>1 / x\<rceil>"
    have y: "1 < 1 / x" using False assms by simp
    have n: "1 / x \<le> of_nat n" "of_nat n < 1 / x + 1" "1 < n"
      using y by (simp_all add: n_def) linarith+
    define k where "k = ceillog2 n"
    have fl: "flog2 x = - int k" using False by (simp add: flog2_def n_def[symmetric] k_def)
    have k: "n \<le> 2 ^ k" by (simp add: k_def le_two_power_ceillog2)
    have "0 < k" using n(3) k by (cases k) auto
    then have k': "2 ^ (k - 1) < n" using two_power_ceillog2_gt[of n] n(3) by (cases k) (auto simp: k_def)
    have "1 / x \<le> (2 ^ k :: rat)"
      using n(1) k by (metis of_nat_le_iff of_nat_numeral of_nat_power order_trans)
    moreover have "(2 ^ (k - 1) :: rat) + 1 \<le> of_nat n"
      using k' by (metis Suc_leI of_nat_Suc of_nat_le_iff of_nat_numeral of_nat_power add.commute)
    then have "(2 ^ (k - 1) :: rat) < 1 / x" using n(2) by linarith
    ultimately have x: "1 / 2 ^ k \<le> x" "x < 1 / 2 ^ (k - 1)" using assms by (simp_all add: field_simps)
    have p1: "power_int (2 :: rat) (- int k) = 1 / 2 ^ k" by (simp add: power_int_minus inverse_eq_divide)
    have "- int k + 1 = - int (k - 1)" using \<open>0 < k\<close> by simp
    then have p2: "power_int (2 :: rat) (- int k + 1) = 1 / 2 ^ (k - 1)"
      by (simp only: power_int_minus power_int_of_nat inverse_eq_divide)
    show ?thesis unfolding fl p1 p2 using x by blast
  qed
  then show "power_int 2 (flog2 x) \<le> x" "x < power_int 2 (flog2 x + 1)" by blast+
qed

lemma flog2_unique:
  assumes "0 < x" "power_int 2 e \<le> x" "x < power_int 2 (e + 1)"
  shows "flog2 x = e"
proof -
  note b = flog2_bounds[OF assms(1)]
  have "\<not> flog2 x + 1 \<le> e"
    using b(2) assms(2) power_int_increasing[of "flog2 x + 1" e "2 :: rat"] by linarith
  moreover have "\<not> e + 1 \<le> flog2 x"
    using b(1) assms(3) power_int_increasing[of "e + 1" "flog2 x" "2 :: rat"] by linarith
  ultimately show ?thesis by linarith
qed

lemma flog2_mono:
  assumes "0 < x" "x \<le> y"
  shows "flog2 x \<le> flog2 y"
proof (rule ccontr)
  assume "\<not> flog2 x \<le> flog2 y"
  then have "power_int (2 :: rat) (flog2 y + 1) \<le> power_int 2 (flog2 x)"
    by (intro power_int_increasing) auto
  with flog2_bounds(1)[of x] flog2_bounds(2)[of y] assms show False by linarith
qed

lemma ulp_pos [simp]: "0 < ulp x"
  by (simp add: ulp_def)

lemma ulp_mono: "0 < x \<Longrightarrow> x \<le> y \<Longrightarrow> ulp x \<le> ulp y"
  unfolding ulp_def using flog2_mono[of x y] by (intro power_int_increasing) auto

lemma round_half_even_bounds: "\<lfloor>y\<rfloor> \<le> round_half_even y" "round_half_even y \<le> \<lfloor>y\<rfloor> + 1"
  by (auto simp: round_half_even_def Let_def)

lemma round_half_even_mono: "x \<le> y \<Longrightarrow> round_half_even x \<le> round_half_even y"
proof (cases "\<lfloor>x\<rfloor> = \<lfloor>y\<rfloor>")
  case True
  assume "x \<le> y"
  then have "x - of_int \<lfloor>x\<rfloor> \<le> y - of_int \<lfloor>y\<rfloor>" using True by simp
  with True show ?thesis by (auto simp: round_half_even_def Let_def)
next
  case False
  assume "x \<le> y"
  then have "\<lfloor>x\<rfloor> < \<lfloor>y\<rfloor>" using False floor_mono by fastforce
  then show ?thesis using round_half_even_bounds[of x] round_half_even_bounds[of y] by linarith
qed

lemma round_half_even_int [simp]: "round_half_even (of_int m) = m"
  by (simp add: round_half_even_def Let_def)

lemma f64_round_pos: "0 < x \<Longrightarrow> f64_round x = of_int (round_half_even (x / ulp x)) * ulp x"
  by (simp add: f64_round_def)

text \<open>Grid points of the argument's own binade bound and fix the result.\<close>

lemma f64_round_le_grid:
  assumes "0 < x" "x \<le> of_int m * ulp x"
  shows "f64_round x \<le> of_int m * ulp x"
proof -
  have "x / ulp x \<le> of_int m" using assms by (simp add: pos_divide_le_eq)
  from round_half_even_mono[OF this] have "of_int (round_half_even (x / ulp x)) \<le> (of_int m :: rat)" by simp
  with assms(1) show ?thesis by (simp add: f64_round_pos mult_right_mono less_imp_le)
qed

lemma f64_round_ge_grid:
  assumes "0 < x" "of_int m * ulp x \<le> x"
  shows "of_int m * ulp x \<le> f64_round x"
proof -
  have "of_int m \<le> x / ulp x" using assms by (simp add: pos_le_divide_eq)
  from round_half_even_mono[OF this] have "(of_int m :: rat) \<le> of_int (round_half_even (x / ulp x))" by simp
  with assms(1) show ?thesis by (simp add: f64_round_pos mult_right_mono less_imp_le)
qed

lemma f64_round_grid: "0 < x \<Longrightarrow> x = of_int m * ulp x \<Longrightarrow> f64_round x = x"
  using f64_round_le_grid[of x m] f64_round_ge_grid[of x m] by simp

text \<open>A power of two at or above the subnormal grid is a grid point of every binade below it.\<close>

lemma pow_on_grid:
  assumes "flog2 x - 52 \<le> e" "- 1074 \<le> e"
  shows "\<exists>m. power_int 2 e = of_int m * ulp x"
proof -
  let ?g = "max (flog2 x - 52) (- 1074)"
  have "power_int (2 :: rat) e = power_int 2 (e - ?g) * power_int 2 ?g"
    by (simp flip: power_int_add)
  also have "power_int (2 :: rat) (e - ?g) = of_int (2 ^ nat (e - ?g))"
    using assms by (simp add: power_int_def)
  finally show ?thesis unfolding ulp_def by blast
qed

lemma f64_round_power:
  assumes "- 1074 \<le> e"
  shows "f64_round (power_int 2 e) = power_int 2 e"
proof -
  have f: "flog2 (power_int 2 e) = e"
    by (rule flog2_unique) (simp_all add: power_int_add)
  then obtain m where "power_int 2 e = of_int m * ulp (power_int 2 e)"
    using pow_on_grid[of "power_int 2 e" e] assms by auto
  then show ?thesis by (intro f64_round_grid) simp_all
qed

lemma f64_round_nonneg: "0 \<le> x \<Longrightarrow> 0 \<le> f64_round x"
  using f64_round_ge_grid[of x 0] by (cases "x = 0") (simp_all add: f64_round_def)

lemma f64_round_mono:
  assumes "0 \<le> x" "x \<le> y"
  shows "f64_round x \<le> f64_round y"
proof (cases "x = 0")
  case True
  then show ?thesis using f64_round_nonneg[of y] assms by (simp add: f64_round_def)
next
  case False
  with assms have pos: "0 < x" "0 < y" by simp_all
  show ?thesis
  proof (cases "ulp x = ulp y")
    case True
    have "round_half_even (x / ulp x) \<le> round_half_even (y / ulp x)"
      using assms pos by (intro round_half_even_mono divide_right_mono) (simp_all add: less_imp_le)
    then show ?thesis using pos True by (simp add: f64_round_pos)
  next
    case False
    then have m: "max (flog2 x - 52) (- 1074) \<noteq> max (flog2 y - 52) (- 1074)"
      by (auto simp: ulp_def)
    with flog2_mono[OF pos(1) assms(2)] have e: "flog2 x < flog2 y" "- 1022 < flog2 y" by linarith+
    let ?p = "power_int 2 (flog2 y) :: rat"
    have "x \<le> ?p"
      using flog2_bounds(2)[OF pos(1)] power_int_increasing[of "flog2 x + 1" "flog2 y" "2 :: rat"] e(1)
      by linarith
    moreover have "?p \<le> y" by (rule flog2_bounds(1)[OF pos(2)])
    moreover obtain m n where "?p = of_int m * ulp x" "?p = of_int n * ulp y"
      using pow_on_grid[of x "flog2 y"] pow_on_grid[of y "flog2 y"] e by auto
    ultimately show ?thesis
      using f64_round_le_grid[OF pos(1), of m] f64_round_ge_grid[OF pos(2), of n] by simp
  qed
qed

lemma f64_round_nat:
  assumes "n \<le> 2 ^ 53"
  shows "f64_round (of_nat n) = of_nat n"
proof -
  consider "n = 0" | "n = 2 ^ 53" | "0 < n" "n < 2 ^ 53" using assms by linarith
  then show ?thesis
  proof cases
    case 1
    then show ?thesis by (simp add: f64_round_def)
  next
    case 2
    then show ?thesis using f64_round_power[of 53] by simp
  next
    case 3
    have "power_int 2 (flog2 (of_nat n)) < (power_int 2 53 :: rat)"
      using flog2_bounds(1)[of "of_nat n"] 3 by (auto intro: le_less_trans)
    then have "flog2 (of_nat n) < 53"
      using power_int_increasing[of 53 "flog2 (of_nat n)" "2 :: rat"] by (simp, linarith)
    then obtain m where m: "power_int 2 0 = of_int m * ulp (of_nat n)"
      using pow_on_grid[of "of_nat n" 0] by auto
    have "of_nat n = of_int (int n) * (of_int m * ulp (of_nat n))" using m by simp
    then have "of_nat n = of_int (int n * m) * ulp (of_nat n)" by simp
    with 3 show ?thesis using f64_round_grid[of "of_nat n" "int n * m"] by simp
  qed
qed

lemma f64_round_gap:
  assumes "0 \<le> x" "f64_round x < 1"
  shows "f64_round x \<le> 1 - 1 / 2 ^ 53"
proof -
  have x1: "x < 1" using assms f64_round_mono[of 1 x] f64_round_nat[of 1] by (cases "1 \<le> x") auto
  show ?thesis
  proof (cases "x < 1 / 2")
    case True
    then have "f64_round x \<le> f64_round (power_int 2 (-1))"
      using assms(1) by (intro f64_round_mono) (simp_all add: power_int_minus)
    also have "\<dots> = 1 / 2" using f64_round_power[of "- 1"] by (simp add: power_int_minus)
    finally show ?thesis by simp
  next
    case False
    then have "flog2 x = - 1" using x1 by (intro flog2_unique) (simp_all add: power_int_minus)
    then have u: "ulp x = 1 / 2 ^ 53" by (simp add: ulp_def power_int_minus)
    obtain m where m: "f64_round x = of_int m * (1 / 2 ^ 53)"
      using f64_round_pos[of x] False u by (metis less_le_trans not_le zero_less_divide_1_iff zero_less_numeral)
    with assms(2) have "of_int m < (2 ^ 53 :: rat)" by simp
    then have "m < 2 ^ 53" by (metis of_int_less_iff of_int_numeral of_int_power)
    then have "(of_int m :: rat) \<le> of_int (2 ^ 53 - 1)" by (simp only: of_int_le_iff)
    with m show ?thesis by simp
  qed
qed

interpretation f64: rounding f64_round
proof (unfold_locales, goal_cases)
  case (3 n)
  then show ?case using f64_round_power[of "- int n"] by (simp add: power_int_minus inverse_eq_divide)
next
  case (4 x)
  then show ?case by (rule f64_round_gap)
qed (auto intro: f64_round_mono f64_round_nat)

end
