(* ===== verification/RateLimits.thy ===== *)
theory RateLimits
  imports F64 Errors "HOL-Library.Finite_Map"
begin

text \<open>
  \<open>crates/attesta-api/src/limits.rs\<close>: per-IP token buckets with lazy refill, and the
  accounting of SSE connections.  Tokens are doubles (\<open>F64\<close>); the hash map of buckets is a
  finite map, because the clean-up looks at its size.  The SSE slots are modelled twice: as
  the sequential functions, and as the interleaving of their atomic actions by any number of
  threads, because the code checks and increments the global counter in two steps.
\<close>

section \<open>Token buckets\<close>

datatype ip_addr = V4 "32 word" | V6 "128 word"

record bucket =
  tokens :: rat
  last_refill :: instant

record ip_buckets =
  per_sec :: nat      \<comment> \<open>u32\<close>
  burst :: nat        \<comment> \<open>u32\<close>
  buckets :: "(ip_addr, bucket) fmap"

definition new_buckets :: "nat \<Rightarrow> nat \<Rightarrow> ip_buckets" where
  "new_buckets ps bst = \<lparr>per_sec = ps, burst = max bst ps, buckets = fmempty\<rparr>"

definition buckets_enabled :: "ip_buckets \<Rightarrow> bool" where
  "buckets_enabled s \<longleftrightarrow> per_sec s > 0"

text \<open>\<open>Duration::as_secs_f64\<close>.\<close>

definition as_secs_f64 :: "nat \<Rightarrow> rat" where
  "as_secs_f64 d = f64_round (f64_round (of_nat (d div 10 ^ 9)) + f64_round (of_nat (d mod 10 ^ 9) / 10 ^ 9))"

definition refilled :: "nat \<Rightarrow> nat \<Rightarrow> instant \<Rightarrow> bucket \<Rightarrow> rat" where
  "refilled ps bst now b =
     min (f64_round (tokens b + f64_round (as_secs_f64 (duration_since now (last_refill b)) * of_nat ps)))
         (of_nat bst)"

definition cleanup :: "instant \<Rightarrow> ip_buckets \<Rightarrow> (ip_addr, bucket) fmap" where
  "cleanup now s =
     (if fcard (fmdom (buckets s)) > 10000
      then fmfilter (\<lambda>ip. case fmlookup (buckets s) ip of
                            None \<Rightarrow> False
                          | Some b \<Rightarrow> refilled (per_sec s) (burst s) now b < of_nat (burst s)) (buckets s)
      else buckets s)"

text \<open>\<open>Inr ()\<close> is \<open>Ok(())\<close>, \<open>Inl retry\<close> is \<open>Err(retry)\<close>.\<close>

definition bucket_try_acquire :: "ip_addr \<Rightarrow> instant \<Rightarrow> ip_buckets \<Rightarrow> ip_buckets \<times> (nat + unit)" where
  "bucket_try_acquire ip now s =
     (if \<not> buckets_enabled s then (s, Inr ())
      else
        let m = cleanup now s;
            b = (case fmlookup m ip of Some b \<Rightarrow> b | None \<Rightarrow> \<lparr>tokens = of_nat (burst s), last_refill = now\<rparr>);
            t = refilled (per_sec s) (burst s) now b
        in if t \<ge> 1
           then (s\<lparr>buckets := fmupd ip \<lparr>tokens = f64_round (t - 1), last_refill = now\<rparr> m\<rparr>, Inr ())
           else (s\<lparr>buckets := fmupd ip \<lparr>tokens = t, last_refill = now\<rparr> m\<rparr>,
                 Inl (nat \<lceil>f64_round (f64_round (1 - t) / of_nat (per_sec s))\<rceil>)))"

definition too_many_requests_response :: "nat \<Rightarrow> response" where
  "too_many_requests_response retry_after_secs =
     \<lparr>rs_status = TOO_MANY_REQUESTS, rs_headers = [(''retry-after'', show_nat retry_after_secs)],
      rs_body = JsonBody (JObj [(''error'', JStr ''rate limit exceeded'')])\<rparr>"

text \<open>
  \<open>limit_reads\<close> and \<open>limit_writes\<close> are this function over the read and the write buckets; \<open>next\<close>
  is the rest of the middleware stack.
\<close>

definition limit_requests :: "ip_addr \<Rightarrow> instant \<Rightarrow> ('s \<Rightarrow> 's \<times> response) \<Rightarrow> ip_buckets \<Rightarrow> 's
    \<Rightarrow> ip_buckets \<times> 's \<times> response" where
  "limit_requests ip now next bs s =
     (case bucket_try_acquire ip now bs of
        (bs', Inr _) \<Rightarrow> (case next s of (s', r) \<Rightarrow> (bs', s', r))
      | (bs', Inl retry) \<Rightarrow> (bs', s, too_many_requests_response retry))"

section \<open>SSE slots\<close>

record sse_slots =
  per_ip_cap :: nat
  global_cap :: nat
  sse_global :: int            \<comment> \<open>AtomicI64\<close>
  per_ip :: "ip_addr \<rightharpoonup> int"

definition new_slots :: "nat \<Rightarrow> nat \<Rightarrow> sse_slots" where
  "new_slots ipc gc = \<lparr>per_ip_cap = ipc, global_cap = gc, sse_global = 0, per_ip = Map.empty\<rparr>"

text \<open>The atomic actions of \<open>try_acquire\<close> and of \<open>drop\<close>, in program order.\<close>

definition sse_global_full :: "sse_slots \<Rightarrow> bool" where
  "sse_global_full s \<longleftrightarrow> global_cap s > 0 \<and> sse_global s \<ge> int (global_cap s)"

definition sse_count_ip :: "ip_addr \<Rightarrow> sse_slots \<Rightarrow> sse_slots \<times> bool" where
  "sse_count_ip ip s =
     (let count = (case per_ip s ip of Some c \<Rightarrow> c | None \<Rightarrow> 0)
      in if per_ip_cap s > 0 \<and> count \<ge> int (per_ip_cap s)
         then (s\<lparr>per_ip := (per_ip s)(ip \<mapsto> count)\<rparr>, False)
         else (s\<lparr>per_ip := (per_ip s)(ip \<mapsto> count + 1)\<rparr>, True))"

definition sse_add_global :: "sse_slots \<Rightarrow> sse_slots" where
  "sse_add_global s = s\<lparr>sse_global := sse_global s + 1\<rparr>"

definition sse_sub_global :: "sse_slots \<Rightarrow> sse_slots" where
  "sse_sub_global s = s\<lparr>sse_global := sse_global s - 1\<rparr>"

definition sse_uncount_ip :: "ip_addr \<Rightarrow> sse_slots \<Rightarrow> sse_slots" where
  "sse_uncount_ip ip s =
     (case per_ip s ip of
        None \<Rightarrow> s
      | Some c \<Rightarrow> if c - 1 \<le> 0 then s\<lparr>per_ip := (per_ip s)(ip := None)\<rparr>
                  else s\<lparr>per_ip := (per_ip s)(ip \<mapsto> c - 1)\<rparr>)"

text \<open>The functions, run without interference; \<open>True\<close> is \<open>Some(slot)\<close>.\<close>

definition sse_try_acquire :: "ip_addr \<Rightarrow> sse_slots \<Rightarrow> sse_slots \<times> bool" where
  "sse_try_acquire ip s =
     (if sse_global_full s then (s, False)
      else case sse_count_ip ip s of
             (s', False) \<Rightarrow> (s', False)
           | (s', True) \<Rightarrow> (sse_add_global s', True))"

definition sse_active :: "sse_slots \<Rightarrow> int" where
  "sse_active s = sse_global s"

definition sse_drop :: "ip_addr \<Rightarrow> sse_slots \<Rightarrow> sse_slots" where
  "sse_drop ip s = sse_uncount_ip ip (sse_sub_global s)"

text \<open>
  Threads: where each connection attempt stands.  \<open>Checked\<close>: past the load of the global
  counter; \<open>Counted\<close>: its per-IP count is taken; \<open>Held\<close>: owns a slot; \<open>Releasing\<close>: in \<open>drop\<close>,
  past the global decrement.
\<close>

datatype conn = Start ip_addr | Checked ip_addr | Counted ip_addr | Held ip_addr | Releasing ip_addr | Finished

record sse_sys =
  slots :: sse_slots
  conns :: "conn list"

definition sse_init :: "nat \<Rightarrow> nat \<Rightarrow> ip_addr list \<Rightarrow> sse_sys" where
  "sse_init ipc gc ips = \<lparr>slots = new_slots ipc gc, conns = map Start ips\<rparr>"

inductive sse_step :: "sse_sys \<Rightarrow> sse_sys \<Rightarrow> bool" where
  check_full: "i < length (conns y) \<Longrightarrow> conns y ! i = Start ip \<Longrightarrow> sse_global_full (slots y) \<Longrightarrow>
     sse_step y (y\<lparr>conns := (conns y)[i := Finished]\<rparr>)"
| check_ok: "i < length (conns y) \<Longrightarrow> conns y ! i = Start ip \<Longrightarrow> \<not> sse_global_full (slots y) \<Longrightarrow>
     sse_step y (y\<lparr>conns := (conns y)[i := Checked ip]\<rparr>)"
| count_full: "i < length (conns y) \<Longrightarrow> conns y ! i = Checked ip \<Longrightarrow> sse_count_ip ip (slots y) = (s', False) \<Longrightarrow>
     sse_step y \<lparr>slots = s', conns = (conns y)[i := Finished]\<rparr>"
| count_ok: "i < length (conns y) \<Longrightarrow> conns y ! i = Checked ip \<Longrightarrow> sse_count_ip ip (slots y) = (s', True) \<Longrightarrow>
     sse_step y \<lparr>slots = s', conns = (conns y)[i := Counted ip]\<rparr>"
| add_global: "i < length (conns y) \<Longrightarrow> conns y ! i = Counted ip \<Longrightarrow>
     sse_step y \<lparr>slots = sse_add_global (slots y), conns = (conns y)[i := Held ip]\<rparr>"
| sub_global: "i < length (conns y) \<Longrightarrow> conns y ! i = Held ip \<Longrightarrow>
     sse_step y \<lparr>slots = sse_sub_global (slots y), conns = (conns y)[i := Releasing ip]\<rparr>"
| uncount: "i < length (conns y) \<Longrightarrow> conns y ! i = Releasing ip \<Longrightarrow>
     sse_step y \<lparr>slots = sse_uncount_ip ip (slots y), conns = (conns y)[i := Finished]\<rparr>"

section \<open>Token bucket lemmas\<close>

definition bucket_ok :: "nat \<Rightarrow> bucket \<Rightarrow> bool" where
  "bucket_ok bst b \<longleftrightarrow> 0 \<le> tokens b \<and> tokens b \<le> of_nat bst
     \<and> (tokens b < 1 \<longrightarrow> tokens b \<le> 1 - 1 / 2 ^ 53)"

definition buckets_ok :: "ip_buckets \<Rightarrow> bool" where
  "buckets_ok s \<longleftrightarrow> per_sec s \<le> burst s \<and> burst s < 2 ^ 32
     \<and> (\<forall>ip b. fmlookup (buckets s) ip = Some b \<longrightarrow> bucket_ok (burst s) b)"

lemma buckets_ok_new [wf_intros]: "ps < 2 ^ 32 \<Longrightarrow> bst < 2 ^ 32 \<Longrightarrow> buckets_ok (new_buckets ps bst)"
  by (simp add: buckets_ok_def new_buckets_def)

lemma as_secs_f64_nonneg: "0 \<le> as_secs_f64 d"
  unfolding as_secs_f64_def by (intro f64.nonneg add_nonneg_nonneg) simp_all

lemma as_secs_f64_0 [simp]: "as_secs_f64 0 = 0"
  by (simp add: as_secs_f64_def)

lemma as_secs_f64_ge_1: "10 ^ 9 \<le> d \<Longrightarrow> 1 \<le> as_secs_f64 d"
proof -
  assume "10 ^ 9 \<le> d"
  then have "1 \<le> d div 10 ^ 9" by (simp add: le_div_geq)
  then have "(of_nat 1 :: rat) \<le> of_nat (d div 10 ^ 9)" by (simp only: of_nat_le_iff)
  then have "1 \<le> f64_round (of_nat (d div 10 ^ 9))" using f64.ge_nat[of 1] by simp
  moreover have "0 \<le> f64_round (of_nat (d mod 10 ^ 9) / 10 ^ 9)" by (intro f64.nonneg) simp
  ultimately show ?thesis unfolding as_secs_f64_def using f64.ge_nat[of 1] by simp
qed

lemma as_secs_f64_mono:
  assumes "d \<le> d'" "d' div 10 ^ 9 < 2 ^ 53"
  shows "as_secs_f64 d \<le> as_secs_f64 d'"
proof -
  let ?s = "d div 10 ^ 9" and ?s' = "d' div 10 ^ 9"
  let ?f = "f64_round (of_nat (d mod 10 ^ 9) / 10 ^ 9)" and ?f' = "f64_round (of_nat (d' mod 10 ^ 9) / 10 ^ 9)"
  have s: "?s \<le> ?s'" using assms(1) by (rule div_le_mono)
  have e: "f64_round (of_nat ?s) = of_nat ?s" "f64_round (of_nat ?s') = of_nat ?s'"
    using s assms(2) by (simp_all add: f64.nat)
  have f: "0 \<le> ?f" "0 \<le> ?f'" by (simp_all add: f64.nonneg)
  have "of_nat ?s + ?f \<le> of_nat ?s' + ?f'"
  proof (cases "?s = ?s'")
    case True
    then have "d mod 10 ^ 9 \<le> d' mod 10 ^ 9" using assms(1)
      by (metis add_le_cancel_left mult_div_mod_eq)
    then have "?f \<le> ?f'" by (intro f64.mono divide_right_mono) simp_all
    with True show ?thesis by simp
  next
    case False
    have "(of_nat (d mod 10 ^ 9) :: rat) \<le> of_nat (10 ^ 9)" by (simp only: of_nat_le_iff) simp
    then have "?f \<le> 1" by (intro f64.le_one) simp_all
    moreover have "of_nat ?s + 1 \<le> (of_nat ?s' :: rat)"
      using s False by (metis Suc_leI le_neq_implies_less of_nat_Suc of_nat_le_iff add.commute)
    ultimately show ?thesis using f(2) by linarith
  qed
  then show ?thesis unfolding as_secs_f64_def e using f(1) by (intro f64.mono) simp_all
qed

lemma refilled_bounds:
  assumes "0 \<le> tokens b"
  shows "0 \<le> refilled ps bst now b" "refilled ps bst now b \<le> of_nat bst"
  using assms as_secs_f64_nonneg by (simp_all add: refilled_def f64.nonneg)

lemma refilled_gap:
  assumes "0 \<le> tokens b" "1 \<le> bst" "refilled ps bst now b < 1"
  shows "refilled ps bst now b \<le> 1 - 1 / 2 ^ 53"
proof -
  let ?x = "tokens b + f64_round (as_secs_f64 (duration_since now (last_refill b)) * of_nat ps)"
  have "0 \<le> ?x" using assms(1) as_secs_f64_nonneg by (simp add: f64.nonneg)
  moreover have "f64_round ?x < 1"
    using assms(2,3) by (simp add: refilled_def min_def split: if_splits)
  ultimately show ?thesis using f64.gap[of ?x] by (simp add: refilled_def min_def)
qed

lemma refilled_same_instant:
  assumes "n \<le> bst" "bst < 2 ^ 32"
  shows "refilled ps bst now \<lparr>tokens = of_nat n, last_refill = now\<rparr> = of_nat n"
  using assms by (simp add: refilled_def duration_since_def f64.nat)

lemma refilled_mono:
  assumes "0 \<le> tokens b" "now \<le> now'" "nanos now' div 10 ^ 9 < 2 ^ 53"
  shows "refilled ps bst now b \<le> refilled ps bst now' b"
proof -
  have "duration_since now' (last_refill b) div 10 ^ 9 < 2 ^ 53"
    using assms(3) by (simp add: duration_since_def div_le_mono le_less_trans[OF div_le_mono])
  then have "as_secs_f64 (duration_since now (last_refill b)) \<le> as_secs_f64 (duration_since now' (last_refill b))"
    by (intro as_secs_f64_mono duration_since_mono assms(2))
  then have "f64_round (as_secs_f64 (duration_since now (last_refill b)) * of_nat ps)
             \<le> f64_round (as_secs_f64 (duration_since now' (last_refill b)) * of_nat ps)"
    by (intro f64.mono mult_right_mono) (simp_all add: as_secs_f64_nonneg)
  then have "f64_round (tokens b + f64_round (as_secs_f64 (duration_since now (last_refill b)) * of_nat ps))
             \<le> f64_round (tokens b + f64_round (as_secs_f64 (duration_since now' (last_refill b)) * of_nat ps))"
    using assms(1) as_secs_f64_nonneg by (intro f64.mono) (simp_all add: f64.nonneg)
  then show ?thesis by (simp add: refilled_def min.coboundedI1 min_le_iff_disj)
qed

lemma refilled_after_a_second:
  assumes "0 \<le> tokens b" "1 \<le> ps" "1 \<le> bst" "10 ^ 9 \<le> duration_since now (last_refill b)"
  shows "1 \<le> refilled ps bst now b"
proof -
  have "1 * 1 \<le> as_secs_f64 (duration_since now (last_refill b)) * (of_nat ps :: rat)"
    using as_secs_f64_ge_1[OF assms(4)] assms(2) by (intro mult_mono) simp_all
  then have "1 \<le> f64_round (as_secs_f64 (duration_since now (last_refill b)) * of_nat ps)"
    using f64.ge_nat[of 1] by simp
  then have "1 \<le> f64_round (tokens b + f64_round (as_secs_f64 (duration_since now (last_refill b)) * of_nat ps))"
    using assms(1) f64.ge_nat[of 1] by simp
  then show ?thesis using assms(3) by (simp add: refilled_def)
qed

text \<open>The Retry-After value: a refusal always asks for exactly one second.\<close>

lemma retry_is_one:
  assumes "0 \<le> t" "t \<le> 1 - 1 / 2 ^ 53" "1 \<le> ps" "ps < 2 ^ 32"
  shows "nat \<lceil>f64_round (f64_round (1 - t) / of_nat ps)\<rceil> = 1"
proof -
  let ?y = "f64_round (1 - t)"
  have y: "1 / 2 ^ 53 \<le> ?y" "?y \<le> 1"
    using assms(1,2) f64.ge_pow[of 53 "1 - t"] f64.le_one[of "1 - t"] by simp_all
  have ps: "(1 :: rat) \<le> of_nat ps" "(of_nat ps :: rat) \<le> 2 ^ 32"
    using assms(3,4) by (simp, metis less_imp_le of_nat_le_iff of_nat_numeral of_nat_power)
  have "1 / 2 ^ 85 = (1 / 2 ^ 53) / (2 ^ 32 :: rat)" by simp
  also have "\<dots> \<le> ?y / of_nat ps" using y(1) ps by (intro frac_le) simp_all
  finally have "1 / 2 ^ 85 \<le> f64_round (?y / of_nat ps)" using f64.ge_pow[of 85] by simp
  then have "0 < f64_round (?y / of_nat ps)" by (rule less_le_trans[rotated]) simp
  moreover have "?y / of_nat ps \<le> 1" using y ps by (simp add: divide_le_eq)
  then have "f64_round (?y / of_nat ps) \<le> 1" using y ps(1) by (intro f64.le_one) simp_all
  ultimately have "\<lceil>f64_round (?y / of_nat ps)\<rceil> = 1" by (simp add: ceiling_eq_iff)
  then show ?thesis by simp
qed

lemma fmlookup_cleanup:
  "fmlookup (cleanup now s) ip =
     (case fmlookup (buckets s) ip of
        None \<Rightarrow> None
      | Some b \<Rightarrow> if fcard (fmdom (buckets s)) > 10000
                    \<and> \<not> refilled (per_sec s) (burst s) now b < of_nat (burst s)
                  then None else Some b)"
  by (auto simp: cleanup_def split: option.splits)

text \<open>The bucket that a request works on, and what becomes of it.\<close>

definition work_bucket :: "ip_addr \<Rightarrow> instant \<Rightarrow> ip_buckets \<Rightarrow> bucket" where
  "work_bucket ip now s =
     (case fmlookup (cleanup now s) ip of Some b \<Rightarrow> b | None \<Rightarrow> \<lparr>tokens = of_nat (burst s), last_refill = now\<rparr>)"

lemma work_bucket_ok:
  assumes "buckets_ok s" "buckets_enabled s"
  shows "bucket_ok (burst s) (work_bucket ip now s)"
  using assms by (auto simp: work_bucket_def fmlookup_cleanup buckets_ok_def bucket_ok_def buckets_enabled_def
      split: option.splits if_splits)

lemma bucket_try_acquire_eq:
  assumes "buckets_enabled s"
  shows "bucket_try_acquire ip now s =
     (let t = refilled (per_sec s) (burst s) now (work_bucket ip now s) in
      if t \<ge> 1
      then (s\<lparr>buckets := fmupd ip \<lparr>tokens = f64_round (t - 1), last_refill = now\<rparr> (cleanup now s)\<rparr>, Inr ())
      else (s\<lparr>buckets := fmupd ip \<lparr>tokens = t, last_refill = now\<rparr> (cleanup now s)\<rparr>,
            Inl (nat \<lceil>f64_round (f64_round (1 - t) / of_nat (per_sec s))\<rceil>)))"
  using assms by (simp add: bucket_try_acquire_def work_bucket_def Let_def)

lemma bucket_try_acquire_ok:
  fixes ip now
  assumes ok: "buckets_ok s" and en: "buckets_enabled s"
  defines "t \<equiv> refilled (per_sec s) (burst s) now (work_bucket ip now s)"
  shows "buckets_ok (fst (bucket_try_acquire ip now s))"
    "snd (bucket_try_acquire ip now s) = (if t \<ge> 1 then Inr () else Inl 1)"
proof -
  have b: "bucket_ok (burst s) (work_bucket ip now s)" by (rule work_bucket_ok[OF ok en])
  then have t0: "0 \<le> t" "t \<le> of_nat (burst s)" unfolding t_def bucket_ok_def by (simp_all add: refilled_bounds)
  have ps: "1 \<le> per_sec s" "1 \<le> burst s" "per_sec s < 2 ^ 32"
    using ok en by (simp_all add: buckets_ok_def buckets_enabled_def)
  have gap: "t \<le> 1 - 1 / 2 ^ 53" if "t < 1"
    using that b ps(2) refilled_gap unfolding t_def bucket_ok_def by blast
  have old: "bucket_ok (burst s) b'" if "fmlookup (cleanup now s) ip' = Some b'" for ip' b'
    using that ok by (auto simp: fmlookup_cleanup buckets_ok_def split: option.splits if_splits)
  have taken: "bucket_ok (burst s) \<lparr>tokens = f64_round (t - 1), last_refill = now\<rparr>" if "1 \<le> t"
  proof -
    have "t - 1 \<le> of_nat (burst s)" "0 \<le> t - 1" using that t0 by simp_all
    moreover have "burst s \<le> 2 ^ 53" using ok by (simp add: buckets_ok_def)
    ultimately show ?thesis
      using f64.gap[of "t - 1"] f64.le_nat[of "t - 1" "burst s"] f64.nonneg[of "t - 1"]
      by (simp add: bucket_ok_def)
  qed
  have kept: "bucket_ok (burst s) \<lparr>tokens = t, last_refill = now\<rparr>" if "t < 1"
    using that t0 gap by (simp add: bucket_ok_def)
  show "buckets_ok (fst (bucket_try_acquire ip now s))"
    using ok old taken kept unfolding bucket_try_acquire_eq[OF en] t_def[symmetric] Let_def
    by (auto simp: buckets_ok_def)
  show "snd (bucket_try_acquire ip now s) = (if t \<ge> 1 then Inr () else Inl 1)"
    using retry_is_one[OF t0(1) gap ps(1,3)] unfolding bucket_try_acquire_eq[OF en] t_def[symmetric] Let_def
    by auto
qed

section \<open>Runs of requests\<close>

fun acquire_all :: "(ip_addr \<times> instant) list \<Rightarrow> ip_buckets \<Rightarrow> ip_buckets \<times> (nat + unit) list" where
  "acquire_all [] s = (s, [])"
| "acquire_all ((ip, now) # rs) s =
     (case bucket_try_acquire ip now s of (s', r) \<Rightarrow>
        (case acquire_all rs s' of (s'', rest) \<Rightarrow> (s'', r # rest)))"

text \<open>The answers that the requests of one client got.\<close>

definition answers_of :: "ip_addr \<Rightarrow> (ip_addr \<times> instant) list \<Rightarrow> (nat + unit) list \<Rightarrow> (nat + unit) list" where
  "answers_of ip rs as = map snd (filter (\<lambda>p. fst (fst p) = ip) (zip rs as))"

lemma bucket_try_acquire_params [simp]:
  "per_sec (fst (bucket_try_acquire ip now s)) = per_sec s"
  "burst (fst (bucket_try_acquire ip now s)) = burst s"
  "buckets_enabled (fst (bucket_try_acquire ip now s)) = buckets_enabled s"
  by (simp_all add: bucket_try_acquire_def Let_def buckets_enabled_def)

lemma bucket_try_acquire_result:
  "buckets_ok s \<Longrightarrow> snd (bucket_try_acquire ip now s) \<in> {Inr (), Inl 1}"
  using bucket_try_acquire_ok[of s ip now] by (cases "buckets_enabled s") (auto simp: bucket_try_acquire_def)

lemma bucket_try_acquire_keeps:
  "buckets_ok s \<Longrightarrow> buckets_ok (fst (bucket_try_acquire ip now s))"
  using bucket_try_acquire_ok[of s ip now] by (cases "buckets_enabled s") (auto simp: bucket_try_acquire_def)

lemma acquire_all_ok:
  "buckets_ok s \<Longrightarrow> buckets_ok (fst (acquire_all rs s)) \<and> set (snd (acquire_all rs s)) \<subseteq> {Inr (), Inl 1}"
proof (induction rs s rule: acquire_all.induct)
  case (2 ip now rs s)
  then show ?case
    using bucket_try_acquire_result[of s ip now] bucket_try_acquire_keeps[of s ip now]
    by (auto split: prod.splits)
qed simp

text \<open>
  The abstract limiter: one bucket per client for ever, none is ever dropped, and a client
  that was never seen has a full one.
\<close>

type_synonym ideal = "ip_addr \<Rightarrow> bucket"

definition ideal_acquire :: "nat \<Rightarrow> nat \<Rightarrow> ip_addr \<Rightarrow> instant \<Rightarrow> ideal \<Rightarrow> ideal \<times> (nat + unit)" where
  "ideal_acquire ps bst ip now f =
     (let t = refilled ps bst now (f ip) in
      if t \<ge> 1 then (f(ip := \<lparr>tokens = f64_round (t - 1), last_refill = now\<rparr>), Inr ())
      else (f(ip := \<lparr>tokens = t, last_refill = now\<rparr>), Inl 1))"

fun ideal_all :: "nat \<Rightarrow> nat \<Rightarrow> (ip_addr \<times> instant) list \<Rightarrow> ideal \<Rightarrow> (nat + unit) list" where
  "ideal_all ps bst [] f = []"
| "ideal_all ps bst ((ip, now) # rs) f =
     (case ideal_acquire ps bst ip now f of (f', r) \<Rightarrow> r # ideal_all ps bst rs f')"

definition full_from :: "instant \<Rightarrow> ip_buckets \<Rightarrow> bucket \<Rightarrow> bool" where
  "full_from now s b \<longleftrightarrow> 0 \<le> tokens b \<and> (\<forall>now' \<ge> now. nanos now' div 10 ^ 9 < 2 ^ 53 \<longrightarrow>
     refilled (per_sec s) (burst s) now' b = of_nat (burst s))"

definition implements_ideal :: "instant \<Rightarrow> ip_buckets \<Rightarrow> ideal \<Rightarrow> bool" where
  "implements_ideal now s f \<longleftrightarrow> (\<forall>ip. case fmlookup (buckets s) ip of
       Some b \<Rightarrow> f ip = b
     | None \<Rightarrow> full_from now s (f ip))"

lemma full_from_params [simp]: "full_from now (s\<lparr>buckets := m\<rparr>) b = full_from now s b"
  by (simp add: full_from_def)

lemma full_from_now: "full_from now s b \<Longrightarrow> nanos now div 10 ^ 9 < 2 ^ 53 \<Longrightarrow>
  refilled (per_sec s) (burst s) now b = of_nat (burst s)"
  unfolding full_from_def by blast

lemma full_from_later: "full_from now s b \<Longrightarrow> now \<le> now' \<Longrightarrow> full_from now' s b"
  by (auto simp: full_from_def)

lemma implements_ideal_later:
  "implements_ideal now s f \<Longrightarrow> now \<le> now' \<Longrightarrow> implements_ideal now' s f"
  unfolding implements_ideal_def by (metis (no_types, lifting) full_from_later option.case_eq_if)

lemma full_bucket_stays_full:
  assumes "bst < 2 ^ 32"
  shows "refilled ps bst now \<lparr>tokens = of_nat bst, last_refill = past\<rparr> = of_nat bst"
proof -
  have "of_nat bst \<le> of_nat bst + f64_round (as_secs_f64 (duration_since now past) * of_nat ps)"
    by (simp add: f64.nonneg as_secs_f64_nonneg)
  then have "of_nat bst \<le> f64_round (of_nat bst + f64_round (as_secs_f64 (duration_since now past) * of_nat ps))"
    using assms by (intro f64.ge_nat) simp_all
  then show ?thesis by (simp add: refilled_def)
qed

lemma implements_ideal_new:
  "bst < 2 ^ 32 \<Longrightarrow> ps < 2 ^ 32 \<Longrightarrow>
   implements_ideal now (new_buckets ps bst) (\<lambda>_. \<lparr>tokens = of_nat (max bst ps), last_refill = past\<rparr>)"
  by (simp add: implements_ideal_def new_buckets_def full_bucket_stays_full full_from_def del: of_nat_max)

lemma cleanup_implements:
  assumes "buckets_ok s" "implements_ideal now s f"
  shows "implements_ideal now (s\<lparr>buckets := cleanup now s\<rparr>) f"
proof -
  have full: "full_from now s b"
    if b: "fmlookup (buckets s) ip = Some b" "\<not> refilled (per_sec s) (burst s) now b < of_nat (burst s)" for ip b
    unfolding full_from_def
  proof (intro conjI allI impI)
    show t: "0 \<le> tokens b" using assms(1) b(1) by (auto simp: buckets_ok_def bucket_ok_def)
    fix now' assume now': "now \<le> now'" "nanos now' div 10 ^ 9 < 2 ^ 53"
    show "refilled (per_sec s) (burst s) now' b = of_nat (burst s)"
      using refilled_mono[OF t now'] refilled_bounds(2)[OF t, of "per_sec s" "burst s" now'] b(2)
      by (meson le_less_trans less_le_trans linorder_not_less order_antisym)
  qed
  show ?thesis
    unfolding implements_ideal_def
  proof
    fix ip
    show "case fmlookup (buckets (s\<lparr>buckets := cleanup now s\<rparr>)) ip of
        None \<Rightarrow> full_from now (s\<lparr>buckets := cleanup now s\<rparr>) (f ip) | Some b \<Rightarrow> f ip = b"
      using assms(2)[unfolded implements_ideal_def, rule_format, of ip] full[of ip]
      by (auto simp: fmlookup_cleanup split: option.splits if_splits)
  qed
qed

lemma ideal_step:
  assumes ok: "buckets_ok s" and en: "buckets_enabled s" and im: "implements_ideal now s f"
    and now: "nanos now div 10 ^ 9 < 2 ^ 53"
  shows "implements_ideal now (fst (bucket_try_acquire ip now s)) (fst (ideal_acquire (per_sec s) (burst s) ip now f))"
    "snd (bucket_try_acquire ip now s) = snd (ideal_acquire (per_sec s) (burst s) ip now f)"
proof -
  have im': "implements_ideal now (s\<lparr>buckets := cleanup now s\<rparr>) f" by (rule cleanup_implements[OF ok im])
  have full: "refilled (per_sec s) (burst s) now b = of_nat (burst s)" if "full_from now s b" for b
    using that now by (rule full_from_now)
  have same: "refilled (per_sec s) (burst s) now (work_bucket ip now s) = refilled (per_sec s) (burst s) now (f ip)"
    using im'[unfolded implements_ideal_def, rule_format, of ip] ok
    by (auto simp: work_bucket_def full_bucket_stays_full buckets_ok_def full split: option.splits)
  show "implements_ideal now (fst (bucket_try_acquire ip now s)) (fst (ideal_acquire (per_sec s) (burst s) ip now f))"
    using im' unfolding bucket_try_acquire_eq[OF en] ideal_acquire_def Let_def same implements_ideal_def
    by (fastforce split: option.splits)
  show "snd (bucket_try_acquire ip now s) = snd (ideal_acquire (per_sec s) (burst s) ip now f)"
    using bucket_try_acquire_ok(2)[OF ok en, of ip now] unfolding same ideal_acquire_def Let_def by auto
qed

text \<open>Requests whose time stamps come from one monotonic clock.\<close>

definition clocked :: "(ip_addr \<times> instant) list \<Rightarrow> bool" where
  "clocked rs \<longleftrightarrow> sorted (map snd rs) \<and> (\<forall>r \<in> set rs. nanos (snd r) div 10 ^ 9 < 2 ^ 53)"

lemma acquire_all_refines:
  "buckets_ok s \<Longrightarrow> buckets_enabled s \<Longrightarrow> clocked rs \<Longrightarrow> (\<forall>r \<in> set rs. now \<le> snd r) \<Longrightarrow>
   implements_ideal now s f \<Longrightarrow> snd (acquire_all rs s) = ideal_all (per_sec s) (burst s) rs f"
proof (induction rs arbitrary: s f now)
  case (Cons r rs)
  obtain ip t where r: "r = (ip, t)" by (cases r)
  have im: "implements_ideal t s f" using Cons.prems(4,5) r by (auto intro: implements_ideal_later)
  have t: "nanos t div 10 ^ 9 < 2 ^ 53" using Cons.prems(3) r by (auto simp: clocked_def)
  note st = ideal_step[OF Cons.prems(1,2) im t, of ip]
  have "snd (acquire_all rs (fst (bucket_try_acquire ip t s)))
        = ideal_all (per_sec s) (burst s) rs (fst (ideal_acquire (per_sec s) (burst s) ip t f))"
    using Cons.IH[of "fst (bucket_try_acquire ip t s)" t, OF _ _ _ _ st(1)] Cons.prems r
    by (auto simp: clocked_def bucket_try_acquire_keeps)
  then show ?case using st(2) r by (auto split: prod.splits)
qed simp

lemma ideal_acquire_at:
  "fst (ideal_acquire ps bst ip now f) ip' =
     (if ip' = ip then
        let t = refilled ps bst now (f ip) in \<lparr>tokens = (if t \<ge> 1 then f64_round (t - 1) else t), last_refill = now\<rparr>
      else f ip')"
  "snd (ideal_acquire ps bst ip now f) = (if refilled ps bst now (f ip) \<ge> 1 then Inr () else Inl 1)"
  by (simp_all add: ideal_acquire_def Let_def)

lemma ideal_all_Cons: "ideal_all ps bst (r # rs) f =
  snd (ideal_acquire ps bst (fst r) (snd r) f) # ideal_all ps bst rs (fst (ideal_acquire ps bst (fst r) (snd r) f))"
  by (cases r) (simp split: prod.splits)

lemma ideal_all_depends: "f ip = g ip \<Longrightarrow>
  answers_of ip rs (ideal_all ps bst rs f) = ideal_all ps bst (filter (\<lambda>r. fst r = ip) rs) g"
proof (induction rs arbitrary: f g)
  case (Cons r rs)
  have "fst (ideal_acquire ps bst (fst r) (snd r) f) ip
        = (if fst r = ip then fst (ideal_acquire ps bst (fst r) (snd r) g) else g) ip"
    using Cons.prems by (simp add: ideal_acquire_at)
  note IH = Cons.IH[of "fst (ideal_acquire ps bst (fst r) (snd r) f)"
    "if fst r = ip then fst (ideal_acquire ps bst (fst r) (snd r) g) else g", OF this]
  show ?case
    using IH Cons.prems
    by (cases "fst r = ip")
       (simp_all add: answers_of_def ideal_all_Cons ideal_acquire_at(2) del: ideal_all.simps)
qed (simp add: answers_of_def)

lemma clocked_filter: "clocked rs \<Longrightarrow> clocked (filter P rs)"
  by (auto simp: clocked_def intro: sorted_filter)

lemma acquire_all_disabled: "\<not> buckets_enabled s \<Longrightarrow> acquire_all rs s = (s, replicate (length rs) (Inr ()))"
  by (induction rs s rule: acquire_all.induct) (simp_all add: bucket_try_acquire_def)

lemma answers_of_replicate:
  "answers_of ip rs (replicate (length rs) x) = replicate (length (filter (\<lambda>r. fst r = ip) rs)) x"
  by (induction rs) (simp_all add: answers_of_def)

text \<open>The bucket of a client as the abstract limiter sees it.\<close>

definition bucket_of :: "ip_buckets \<Rightarrow> ideal" where
  "bucket_of s ip = (case fmlookup (buckets s) ip of
     Some b \<Rightarrow> b | None \<Rightarrow> \<lparr>tokens = of_nat (burst s), last_refill = Instant 0\<rparr>)"

lemma implements_bucket_of: "buckets_ok s \<Longrightarrow> implements_ideal now s (bucket_of s)"
  by (auto simp: implements_ideal_def bucket_of_def full_from_def full_bucket_stays_full buckets_ok_def
      split: option.splits)

lemma acquire_all_is_ideal:
  assumes "buckets_ok s" "buckets_enabled s" "clocked rs"
  shows "snd (acquire_all rs s) = ideal_all (per_sec s) (burst s) rs (bucket_of s)"
  using acquire_all_refines[OF assms, of "Instant 0"] implements_bucket_of[OF assms(1)]
  by (simp add: less_eq_instant_def)

lemma answers_are_ideal:
  assumes "buckets_ok s" "buckets_enabled s" "clocked rs"
  shows "answers_of ip rs (snd (acquire_all rs s))
    = ideal_all (per_sec s) (burst s) (filter (\<lambda>r. fst r = ip) rs) (bucket_of s)"
  unfolding acquire_all_is_ideal[OF assms] by (rule ideal_all_depends) (rule refl)

lemma new_buckets_simps [simp]:
  "per_sec (new_buckets ps bst) = ps" "burst (new_buckets ps bst) = max bst ps"
  "buckets_enabled (new_buckets ps bst) = (0 < ps)"
  "bucket_of (new_buckets ps bst) ip = \<lparr>tokens = of_nat (max bst ps), last_refill = Instant 0\<rparr>"
  by (simp_all add: new_buckets_def buckets_enabled_def bucket_of_def)

lemma ideal_all_one_instant:
  assumes "k \<le> bst" "bst < 2 ^ 32" "refilled ps bst now (f ip) = of_nat k"
  shows "ideal_all ps bst (replicate n (ip, now)) f = replicate (min n k) (Inr ()) @ replicate (n - k) (Inl 1)"
  using assms
proof (induction n arbitrary: k f)
  case (Suc n)
  show ?case
  proof (cases k)
    case 0
    have "ideal_all ps bst (replicate n (ip, now)) (f(ip := \<lparr>tokens = 0, last_refill = now\<rparr>)) = replicate n (Inl 1)"
      using Suc.IH[of 0] Suc.prems refilled_same_instant[of 0 bst ps now] by simp
    with 0 Suc.prems show ?thesis
      by (simp add: ideal_all_Cons ideal_acquire_def del: ideal_all.simps)
  next
    case (Suc k')
    have "ideal_all ps bst (replicate n (ip, now)) (f(ip := \<lparr>tokens = of_nat k', last_refill = now\<rparr>))
          = replicate (min n k') (Inr ()) @ replicate (n - k') (Inl 1)"
      using Suc.IH[of k'] Suc.prems Suc refilled_same_instant[of k' bst ps now] by simp
    moreover have "f64_round (of_nat k' :: rat) = of_nat k'" using Suc.prems Suc by (simp add: f64.nat)
    ultimately show ?thesis
      using Suc Suc.prems
      by (simp add: ideal_all_Cons ideal_acquire_def algebra_simps del: ideal_all.simps)
  qed
qed simp

section \<open>Properties of the token buckets\<close>

text \<open>
  Every sequence of requests, of any clients at any times, leaves the limiter with between
  zero and \<open>burst\<close> tokens in every bucket, and every refusal carries the same answer: wait one
  second.  The double arithmetic can neither produce a zero Retry-After nor a longer one.
\<close>

theorem limiter_invariant:
  assumes "buckets_ok s"
  shows "buckets_ok (fst (acquire_all rs s)) \<and> set (snd (acquire_all rs s)) \<subseteq> {Inr (), Inl 1}"
  by (rule acquire_all_ok[OF assms])

theorem limiter_invariant_witness:
  "buckets_ok (fst (acquire_all [(V4 1, Instant 0), (V4 1, Instant 5)] (new_buckets 1 1)))
   \<and> set (snd (acquire_all [(V4 1, Instant 0), (V4 1, Instant 5)] (new_buckets 1 1))) \<subseteq> {Inr (), Inl 1}"
  by (rule limiter_invariant) (simp add: buckets_ok_new)

text \<open>
  C23. Clients do not share buckets, and the clean-up of full buckets cannot be observed: the
  answers that one client gets within any traffic, also traffic of more than 10,000 clients,
  are those it would get alone on a fresh limiter.  Time stamps are those of a monotonic
  clock, and the seconds fit a double exactly.
\<close>

theorem limiter_isolates_clients:
  assumes "ps < 2 ^ 32" "bst < 2 ^ 32" "clocked rs"
  shows "answers_of ip rs (snd (acquire_all rs (new_buckets ps bst)))
    = snd (acquire_all (filter (\<lambda>r. fst r = ip) rs) (new_buckets ps bst))"
proof (cases "0 < ps")
  case True
  let ?s = "new_buckets ps bst"
  have s: "buckets_ok ?s" "buckets_enabled ?s" using assms(1,2) True by (simp_all add: buckets_ok_new)
  show ?thesis
    unfolding answers_are_ideal[OF s assms(3)] acquire_all_is_ideal[OF s clocked_filter[OF assms(3)]] ..
next
  case False
  then show ?thesis
    by (simp add: acquire_all_disabled answers_of_replicate buckets_enabled_def new_buckets_def)
qed

definition sample_traffic :: "(ip_addr \<times> instant) list" where
  "sample_traffic = [(V4 1, Instant 0), (V4 2, Instant 0), (V4 1, Instant 5), (V4 2, Instant (2 * 10 ^ 9))]"

lemma sample_traffic_clocked: "clocked sample_traffic"
  by (simp add: clocked_def sample_traffic_def less_eq_instant_def)

theorem limiter_isolates_clients_witness:
  "answers_of (V4 1) sample_traffic (snd (acquire_all sample_traffic (new_buckets 1 1)))
    = snd (acquire_all (filter (\<lambda>r. fst r = V4 1) sample_traffic) (new_buckets 1 1))"
  by (rule limiter_isolates_clients) (simp_all add: sample_traffic_clocked)

text \<open>
  Burst, then throttle: of \<open>n\<close> requests that a new client makes at one instant, whatever
  the other clients do before, between and after, exactly the first \<open>max burst per_sec\<close> are
  admitted and all others are refused.
\<close>

theorem burst_then_throttle:
  assumes "ps < 2 ^ 32" "bst < 2 ^ 32" "0 < ps" "clocked rs"
    and "filter (\<lambda>r. fst r = ip) rs = replicate n (ip, now)"
  shows "answers_of ip rs (snd (acquire_all rs (new_buckets ps bst)))
    = replicate (min n (max bst ps)) (Inr ()) @ replicate (n - max bst ps) (Inl 1)"
proof -
  let ?s = "new_buckets ps bst"
  have s: "buckets_ok ?s" "buckets_enabled ?s" using assms(1-3) by (simp_all add: buckets_ok_new)
  show ?thesis
    unfolding answers_are_ideal[OF s assms(4)] assms(5) new_buckets_simps
    by (rule ideal_all_one_instant) (use assms(1,2) in \<open>simp_all add: full_bucket_stays_full del: of_nat_max\<close>)
qed

theorem burst_then_throttle_witness:
  "answers_of (V4 1) [(V4 1, Instant 7), (V4 2, Instant 7), (V4 1, Instant 7), (V4 1, Instant 7)]
     (snd (acquire_all [(V4 1, Instant 7), (V4 2, Instant 7), (V4 1, Instant 7), (V4 1, Instant 7)] (new_buckets 2 1)))
   = replicate (min 3 (max 1 2)) (Inr ()) @ replicate (3 - max 1 2) (Inl 1)"
  by (rule burst_then_throttle[where now = "Instant 7"]) (simp_all add: clocked_def less_eq_instant_def numeral_3_eq_3)

text \<open>
  C38. The Retry-After promise: a refused client that comes back after the number of seconds
  it was told is admitted, whatever the requests of other clients in between.
\<close>

theorem retry_after_is_kept:
  assumes "buckets_ok s" "bucket_try_acquire ip now s = (s', Inl retry)"
    and "\<forall>r \<in> set rs. fst r \<noteq> ip" "clocked (rs @ [(ip, later)])"
    and "nanos now + retry * 10 ^ 9 \<le> nanos later"
  shows "answers_of ip (rs @ [(ip, later)]) (snd (acquire_all (rs @ [(ip, later)]) s')) = [Inr ()]"
proof -
  have en: "buckets_enabled s" using assms(2) by (auto simp: bucket_try_acquire_def split: if_splits)
  let ?t = "refilled (per_sec s) (burst s) now (work_bucket ip now s)"
  have t: "\<not> 1 \<le> ?t" "retry = 1"
    using bucket_try_acquire_ok(2)[OF assms(1) en, of ip now] assms(2) by (auto split: if_splits)
  have s': "buckets_ok s'" "buckets_enabled s'" "per_sec s' = per_sec s" "burst s' = burst s"
    using bucket_try_acquire_keeps[OF assms(1), of ip now] bucket_try_acquire_params[of ip now s] assms(2) en by auto
  have b: "bucket_of s' ip = \<lparr>tokens = ?t, last_refill = now\<rparr>"
    using assms(2) t by (auto simp: bucket_try_acquire_eq[OF en] Let_def bucket_of_def)
  have ps: "1 \<le> per_sec s" "1 \<le> burst s"
    using assms(1) en by (simp_all add: buckets_ok_def buckets_enabled_def)
  have "0 \<le> ?t" using refilled_bounds(1) work_bucket_ok[OF assms(1) en] by (simp add: bucket_ok_def)
  then have "1 \<le> refilled (per_sec s) (burst s) later (bucket_of s' ip)"
    unfolding b using refilled_after_a_second[OF _ ps] assms(5) t(2) by (simp add: duration_since_def)
  moreover have "filter (\<lambda>r. fst r = ip) (rs @ [(ip, later)]) = [(ip, later)]"
    using assms(3) by (simp add: filter_empty_conv)
  ultimately show ?thesis
    unfolding answers_are_ideal[OF s'(1,2) assms(4)] s'(3,4) by (simp add: ideal_acquire_def)
qed

definition sample_drained :: ip_buckets where
  "sample_drained = new_buckets 1 1 \<lparr>buckets := fmupd (V4 1) \<lparr>tokens = 0, last_refill = Instant 7\<rparr> fmempty\<rparr>"

lemma sample_drained_ok: "buckets_ok sample_drained"
  by (auto simp: sample_drained_def buckets_ok_def bucket_ok_def new_buckets_def split: if_splits)

theorem retry_after_is_kept_witness:
  "answers_of (V4 1) ([(V4 2, Instant 9)] @ [(V4 1, Instant (7 + 10 ^ 9))])
     (snd (acquire_all ([(V4 2, Instant 9)] @ [(V4 1, Instant (7 + 10 ^ 9))])
       (fst (bucket_try_acquire (V4 1) (Instant 7) sample_drained)))) = [Inr ()]"
proof (rule retry_after_is_kept[OF sample_drained_ok])
  have en: "buckets_enabled sample_drained" by (simp add: sample_drained_def buckets_enabled_def new_buckets_def)
  have "refilled 1 1 (Instant 7) \<lparr>tokens = 0, last_refill = Instant 7\<rparr> = 0"
    using refilled_same_instant[of 0 1 1 "Instant 7"] by simp
  then have "\<not> 1 \<le> refilled (per_sec sample_drained) (burst sample_drained) (Instant 7)
      (work_bucket (V4 1) (Instant 7) sample_drained)"
    by (simp add: work_bucket_def cleanup_def sample_drained_def new_buckets_def)
  then have "snd (bucket_try_acquire (V4 1) (Instant 7) sample_drained) = Inl 1"
    using bucket_try_acquire_ok(2)[OF sample_drained_ok en] by simp
  then show "bucket_try_acquire (V4 1) (Instant 7) sample_drained
      = (fst (bucket_try_acquire (V4 1) (Instant 7) sample_drained), Inl 1)"
    by (metis prod.collapse)
qed (simp_all add: clocked_def less_eq_instant_def)

section \<open>SSE slots: accounting under interleaving\<close>

fun counts_for :: "ip_addr \<Rightarrow> conn \<Rightarrow> bool" where
  "counts_for ip (Counted ip') = (ip' = ip)"
| "counts_for ip (Held ip') = (ip' = ip)"
| "counts_for ip (Releasing ip') = (ip' = ip)"
| "counts_for ip _ = False"

fun is_held :: "conn \<Rightarrow> bool" where
  "is_held (Held _) = True"
| "is_held _ = False"

definition ip_count :: "ip_addr \<Rightarrow> sse_slots \<Rightarrow> int" where
  "ip_count ip s = (case per_ip s ip of Some c \<Rightarrow> c | None \<Rightarrow> 0)"

definition slots_ok :: "sse_slots \<Rightarrow> bool" where
  "slots_ok s \<longleftrightarrow> (\<forall>ip c. per_ip s ip = Some c \<longrightarrow> 0 < c \<and> (0 < per_ip_cap s \<longrightarrow> c \<le> int (per_ip_cap s)))"

definition sse_inv :: "sse_sys \<Rightarrow> bool" where
  "sse_inv y \<longleftrightarrow> slots_ok (slots y)
     \<and> sse_global (slots y) = int (length (filter is_held (conns y)))
     \<and> (\<forall>ip. ip_count ip (slots y) = int (length (filter (counts_for ip) (conns y))))"

lemma slots_ok_count: "slots_ok s \<Longrightarrow> 0 \<le> ip_count ip s \<and> (0 < per_ip_cap s \<longrightarrow> ip_count ip s \<le> int (per_ip_cap s))"
  by (auto simp: slots_ok_def ip_count_def dest: less_imp_le split: option.splits)

lemma slots_ok_per_ip: "slots_ok s \<Longrightarrow> per_ip s ip = (if ip_count ip s = 0 then None else Some (ip_count ip s))"
  by (auto simp: slots_ok_def ip_count_def split: option.splits)

lemma sse_count_ip_eq:
  assumes "slots_ok s"
  shows "sse_count_ip ip s =
    (if 0 < per_ip_cap s \<and> int (per_ip_cap s) \<le> ip_count ip s then (s, False)
     else (s\<lparr>per_ip := (per_ip s)(ip \<mapsto> ip_count ip s + 1)\<rparr>, True))"
proof -
  have "s\<lparr>per_ip := (per_ip s)(ip \<mapsto> ip_count ip s)\<rparr> = s" if "0 < ip_count ip s"
    using that by (simp add: ip_count_def fun_upd_idem split: option.splits)
  then show ?thesis by (auto simp: sse_count_ip_def Let_def ip_count_def split: option.splits)
qed

lemma sse_uncount_ip_eq:
  assumes "slots_ok s" "0 < ip_count ip s"
  shows "sse_uncount_ip ip s =
    s\<lparr>per_ip := (per_ip s)(ip := if ip_count ip s = 1 then None else Some (ip_count ip s - 1))\<rparr>"
  using assms(2) by (auto simp: sse_uncount_ip_def ip_count_def split: option.splits)

lemma slots_ok_update:
  "slots_ok s \<Longrightarrow> 0 < per_ip_cap s \<Longrightarrow> c \<le> int (per_ip_cap s) \<Longrightarrow> 0 < c \<Longrightarrow> slots_ok (s\<lparr>per_ip := (per_ip s)(ip \<mapsto> c)\<rparr>)"
  "slots_ok s \<Longrightarrow> per_ip_cap s = 0 \<Longrightarrow> 0 < c \<Longrightarrow> slots_ok (s\<lparr>per_ip := (per_ip s)(ip \<mapsto> c)\<rparr>)"
  "slots_ok s \<Longrightarrow> slots_ok (s\<lparr>per_ip := (per_ip s)(ip := None)\<rparr>)"
  by (auto simp: slots_ok_def)

lemma ip_count_update [simp]:
  "ip_count ip (s\<lparr>per_ip := (per_ip s)(ip' \<mapsto> c)\<rparr>) = (if ip = ip' then c else ip_count ip s)"
  "ip_count ip (s\<lparr>per_ip := (per_ip s)(ip' := None)\<rparr>) = (if ip = ip' then 0 else ip_count ip s)"
  by (simp_all add: ip_count_def)

lemma sse_count_ip_True:
  assumes "slots_ok s" "sse_count_ip ip s = (s', True)"
  shows "slots_ok s'" "ip_count ip' s' = ip_count ip' s + of_bool (ip' = ip)" "sse_global s' = sse_global s"
  using assms slots_ok_count[OF assms(1), of ip] slots_ok_update(1,2)[OF assms(1), of "ip_count ip s + 1" ip]
  by (auto simp: sse_count_ip_eq split: if_splits)

lemma sse_count_ip_False: "slots_ok s \<Longrightarrow> sse_count_ip ip s = (s', False) \<Longrightarrow> s' = s"
  by (simp add: sse_count_ip_eq split: if_splits)

lemma sse_uncount_ip_ok:
  assumes "slots_ok s" "0 < ip_count ip s"
  shows "slots_ok (sse_uncount_ip ip s)"
    "ip_count ip' (sse_uncount_ip ip s) = ip_count ip' s - of_bool (ip' = ip)"
    "sse_global (sse_uncount_ip ip s) = sse_global s"
  using assms slots_ok_count[OF assms(1), of ip] slots_ok_update[OF assms(1)]
  by (auto simp: sse_uncount_ip_eq)

lemma sse_params [simp]:
  "slots_ok (sse_add_global s) = slots_ok s" "slots_ok (sse_sub_global s) = slots_ok s"
  "ip_count ip (sse_add_global s) = ip_count ip s" "ip_count ip (sse_sub_global s) = ip_count ip s"
  "sse_global (sse_add_global s) = sse_global s + 1" "sse_global (sse_sub_global s) = sse_global s - 1"
  by (simp_all add: sse_add_global_def sse_sub_global_def slots_ok_def ip_count_def)

lemma sse_inv_init: "sse_inv (sse_init ipc gc ips)"
  by (auto simp: sse_inv_def sse_init_def new_slots_def slots_ok_def ip_count_def filter_empty_conv)

lemma counted_pos:
  "i < length cs \<Longrightarrow> counts_for ip (cs ! i) \<Longrightarrow> 0 < int (length (filter (counts_for ip) cs))"
  by (auto simp: filter_empty_conv)

lemma sse_inv_step: "sse_step y y' \<Longrightarrow> sse_inv y \<Longrightarrow> sse_inv y'"
proof (induction rule: sse_step.induct)
  case (count_full i y ip s')
  then have "s' = slots y" by (auto simp: sse_inv_def dest: sse_count_ip_False)
  with count_full show ?case by (auto simp: sse_inv_def length_filter_update)
next
  case (count_ok i y ip s')
  then have "slots_ok (slots y)" by (simp add: sse_inv_def)
  note s' = sse_count_ip_True[OF this count_ok(3)]
  from count_ok show ?case by (auto simp: sse_inv_def length_filter_update s')
next
  case (uncount i y ip)
  then have "slots_ok (slots y)" "0 < ip_count ip (slots y)"
    using counted_pos[of i "conns y" ip] by (auto simp: sse_inv_def)
  note s' = sse_uncount_ip_ok[OF this]
  from uncount show ?case by (auto simp: sse_inv_def length_filter_update s')
qed (auto simp: sse_inv_def length_filter_update)

lemma sse_cap_step: "sse_step y y' \<Longrightarrow> per_ip_cap (slots y') = per_ip_cap (slots y)"
  by (induction rule: sse_step.induct)
     (auto simp: sse_count_ip_def sse_uncount_ip_def sse_add_global_def sse_sub_global_def Let_def
        split: option.splits if_splits)

interpretation sse: step_invariant sse_step sse_inv "\<lambda>y y'. per_ip_cap (slots y') = per_ip_cap (slots y)"
  by unfold_locales (auto simp: sse_cap_step intro: sse_inv_step)

section \<open>Properties of the SSE slots\<close>

text \<open>
  C24. The per-IP cap holds under every interleaving of connecting and closing clients: at no
  moment does one address hold more than \<open>per_ip_cap\<close> slots (when the cap is on), the gauge
  is the number of slots held, and the map counts every slot.
\<close>

theorem per_ip_cap_never_exceeded:
  assumes "reachable sse_step (sse_init ipc gc ips) y"
  shows "sse_active (slots y) = int (length (filter is_held (conns y)))
    \<and> int (length (filter (\<lambda>c. c = Held ip) (conns y))) \<le> ip_count ip (slots y)
    \<and> (ipc = 0 \<or> ip_count ip (slots y) \<le> int ipc)"
proof -
  have inv: "sse_inv y" using sse.reachable_ok[OF assms sse_inv_init] .
  have "length (filter (\<lambda>c. c = Held ip) (conns y)) \<le> length (filter (counts_for ip) (conns y))"
    unfolding length_filter_conv_card by (rule card_mono) auto
  then show ?thesis
    using inv sse.reachable_grows[OF assms sse_inv_init] slots_ok_count[of "slots y" ip]
    by (auto simp: sse_inv_def sse_active_def sse_init_def new_slots_def)
qed

text \<open>One client connects and is served.\<close>

lemma sample_sse_run:
  "reachable sse_step (sse_init 1 1 [V4 1])
     \<lparr>slots = \<lparr>per_ip_cap = 1, global_cap = 1, sse_global = 1, per_ip = [V4 1 \<mapsto> 1]\<rparr>, conns = [Held (V4 1)]\<rparr>"
proof -
  let ?y0 = "sse_init 1 1 [V4 1]"
  have "sse_step ?y0 (?y0\<lparr>conns := [Checked (V4 1)]\<rparr>)"
    using sse_step.check_ok[of 0 ?y0 "V4 1"] by (simp add: sse_init_def new_slots_def sse_global_full_def)
  moreover have "sse_step (?y0\<lparr>conns := [Checked (V4 1)]\<rparr>)
      \<lparr>slots = (new_slots 1 1)\<lparr>per_ip := [V4 1 \<mapsto> 1]\<rparr>, conns = [Counted (V4 1)]\<rparr>"
    using sse_step.count_ok[of 0 "?y0\<lparr>conns := [Checked (V4 1)]\<rparr>" "V4 1"]
    by (simp add: sse_init_def new_slots_def sse_count_ip_def)
  moreover have "sse_step \<lparr>slots = (new_slots 1 1)\<lparr>per_ip := [V4 1 \<mapsto> 1]\<rparr>, conns = [Counted (V4 1)]\<rparr>
     \<lparr>slots = \<lparr>per_ip_cap = 1, global_cap = 1, sse_global = 1, per_ip = [V4 1 \<mapsto> 1]\<rparr>, conns = [Held (V4 1)]\<rparr>"
    using sse_step.add_global[of 0 "\<lparr>slots = (new_slots 1 1)\<lparr>per_ip := [V4 1 \<mapsto> 1]\<rparr>, conns = [Counted (V4 1)]\<rparr>" "V4 1"]
    by (simp add: new_slots_def sse_add_global_def)
  ultimately show ?thesis by (meson reachable.intros)
qed

theorem per_ip_cap_never_exceeded_witness:
  "sse_active \<lparr>per_ip_cap = 1, global_cap = 1, sse_global = 1, per_ip = [V4 1 \<mapsto> 1]\<rparr> = 1
   \<and> ip_count (V4 1) \<lparr>per_ip_cap = 1, global_cap = 1, sse_global = 1, per_ip = [V4 1 \<mapsto> 1]\<rparr> \<le> 1"
  using per_ip_cap_never_exceeded[OF sample_sse_run, of "V4 1"] by simp

text \<open>
  A connection attempt that is not raced by another takes a slot exactly when both caps
  leave room; a refused attempt leaves the accounting as it was, and dropping the slot
  restores it.
\<close>

theorem acquire_and_drop_restores:
  assumes "slots_ok s" "sse_try_acquire ip s = (s', taken)"
  shows "(taken \<longleftrightarrow> (global_cap s = 0 \<or> sse_active s < int (global_cap s))
           \<and> (per_ip_cap s = 0 \<or> ip_count ip s < int (per_ip_cap s)))
    \<and> (if taken then sse_active s' = sse_active s + 1 \<and> sse_drop ip s' = s else s' = s)"
proof (cases "sse_global_full s \<or> \<not> snd (sse_count_ip ip s)")
  case True
  then show ?thesis
    using assms(2) by (auto simp: sse_try_acquire_def sse_global_full_def sse_active_def sse_count_ip_eq[OF assms(1)]
        split: if_splits)
next
  case False
  let ?s1 = "s\<lparr>per_ip := (per_ip s)(ip \<mapsto> ip_count ip s + 1)\<rparr>"
  have c: "sse_count_ip ip s = (?s1, True)" "per_ip_cap s = 0 \<or> ip_count ip s < int (per_ip_cap s)"
    using False by (auto simp: sse_count_ip_eq[OF assms(1)] split: if_splits)
  have s': "s' = sse_add_global ?s1" "taken" using assms(2) False c(1) by (auto simp: sse_try_acquire_def)
  have "sse_uncount_ip ip (sse_sub_global s') = s"
    using slots_ok_count[OF assms(1), of ip] slots_ok_per_ip[OF assms(1), of ip] s'(1)
    by (auto simp: sse_uncount_ip_def sse_sub_global_def sse_add_global_def fun_upd_idem)
  then show ?thesis
    using False c(2) s' by (auto simp: sse_drop_def sse_global_full_def sse_active_def sse_add_global_def)
qed

theorem acquire_and_drop_restores_witness:
  "sse_drop (V4 1) (fst (sse_try_acquire (V4 1) (new_slots 2 3))) = new_slots 2 3"
proof -
  have "sse_try_acquire (V4 1) (new_slots 2 3) = (fst (sse_try_acquire (V4 1) (new_slots 2 3)), True)"
    by (simp add: sse_try_acquire_def sse_global_full_def new_slots_def sse_count_ip_def)
  from acquire_and_drop_restores[OF _ this] show ?thesis by (simp add: slots_ok_def new_slots_def)
qed

text \<open>
  The global cap is not a cap: two clients that connect at the same time both pass the
  check of the counter before either increments it, and both are served under a cap of one.
\<close>

theorem global_cap_is_exceeded_by_race:
  "\<exists>y. reachable sse_step (sse_init 0 1 [V4 1, V4 2]) y \<and> conns y = [Held (V4 1), Held (V4 2)]
     \<and> sse_active (slots y) > int (global_cap (slots y))"
proof -
  let ?s0 = "new_slots 0 1"
  let ?s1 = "?s0\<lparr>per_ip := [V4 1 \<mapsto> 1]\<rparr>"
  let ?s2 = "?s0\<lparr>per_ip := [V4 1 \<mapsto> 1, V4 2 \<mapsto> 1]\<rparr>"
  let ?s3 = "?s2\<lparr>sse_global := 1\<rparr>"
  let ?s4 = "?s2\<lparr>sse_global := 2\<rparr>"
  let ?y = "\<lambda>s cs. \<lparr>slots = s, conns = cs\<rparr>"
  note d = new_slots_def sse_global_full_def sse_count_ip_def sse_add_global_def
  have "sse_step (?y ?s0 [Start (V4 1), Start (V4 2)]) (?y ?s0 [Checked (V4 1), Start (V4 2)])"
    using sse_step.check_ok[of 0 "?y ?s0 [Start (V4 1), Start (V4 2)]" "V4 1"] by (simp add: d)
  moreover have "sse_step (?y ?s0 [Checked (V4 1), Start (V4 2)]) (?y ?s0 [Checked (V4 1), Checked (V4 2)])"
    using sse_step.check_ok[of 1 "?y ?s0 [Checked (V4 1), Start (V4 2)]" "V4 2"] by (simp add: d)
  moreover have "sse_step (?y ?s0 [Checked (V4 1), Checked (V4 2)]) (?y ?s1 [Counted (V4 1), Checked (V4 2)])"
    using sse_step.count_ok[of 0 "?y ?s0 [Checked (V4 1), Checked (V4 2)]" "V4 1" ?s1] by (simp add: d)
  moreover have "sse_step (?y ?s1 [Counted (V4 1), Checked (V4 2)]) (?y ?s2 [Counted (V4 1), Counted (V4 2)])"
    using sse_step.count_ok[of 1 "?y ?s1 [Counted (V4 1), Checked (V4 2)]" "V4 2" ?s2] by (simp add: d)
  moreover have "sse_step (?y ?s2 [Counted (V4 1), Counted (V4 2)]) (?y ?s3 [Held (V4 1), Counted (V4 2)])"
    using sse_step.add_global[of 0 "?y ?s2 [Counted (V4 1), Counted (V4 2)]" "V4 1"] by (simp add: d)
  moreover have "sse_step (?y ?s3 [Held (V4 1), Counted (V4 2)]) (?y ?s4 [Held (V4 1), Held (V4 2)])"
    using sse_step.add_global[of 1 "?y ?s3 [Held (V4 1), Counted (V4 2)]" "V4 2"] by (simp add: d)
  ultimately have "reachable sse_step (?y ?s0 [Start (V4 1), Start (V4 2)]) (?y ?s4 [Held (V4 1), Held (V4 2)])"
    by (meson reachable.intros)
  then have "reachable sse_step (sse_init 0 1 [V4 1, V4 2]) (?y ?s4 [Held (V4 1), Held (V4 2)])"
    by (simp add: sse_init_def)
  then show ?thesis
    by (intro exI[of _ "?y ?s4 [Held (V4 1), Held (V4 2)]"]) (simp add: sse_active_def new_slots_def)
qed

end
