(* ===== verification/Feed.thy ===== *)
theory Feed
  imports Schema
begin

text \<open>
  Cursor pagination, the contract that \<open>/v1/notes\<close>, \<open>/v1/credentials\<close>, the SSE replay and the
  note fan-out share: rows are read by a monotonic key, strictly after a cursor, in order, at
  most \<open>lim\<close> at a time; a full page hands out the key of its last row as the next cursor.
  The locale states the contract of the query; what a client obtains by following the
  cursors is proved once from it.
\<close>

section \<open>One page\<close>

definition query_after :: "nat \<Rightarrow> ('r \<Rightarrow> int) \<Rightarrow> ('r \<Rightarrow> bool) \<Rightarrow> int \<Rightarrow> 'r list \<Rightarrow> 'r list" where
  "query_after lim key P cursor rows = take lim (select_by key (\<lambda>r. P r \<and> cursor < key r) rows)"

definition next_cursor_of :: "nat \<Rightarrow> ('r \<Rightarrow> int) \<Rightarrow> 'r list \<Rightarrow> int option" where
  "next_cursor_of lim key rows =
     (if length rows = lim then (if rows = [] then None else Some (key (last rows))) else None)"

text \<open>
  A client that follows the cursors: request after request, each against the state that the
  server has at that moment, until a page comes without a next cursor.  \<open>None\<close>: the listed
  requests were not enough.
\<close>

fun follow_pages :: "('s \<Rightarrow> int \<Rightarrow> 'r list \<times> int option) \<Rightarrow> 's list \<Rightarrow> int \<Rightarrow> 'r list option" where
  "follow_pages request [] cursor = None"
| "follow_pages request (s # ss) cursor =
     (case request s cursor of
        (rows, None) \<Rightarrow> Some rows
      | (rows, Some c) \<Rightarrow> map_option ((@) rows) (follow_pages request ss c))"

section \<open>The contract\<close>

locale cursor_feed =
  fixes ok :: "'s \<Rightarrow> bool" and visible :: "'s \<Rightarrow> 'r list" and key :: "'r \<Rightarrow> int"
    and request :: "'s \<Rightarrow> int \<Rightarrow> 'r list \<times> int option" and lim :: nat
  assumes increasing: "ok s \<Longrightarrow> sorted_wrt (<) (map key (visible s))"
    and rows: "ok s \<Longrightarrow> fst (request s c) = take lim (filter (\<lambda>r. c < key r) (visible s))"
    and cursor: "ok s \<Longrightarrow> snd (request s c) = next_cursor_of lim key (fst (request s c))"
    and size_pos: "0 < lim"
begin

definition after :: "'s \<Rightarrow> int \<Rightarrow> 'r list" where
  "after s c = filter (\<lambda>r. c < key r) (visible s)"

lemma after_increasing: "ok s \<Longrightarrow> sorted_wrt (<) (map key (after s c))"
  using increasing[of s] by (auto simp: after_def sorted_wrt_map intro: sorted_wrt_filter)

lemma after_split:
  assumes "ok s" "after s c = xs @ ys" "xs \<noteq> []"
  shows "after s (key (last xs)) = ys"
proof -
  have inc: "sorted_wrt (<) (map key (xs @ ys))" using after_increasing[OF assms(1), of c] assms(2) by simp
  have "last xs \<in> set (after s c)" using assms(2) last_in_set[OF assms(3)] by simp
  then have last: "c < key (last xs)" by (simp add: after_def)
  obtain zs z where xs: "xs = zs @ [z]" using assms(3) by (metis append_butlast_last_id)
  have le: "\<forall>x \<in> set xs. key x \<le> key (last xs)"
    using inc by (auto simp: xs sorted_wrt_append intro: less_imp_le)
  have gt: "\<forall>y \<in> set ys. key (last xs) < key y"
    using inc last_in_set[OF assms(3)] by (auto simp: sorted_wrt_append)
  have "after s (key (last xs)) = filter (\<lambda>r. key (last xs) < key r) (after s c)"
    using last by (auto simp: after_def intro: filter_cong)
  also have "\<dots> = ys" unfolding assms(2) using le gt by (auto simp: filter_empty_conv)
  finally show ?thesis .
qed

lemma page_full:
  assumes "ok s" "snd (request s c) = Some c'"
  shows "after s c = fst (request s c) @ after s c'" "fst (request s c) \<noteq> []" "c' = key (last (fst (request s c)))" "length (fst (request s c)) = lim"
proof -
  show ne: "fst (request s c) \<noteq> []" "c' = key (last (fst (request s c)))" "length (fst (request s c)) = lim"
    using assms(2) by (auto simp: cursor[OF assms(1)] next_cursor_of_def split: if_splits)
  have f: "fst (request s c) = take lim (after s c)" by (simp add: rows[OF assms(1)] after_def)
  have "after s c = fst (request s c) @ drop lim (after s c)" unfolding f by simp
  then show "after s c = fst (request s c) @ after s c'"
    using after_split[OF assms(1) _ ne(1)] ne(2) by metis
qed

lemma page_last:
  assumes "ok s" "snd (request s c) = None"
  shows "fst (request s c) = after s c"
proof -
  have f: "fst (request s c) = take lim (after s c)" by (simp add: rows[OF assms(1)] after_def)
  have "length (fst (request s c)) \<noteq> lim" using assms(2) size_pos by (auto simp: cursor[OF assms(1)] next_cursor_of_def split: if_splits)
  then show ?thesis using f by (metis length_take min_def take_all linear)
qed

text \<open>Paging over one state returns every row after the cursor once, in order, and ends.\<close>

lemma follow_static:
  assumes "ok s"
  shows "length (after s c) < n * lim \<Longrightarrow> follow_pages request (replicate n s) c = Some (after s c)"
proof (induction n arbitrary: c)
  case (Suc n)
  show ?case
  proof (cases "snd (request s c)")
    case None
    then show ?thesis using page_last[OF assms None] by (auto split: prod.splits)
  next
    case (Some c')
    note p = page_full[OF assms Some]
    have "length (after s c') < n * lim" using p(1,4) Suc.prems by simp
    from Suc.IH[OF this] show ?thesis using Some p(1) by (auto split: prod.splits)
  qed
qed simp

text \<open>Paging while rows are appended.\<close>

definition grows :: "'s \<Rightarrow> 's \<Rightarrow> bool" where
  "grows s s' \<longleftrightarrow> (\<exists>more. visible s' = visible s @ more)"

lemma grows_trans: "grows s s' \<Longrightarrow> grows s' s'' \<Longrightarrow> grows s s''"
  by (auto simp: grows_def)

lemma after_grows:
  assumes "ok s'" "grows s s'" "after s c = xs @ ys" "xs \<noteq> []"
  shows "after s' c = xs @ after s' (key (last xs))"
proof -
  obtain more where "after s' c = after s c @ more" using assms(2) by (auto simp: grows_def after_def)
  then have "after s' c = xs @ ys @ more" using assms(3) by simp
  with after_split[OF assms(1) this assms(4)] show ?thesis by simp
qed

lemma follow_growing:
  assumes "follow_pages request ss c = Some rows" "list_all ok ss" "sorted_wrt grows ss"
  shows "\<exists>s \<in> set ss. rows = after s c"
  using assms
proof (induction ss arbitrary: c rows)
  case (Cons s ss)
  show ?case
  proof (cases "snd (request s c)")
    case None
    then show ?thesis using Cons.prems page_last[of s c] by (auto split: prod.splits)
  next
    case (Some c')
    then obtain rest where rest: "follow_pages request ss c' = Some rest" "rows = fst (request s c) @ rest"
      using Cons.prems(1) by (auto split: prod.splits)
    then obtain s' where s': "s' \<in> set ss" "rest = after s' c'"
      using Cons.IH[OF rest(1)] Cons.prems(2,3) by auto
    have "ok s'" "grows s s'" using s'(1) Cons.prems(2,3) by (auto simp: list_all_iff)
    note p = page_full[of s c, OF _ Some]
    have "after s' c = fst (request s c) @ after s' c'"
      using after_grows[OF \<open>ok s'\<close> \<open>grows s s'\<close> p(1) p(2)] p(3) Cons.prems(2) by simp
    then have "rows = after s' c" using s'(2) rest(2) by simp
    with s'(1) show ?thesis by auto
  qed
qed simp

end

section \<open>Tables as feeds\<close>

lemma select_by_increasing:
  assumes "unique_key key rows"
  shows "sorted_wrt (<) (map key (select_by key P rows :: 'r list))"
proof -
  have "distinct (map key (select_by key P rows))"
    using unique_key_filter[OF assms] by (simp add: select_by_def unique_key_def distinct_map)
  then show ?thesis using sorted_select_by[of key P rows] by (simp add: strict_sorted_iff)
qed

lemma query_after_select:
  "query_after lim key P c rows = take lim (filter (\<lambda>r. c < key r) (select_by key P rows))"
  by (simp add: query_after_def filter_select_by)

lemma select_by_sorted_table: "sorted (map key rows) \<Longrightarrow> select_by key P rows = filter P rows"
  by (simp add: select_by_def sorted_filter sort_key_id_if_sorted)

end
