(* ===== verification/Notes.thy ===== *)
theory Notes
  imports Feed RateLimits Codec
begin

text \<open>
  The encrypted-note relay, \<open>crates/attesta-api/src/routes/notes.rs\<close>: the paged listing, the
  resumable SSE stream and the background task that broadcasts new notes.  The database that
  a statement sees is an argument (every statement of the relay only reads), and so is the
  sequence of wake-ups and query outcomes that the background task meets.
\<close>

section \<open>Listing\<close>

definition PAGE_SIZE :: nat where
  "PAGE_SIZE = 500"

record notes_page =
  np_notes :: "note_row list"
  np_next_cursor :: "int option"

definition pool_is :: "string option \<Rightarrow> note_row \<Rightarrow> bool" where
  "pool_is pool n \<longleftrightarrow> (case pool of None \<Rightarrow> True | Some p \<Rightarrow> e_pool n = p)"

definition list_notes :: "int option \<Rightarrow> string option \<Rightarrow> db_call \<Rightarrow> db \<Rightarrow> api_error + notes_page" where
  "list_notes since_cursor pool call d =
     (case call of
        Some e \<Rightarrow> Inl (of_sqlx e)
      | None \<Rightarrow>
          let since = (case since_cursor of Some c \<Rightarrow> c | None \<Rightarrow> 0);
              notes = query_after PAGE_SIZE e_id (pool_is pool) since (encrypted_notes d)
          in Inr \<lparr>np_notes = notes, np_next_cursor = next_cursor_of PAGE_SIZE e_id notes\<rparr>)"

section \<open>Events\<close>

text \<open>\<open>models.rs\<close>: byte columns render as 0x-hex.\<close>

definition hex_bytes_serialize :: "(byte list \<Rightarrow> string) \<Rightarrow> byte list \<Rightarrow> json" where
  "hex_bytes_serialize hex_encode bs = JStr (''0x'' @ hex_encode bs)"

definition hex_bytes_deserialize :: "(string \<Rightarrow> byte list option) \<Rightarrow> json \<Rightarrow> byte list option" where
  "hex_bytes_deserialize hex_decode j = (case j of JStr s \<Rightarrow> hex_decode (trim_0x s) | _ \<Rightarrow> None)"

definition note_json :: "(byte list \<Rightarrow> string) \<Rightarrow> note_row \<Rightarrow> json" where
  "note_json hex_encode n = JObj
     [(''id'', JInt (e_id n)), (''pool'', JStr (e_pool n)),
      (''commitment'', hex_bytes_serialize hex_encode (e_commitment n)),
      (''ephemeral_pubkey'', hex_bytes_serialize hex_encode (e_ephemeral_pubkey n)),
      (''ciphertext'', hex_bytes_serialize hex_encode (e_ciphertext n)),
      (''ledger'', JInt (e_ledger n)), (''tx_hash'', JStr (e_tx_hash n))]"

definition notes_page_json :: "(byte list \<Rightarrow> string) \<Rightarrow> notes_page \<Rightarrow> json" where
  "notes_page_json hex_encode p = JObj
     [(''notes'', JArr (map (note_json hex_encode) (np_notes p))),
      (''next_cursor'', case np_next_cursor p of None \<Rightarrow> JNull | Some c \<Rightarrow> JInt c)]"

datatype sse_data = TextData string | JsonData json

record sse_event =
  ev_event :: string
  ev_id :: "string option"
  ev_data :: sse_data

definition resync_event :: sse_event where
  "resync_event = \<lparr>ev_event = ''resync'', ev_id = None, ev_data = TextData ''re-page /v1/notes''\<rparr>"

text \<open>\<open>json_data\<close> cannot fail on such a row, so the option is always \<open>Some\<close>.\<close>

definition note_event :: "(byte list \<Rightarrow> string) \<Rightarrow> note_row \<Rightarrow> sse_event option" where
  "note_event hex_encode n =
     Some \<lparr>ev_event = ''note'', ev_id = Some (show_int (e_id n)), ev_data = JsonData (note_json hex_encode n)\<rparr>"

section \<open>Streaming\<close>

definition REPLAY_LIMIT :: nat where
  "REPLAY_LIMIT = 5000"

text \<open>What the broadcast channel hands to one subscriber.\<close>

datatype msg = Note note_row | Lagged

definition pool_in :: "string list option \<Rightarrow> note_row \<Rightarrow> bool" where
  "pool_in pools n \<longleftrightarrow> (case pools of None \<Rightarrow> True | Some ps \<Rightarrow> e_pool n \<in> set ps)"

definition resume_from :: "string option \<Rightarrow> int option \<Rightarrow> int option" where
  "resume_from last_event_id since_cursor =
     (case Option.bind last_event_id (parse_signed 64) of Some c \<Rightarrow> Some c | None \<Rightarrow> since_cursor)"

definition replay_rows :: "string list option \<Rightarrow> int \<Rightarrow> db \<Rightarrow> note_row list" where
  "replay_rows pools cursor d = query_after REPLAY_LIMIT e_id (pool_in pools) cursor (encrypted_notes d)"

definition replay_events :: "(byte list \<Rightarrow> string) \<Rightarrow> note_row list \<Rightarrow> sse_event list" where
  "replay_events hex_encode rows =
     List.map_filter (note_event hex_encode) rows
     @ (if length rows = REPLAY_LIMIT then [resync_event] else [])"

text \<open>
  The handler up to the live part: the answer is an error response, or the replayed events
  with the cursor \<open>last_seen\<close> and the pools that the live filter starts from.  When the replay
  query fails the slot is dropped with the function's frame.
\<close>

definition stream_notes :: "(byte list \<Rightarrow> string) \<Rightarrow> ip_addr \<Rightarrow> string option \<Rightarrow> int option \<Rightarrow> string option
    \<Rightarrow> db_call \<Rightarrow> db \<Rightarrow> sse_slots \<Rightarrow> sse_slots \<times> (response + sse_event list \<times> int \<times> string list option)" where
  "stream_notes hex_encode ip last_event_id since_cursor pool call d sl =
     (case sse_try_acquire ip sl of
        (sl', False) \<Rightarrow> (sl', Inl (too_many_requests_response 30))
      | (sl', True) \<Rightarrow>
          let pools = map_option csv pool in
          (case resume_from last_event_id since_cursor of
             None \<Rightarrow> (sl', Inr ([], 0, pools))
           | Some cursor \<Rightarrow>
               (case call of
                  Some e \<Rightarrow> (sse_drop ip sl', Inl (api_error_response (of_sqlx e)))
                | None \<Rightarrow>
                    let rows = replay_rows pools cursor d;
                        last_id = (if rows = [] then cursor else e_id (last rows))
                    in (sl', Inr (replay_events hex_encode rows, last_id, pools)))))"

definition live_step :: "(byte list \<Rightarrow> string) \<Rightarrow> string list option \<Rightarrow> int \<Rightarrow> msg \<Rightarrow> int \<times> sse_event option" where
  "live_step hex_encode pools last_seen m =
     (case m of
        Lagged \<Rightarrow> (last_seen, Some resync_event)
      | Note n \<Rightarrow>
          if e_id n \<le> last_seen then (last_seen, None)
          else if \<not> pool_in pools n then (e_id n, None)
          else (e_id n, note_event hex_encode n))"

fun live_events :: "(byte list \<Rightarrow> string) \<Rightarrow> string list option \<Rightarrow> int \<Rightarrow> msg list \<Rightarrow> sse_event list" where
  "live_events hex_encode pools last_seen [] = []"
| "live_events hex_encode pools last_seen (m # ms) =
     (case live_step hex_encode pools last_seen m of
        (l, Some ev) \<Rightarrow> ev # live_events hex_encode pools l ms
      | (l, None) \<Rightarrow> live_events hex_encode pools l ms)"

text \<open>Everything the client receives: the replay chained with the live part.\<close>

definition client_events :: "(byte list \<Rightarrow> string) \<Rightarrow> sse_event list \<times> int \<times> string list option \<Rightarrow> msg list \<Rightarrow> sse_event list" where
  "client_events hex_encode st ms =
     (case st of (replay, last_seen, pools) \<Rightarrow> replay @ live_events hex_encode pools last_seen ms)"

section \<open>Broadcasting\<close>

definition DRAIN_PAGE :: nat where
  "DRAIN_PAGE = 1000"

text \<open>
  \<open>drain_new_notes\<close>: the argument lists what its successive queries meet, an error or the
  table; the result is the new cursor and the notes sent.  \<open>None\<close>: still querying.
\<close>

fun drain_new_notes :: "(db_call \<times> db) list \<Rightarrow> int \<Rightarrow> (int \<times> note_row list) option" where
  "drain_new_notes [] last_id = None"
| "drain_new_notes ((Some e, d) # qs) last_id = Some (last_id, [])"
| "drain_new_notes ((None, d) # qs) last_id =
     (let rows = query_after DRAIN_PAGE e_id (\<lambda>_. True) last_id (encrypted_notes d);
          last_id' = (if rows = [] then last_id else e_id (last rows))
      in if length rows = DRAIN_PAGE
         then map_option (\<lambda>(l, sent). (l, rows @ sent)) (drain_new_notes qs last_id')
         else Some (last_id', rows))"

definition initial_last_id :: "db_call \<Rightarrow> db \<Rightarrow> int" where
  "initial_last_id call d =
     (case call of Some e \<Rightarrow> 0
      | None \<Rightarrow> if encrypted_notes d = [] then 0 else Max (e_id ` set (encrypted_notes d)))"

text \<open>\<open>timeout(..., listener.recv())\<close>: a notification, a broken connection, or the timeout.\<close>

datatype wake = Notification | RecvError sqlx_error | Elapsed

fun listen_loop :: "((db_call \<times> db) list \<times> wake) list \<Rightarrow> int \<Rightarrow> (int \<times> note_row list \<times> sqlx_error) option" where
  "listen_loop [] last_id = None"
| "listen_loop ((qs, w) # env) last_id =
     (case drain_new_notes qs last_id of
        None \<Rightarrow> None
      | Some (l, sent) \<Rightarrow>
          (case w of
             RecvError e \<Rightarrow> Some (l, sent, e)
           | _ \<Rightarrow> map_option (\<lambda>(l', sent', e). (l', sent @ sent', e)) (listen_loop env l)))"

text \<open>One round of \<open>poll_new_notes\<close>: what \<open>connect_with\<close>, \<open>LISTEN\<close> and the loop meet, then the fallback polls.\<close>

record fan_out_round =
  fr_connect :: db_call
  fr_listen :: db_call
  fr_loop :: "((db_call \<times> db) list \<times> wake) list"
  fr_polls :: "(db_call \<times> db) list list"

definition listen :: "fan_out_round \<Rightarrow> int \<Rightarrow> (int \<times> note_row list \<times> sqlx_error) option" where
  "listen r last_id =
     (case fr_connect r of
        Some e \<Rightarrow> Some (last_id, [], e)
      | None \<Rightarrow> (case fr_listen r of
                  Some e \<Rightarrow> Some (last_id, [], e)
                | None \<Rightarrow> listen_loop (fr_loop r) last_id))"

fun poll_drains :: "(db_call \<times> db) list list \<Rightarrow> int \<Rightarrow> (int \<times> note_row list) option" where
  "poll_drains [] last_id = Some (last_id, [])"
| "poll_drains (qs # rest) last_id =
     (case drain_new_notes qs last_id of
        None \<Rightarrow> None
      | Some (l, sent) \<Rightarrow> map_option (\<lambda>(l', sent'). (l', sent @ sent')) (poll_drains rest l))"

fun poll_new_notes :: "fan_out_round list \<Rightarrow> int \<Rightarrow> (int \<times> note_row list) option" where
  "poll_new_notes [] last_id = Some (last_id, [])"
| "poll_new_notes (r # rs) last_id =
     (case listen r last_id of
        None \<Rightarrow> None
      | Some (l, sent, e) \<Rightarrow>
          (case poll_drains (take 15 (fr_polls r)) l of
             None \<Rightarrow> None
           | Some (l', sent') \<Rightarrow> map_option (\<lambda>(l'', sent''). (l'', sent @ sent' @ sent'')) (poll_new_notes rs l')))"

section \<open>The tables as feeds\<close>

definition notes_ok :: "db \<Rightarrow> bool" where
  "notes_ok d \<longleftrightarrow> sorted_wrt (<) (map e_id (encrypted_notes d))"

text \<open>One request of \<open>/v1/notes\<close>, as the client sees it.\<close>

definition notes_request :: "string option \<Rightarrow> db \<Rightarrow> int \<Rightarrow> note_row list \<times> int option" where
  "notes_request pool d cursor =
     (case list_notes (Some cursor) pool None d of
        Inr p \<Rightarrow> (np_notes p, np_next_cursor p) | Inl e \<Rightarrow> ([], None))"

lemma sorted_wrt_imp_sorted: "sorted_wrt (<) (xs :: int list) \<Longrightarrow> sorted xs"
  by (simp add: strict_sorted_iff)

lemma select_notes:
  assumes "sorted_wrt (<) (map e_id rows)"
  shows "select_by e_id P rows = filter P rows"
  using sorted_wrt_imp_sorted[OF assms] by (rule select_by_sorted_table)

lemma notes_query:
  "notes_ok d \<Longrightarrow> query_after n e_id P c (encrypted_notes d) = take n (filter (\<lambda>r. P r \<and> c < e_id r) (encrypted_notes d))"
  by (simp add: query_after_def notes_ok_def select_notes)

interpretation notes_feed: cursor_feed notes_ok "\<lambda>d. filter (pool_is pool) (encrypted_notes d)" e_id
    "notes_request pool" PAGE_SIZE for pool
proof (unfold_locales, goal_cases)
  case (1 d)
  then show ?case by (simp add: notes_ok_def sorted_wrt_map sorted_wrt_filter)
next
  case (2 d c)
  then show ?case by (simp add: notes_request_def list_notes_def notes_query Let_def)
next
  case (3 d c)
  then show ?case by (simp add: notes_request_def list_notes_def Let_def)
qed (simp add: PAGE_SIZE_def)

section \<open>Paging /v1/notes\<close>

definition table_grows :: "db \<Rightarrow> db \<Rightarrow> bool" where
  "table_grows d d' \<longleftrightarrow> (\<exists>more. encrypted_notes d' = encrypted_notes d @ more)"

text \<open>
  C22. Following \<open>next_cursor\<close> from any cursor while the indexer keeps inserting: the pages
  together are exactly the notes of the filtered pool after the cursor that one of the states
  served from holds, every one once and in order; nothing is skipped at the page boundaries.
\<close>

theorem notes_paging_is_exact:
  assumes "follow_pages (notes_request pool) ds c = Some ns"
    and "list_all notes_ok ds" "sorted_wrt table_grows ds"
  shows "\<exists>d \<in> set ds. ns = filter (\<lambda>n. c < e_id n) (filter (pool_is pool) (encrypted_notes d))"
proof -
  have "sorted_wrt (notes_feed.grows pool) ds"
    using assms(3) by (rule sorted_wrt_mono_rel[rotated]) (auto simp: notes_feed.grows_def table_grows_def)
  from notes_feed.follow_growing[OF assms(1,2) this] show ?thesis by (simp add: notes_feed.after_def)
qed

definition sample_note :: "int \<Rightarrow> string \<Rightarrow> note_row" where
  "sample_note i p = \<lparr>e_id = i, e_pool = p, e_commitment = [], e_ephemeral_pubkey = [], e_ciphertext = [],
     e_ledger = 7, e_tx_hash = ''t''\<rparr>"

definition sample_notes_db :: db where
  "sample_notes_db = empty_db\<lparr>encrypted_notes := [sample_note 1 ''A'', sample_note 2 ''B'', sample_note 5 ''A'']\<rparr>"

lemma sample_notes_ok: "notes_ok sample_notes_db"
  by (simp add: notes_ok_def sample_notes_db_def sample_note_def)

theorem notes_paging_is_exact_witness:
  "\<exists>d \<in> {sample_notes_db}. [sample_note 5 ''A'']
     = filter (\<lambda>n. 1 < e_id n) (filter (pool_is (Some ''A'')) (encrypted_notes d))"
proof -
  have "follow_pages (notes_request (Some ''A'')) [sample_notes_db] 1 = Some [sample_note 5 ''A'']"
    using sample_notes_ok
    by (simp add: notes_request_def list_notes_def notes_query Let_def)
       (simp add: sample_notes_db_def sample_note_def pool_is_def PAGE_SIZE_def next_cursor_of_def)
  from notes_paging_is_exact[OF this] show ?thesis by (simp add: sample_notes_ok)
qed

text \<open>
  Paging ends: on a table that stands still, \<open>n\<close> requests suffice for fewer than
  \<open>500 * n\<close> notes, and return them all.
\<close>

theorem notes_paging_ends:
  assumes "notes_ok d"
    and "length (filter (\<lambda>m. c < e_id m) (filter (pool_is pool) (encrypted_notes d))) < n * 500"
  shows "follow_pages (notes_request pool) (replicate n d) c
    = Some (filter (\<lambda>m. c < e_id m) (filter (pool_is pool) (encrypted_notes d)))"
  using notes_feed.follow_static[OF assms(1), where c = c and n = n and pool = pool] assms(2)
  by (simp add: notes_feed.after_def PAGE_SIZE_def)

theorem notes_paging_ends_witness:
  "follow_pages (notes_request None) (replicate 1 sample_notes_db) 1 =
     Some (filter (\<lambda>m. 1 < e_id m) (filter (pool_is None) (encrypted_notes sample_notes_db)))"
  by (rule notes_paging_ends[OF sample_notes_ok]) (simp add: sample_notes_db_def)

section \<open>The fan-out\<close>

text \<open>The part of a table between two cursors.\<close>

definition between :: "int \<Rightarrow> int \<Rightarrow> note_row list \<Rightarrow> note_row list" where
  "between l l' rows = filter (\<lambda>n. l < e_id n \<and> e_id n \<le> l') rows"

lemma between_self [simp]: "between l l rows = []"
  by (auto simp: between_def filter_empty_conv)

lemma between_trans:
  assumes "sorted_wrt (<) (map e_id rows)" "l \<le> l'" "l' \<le> l''"
  shows "between l l' rows @ between l' l'' rows = between l l'' rows"
  using assms
proof (induction rows)
  case (Cons n rows)
  have "between l l' rows = []" if "l' < e_id n"
    using that Cons.prems(1) by (auto simp: between_def filter_empty_conv)
  then show ?case using Cons by (auto simp: between_def)
qed (simp add: between_def)

lemma page_is_between:
  assumes F: "sorted_wrt (<) (map e_id F)" and P: "F = P @ M"
    and page: "page = take n (filter (\<lambda>r. l < e_id r) P)"
    and l': "l' = (if page = [] then l else e_id (last page))"
  shows "page = between l l' F \<and> l \<le> l'"
proof (cases "page = []")
  case False
  define rest where "rest = drop n (filter (\<lambda>r. l < e_id r) P)"
  have split: "filter (\<lambda>r. l < e_id r) F = page @ rest @ filter (\<lambda>r. l < e_id r) M"
    unfolding P page rest_def filter_append by (simp only: append_assoc[symmetric] append_take_drop_id)
  then have inc: "sorted_wrt (<) (map e_id (page @ rest @ filter (\<lambda>r. l < e_id r) M))"
    using F by (metis sorted_wrt_filter sorted_wrt_map)
  obtain zs z where z: "page = zs @ [z]" using False by (metis append_butlast_last_id)
  have "z \<in> set (filter (\<lambda>r. l < e_id r) P)" using z page by (metis in_set_conv_decomp in_set_takeD)
  then have "l \<le> l'" using False z l' by simp
  moreover have "between l l' F = filter (\<lambda>r. e_id r \<le> l') (filter (\<lambda>r. l < e_id r) F)"
    by (auto simp: between_def intro: filter_cong)
  then have "between l l' F = page"
  proof -
    have a: "\<forall>r \<in> set page. e_id r \<le> l'"
      using inc False l' z by (auto simp: sorted_wrt_append intro: less_imp_le)
    have b: "\<forall>r \<in> set (rest @ filter (\<lambda>r. l < e_id r) M). \<not> e_id r \<le> l'"
    proof
      fix r assume "r \<in> set (rest @ filter (\<lambda>r. l < e_id r) M)"
      moreover have "\<forall>y \<in> set (map e_id (rest @ filter (\<lambda>r. l < e_id r) M)). e_id z < y"
        using inc unfolding map_append[of _ page] sorted_wrt_append[of _ "map e_id page"] using z by simp
      ultimately have "e_id z < e_id r" unfolding set_map by blast
      then show "\<not> e_id r \<le> l'" using False l' z by simp
    qed
    assume "between l l' F = filter (\<lambda>r. e_id r \<le> l') (filter (\<lambda>r. l < e_id r) F)"
    then show ?thesis unfolding split filter_append[of _ page] using a b by (simp add: filter_empty_conv)
  qed
  ultimately show ?thesis by simp
qed (use l' in simp)

text \<open>Every table that a query meets is a prefix of the final one.\<close>

definition prefix_of :: "note_row list \<Rightarrow> db \<Rightarrow> bool" where
  "prefix_of F d \<longleftrightarrow> (\<exists>M. F = encrypted_notes d @ M)"

lemma prefix_notes_ok: "sorted_wrt (<) (map e_id F) \<Longrightarrow> prefix_of F d \<Longrightarrow> notes_ok d"
  by (auto simp: prefix_of_def notes_ok_def sorted_wrt_append)

definition sends_exactly :: "note_row list \<Rightarrow> int \<Rightarrow> (int \<times> note_row list) option \<Rightarrow> bool" where
  "sends_exactly F l res \<longleftrightarrow> (\<forall>l' sent. res = Some (l', sent) \<longrightarrow> l \<le> l' \<and> sent = between l l' F)"

lemma drain_sends_exactly:
  assumes "sorted_wrt (<) (map e_id F)"
  shows "list_all (\<lambda>q. prefix_of F (snd q)) qs \<Longrightarrow> sends_exactly F l (drain_new_notes qs l)"
proof (induction qs l rule: drain_new_notes.induct)
  case (3 d qs l)
  define rows where "rows = query_after DRAIN_PAGE e_id (\<lambda>_. True) l (encrypted_notes d)"
  define l1 where "l1 = (if rows = [] then l else e_id (last rows))"
  obtain M where M: "F = encrypted_notes d @ M" using 3(2) by (auto simp: prefix_of_def)
  have "notes_ok d" using 3(2) assms by (auto intro: prefix_notes_ok)
  then have "rows = take DRAIN_PAGE (filter (\<lambda>r. l < e_id r) (encrypted_notes d))"
    by (simp add: rows_def notes_query)
  note page = page_is_between[OF assms M this l1_def]
  have step: "drain_new_notes ((None, d) # qs) l =
      (if length rows = DRAIN_PAGE then map_option (\<lambda>(l, sent). (l, rows @ sent)) (drain_new_notes qs l1)
       else Some (l1, rows))"
    by (simp only: drain_new_notes.simps Let_def rows_def[symmetric] l1_def[symmetric])
  show ?case
  proof (cases "length rows = DRAIN_PAGE")
    case True
    then have "sends_exactly F l1 (drain_new_notes qs l1)"
      using 3(1)[OF rows_def l1_def] 3(2) by simp
    with True page between_trans[OF assms] show ?thesis
      unfolding step sends_exactly_def by auto
  qed (use page step in \<open>simp add: sends_exactly_def\<close>)
qed (simp_all add: sends_exactly_def)

lemma sends_exactly_seq:
  assumes "sorted_wrt (<) (map e_id F)" "l \<le> l1" "sent1 = between l l1 F" "sends_exactly F l1 res"
  shows "sends_exactly F l (map_option (\<lambda>(l', sent'). (l', sent1 @ sent')) res)"
  using assms between_trans[OF assms(1,2)] by (auto simp: sends_exactly_def)

lemma poll_drains_sends_exactly:
  assumes "sorted_wrt (<) (map e_id F)"
  shows "list_all (list_all (\<lambda>q. prefix_of F (snd q))) qss \<Longrightarrow> sends_exactly F l (poll_drains qss l)"
proof (induction qss l rule: poll_drains.induct)
  case (2 qs rest l)
  then show ?case using drain_sends_exactly[OF assms, of qs l] sends_exactly_seq[OF assms]
    by (auto simp: sends_exactly_def[of F l "drain_new_notes qs l"] split: option.splits)
       (simp add: sends_exactly_def)
qed (simp add: sends_exactly_def)

lemma listen_loop_sends_exactly:
  assumes "sorted_wrt (<) (map e_id F)"
  shows "list_all (\<lambda>e. list_all (\<lambda>q. prefix_of F (snd q)) (fst e)) env \<Longrightarrow>
    sends_exactly F l (map_option (\<lambda>(l, sent, e). (l, sent)) (listen_loop env l))"
proof (induction env l rule: listen_loop.induct)
  case (2 qs w env l)
  show ?case
  proof (cases "drain_new_notes qs l")
    case (Some r)
    obtain l1 sent1 where r: "r = (l1, sent1)" by (cases r)
    have one: "l \<le> l1" "sent1 = between l l1 F"
      using drain_sends_exactly[OF assms, of qs l] 2(3) Some r by (auto simp: sends_exactly_def)
    have "sends_exactly F l1 (map_option (\<lambda>(l, sent, e). (l, sent)) (listen_loop env l1))" if "\<forall>e. w \<noteq> RecvError e"
      using 2(1,2)[OF Some r[symmetric]] that 2(3) by (cases w) auto
    from sends_exactly_seq[OF assms one this] show ?thesis
      using Some r one by (cases w) (auto simp: option.map_comp comp_def case_prod_beta sends_exactly_def)
  qed (simp add: sends_exactly_def)
qed (simp add: sends_exactly_def)

definition round_queries :: "fan_out_round \<Rightarrow> (db_call \<times> db) list" where
  "round_queries r = concat (map fst (fr_loop r)) @ concat (fr_polls r)"

lemma list_all_concat: "list_all P (concat xss) = list_all (list_all P) xss"
  by (induction xss) auto

lemma poll_new_notes_sends_exactly:
  assumes F: "sorted_wrt (<) (map e_id F)"
  shows "list_all (\<lambda>r. list_all (\<lambda>q. prefix_of F (snd q)) (round_queries r)) rounds \<Longrightarrow>
    sends_exactly F l (poll_new_notes rounds l)"
proof (induction rounds l rule: poll_new_notes.induct)
  case (2 r rs l)
  show ?case
  proof (cases "listen r l")
    case (Some res)
    obtain l1 sent1 e where res: "res = (l1, sent1, e)" by (cases res)
    have "list_all (\<lambda>e. list_all (\<lambda>q. prefix_of F (snd q)) (fst e)) (fr_loop r)"
      using 2(2) by (simp add: round_queries_def list_all_concat list.pred_map comp_def)
    from listen_loop_sends_exactly[OF F this, of l] have one: "l \<le> l1" "sent1 = between l l1 F"
      using Some res by (auto simp: listen_def sends_exactly_def split: option.splits)
    have "list_all (list_all (\<lambda>q. prefix_of F (snd q))) (take 15 (fr_polls r))"
      using 2(2) by (auto simp: round_queries_def list_all_concat list_all_iff dest: in_set_takeD)
    note polls = poll_drains_sends_exactly[OF F this, of l1]
    show ?thesis
    proof (cases "poll_drains (take 15 (fr_polls r)) l1")
      case (Some res2)
      obtain l2 sent2 where res2: "res2 = (l2, sent2)" by (cases res2)
      have two: "l1 \<le> l2" "sent2 = between l1 l2 F" using polls Some res2 by (auto simp: sends_exactly_def)
      have "sends_exactly F l2 (poll_new_notes rs l2)"
        using 2 Some \<open>listen r l = Some res\<close> res res2 by auto
      then show ?thesis
        using Some \<open>listen r l = Some res\<close> res res2 one two between_trans[OF F]
        by (auto simp: sends_exactly_def)
    qed (use \<open>listen r l = Some res\<close> res in \<open>simp add: sends_exactly_def\<close>)
  qed (simp add: sends_exactly_def)
qed (simp add: sends_exactly_def)

text \<open>
  C21. The fan-out broadcasts every note once and in order: whatever connections break, queries
  fail, notifications get lost or time out, what was sent between two cursors is exactly the
  table between them.  Rows arrive while it runs: each query meets some prefix of the table.
\<close>

theorem fan_out_is_exactly_once:
  assumes "sorted_wrt (<) (map e_id F)"
    and "list_all (\<lambda>r. list_all (\<lambda>q. prefix_of F (snd q)) (round_queries r)) rounds"
    and "poll_new_notes rounds l = Some (l', sent)"
  shows "l \<le> l' \<and> sent = filter (\<lambda>n. l < e_id n \<and> e_id n \<le> l') F"
  using poll_new_notes_sends_exactly[OF assms(1,2), of l] assms(3) by (simp add: sends_exactly_def between_def)

text \<open>A first query that fails, a notification, a drain, a broken connection, then a poll.\<close>

definition sample_rounds :: "fan_out_round list" where
  "sample_rounds = [\<lparr>fr_connect = None, fr_listen = None,
     fr_loop = [([(Some (SqlxOther ''down''), sample_notes_db)], Notification),
                ([(None, sample_notes_db)], RecvError (SqlxOther ''gone''))],
     fr_polls = [[(None, sample_notes_db)]]\<rparr>]"

lemma sample_rounds_run: "poll_new_notes sample_rounds 1 =
  Some (5, [sample_note 2 ''B'', sample_note 5 ''A''])"
  by (simp add: sample_rounds_def listen_def notes_query[OF sample_notes_ok] Let_def)
     (simp add: sample_notes_db_def sample_note_def DRAIN_PAGE_def)

theorem fan_out_is_exactly_once_witness:
  "(1 :: int) \<le> 5 \<and> [sample_note 2 ''B'', sample_note 5 ''A'']
     = filter (\<lambda>n. 1 < e_id n \<and> e_id n \<le> 5) (encrypted_notes sample_notes_db)"
  by (rule fan_out_is_exactly_once[OF _ _ sample_rounds_run])
     (use sample_notes_ok in \<open>simp_all add: notes_ok_def sample_rounds_def round_queries_def prefix_of_def\<close>)

text \<open>The queries of a drain are a feed, too.\<close>

definition drain_request :: "db \<Rightarrow> int \<Rightarrow> note_row list \<times> int option" where
  "drain_request d c =
     (let rows = query_after DRAIN_PAGE e_id (\<lambda>_. True) c (encrypted_notes d)
      in (rows, next_cursor_of DRAIN_PAGE e_id rows))"

interpretation drain_feed: cursor_feed notes_ok encrypted_notes e_id drain_request DRAIN_PAGE
  by unfold_locales (simp_all add: notes_ok_def drain_request_def Let_def notes_query DRAIN_PAGE_def)

lemma drain_is_follow:
  "map_option snd (drain_new_notes (map (Pair None) ds) c) = follow_pages drain_request ds c"
proof (induction ds arbitrary: c)
  case (Cons d ds)
  define rows where "rows = query_after DRAIN_PAGE e_id (\<lambda>_. True) c (encrypted_notes d)"
  have "rows \<noteq> []" if "length rows = DRAIN_PAGE" using that by (auto simp: DRAIN_PAGE_def)
  moreover have "drain_request d c = (rows, next_cursor_of DRAIN_PAGE e_id rows)"
    by (simp add: drain_request_def Let_def rows_def)
  moreover have "drain_new_notes (map (Pair None) (d # ds)) c =
      (if length rows = DRAIN_PAGE
       then map_option (\<lambda>(l, sent). (l, rows @ sent)) (drain_new_notes (map (Pair None) ds) (if rows = [] then c else e_id (last rows)))
       else Some (if rows = [] then c else e_id (last rows), rows))"
    by (simp only: list.map drain_new_notes.simps Let_def rows_def[symmetric])
  ultimately show ?case
    using Cons[of "e_id (last rows)", symmetric]
    by (auto simp: next_cursor_of_def option.map_comp comp_def case_prod_beta)
qed simp

text \<open>
  A wake-up catches up: when its queries do not fail, a drain ends and has broadcast every
  note of the table after the cursor, however many pages they fill.
\<close>

theorem drain_catches_up:
  assumes "notes_ok d" "length (filter (\<lambda>m. l < e_id m) (encrypted_notes d)) < n * 1000"
  shows "map_option snd (drain_new_notes (replicate n (None, d)) l)
    = Some (filter (\<lambda>m. l < e_id m) (encrypted_notes d))"
  using drain_feed.follow_static[OF assms(1), where c = l and n = n] assms(2) drain_is_follow[of "replicate n d" l]
  by (simp add: drain_feed.after_def DRAIN_PAGE_def)

theorem drain_catches_up_witness:
  "map_option snd (drain_new_notes (replicate 1 (None, sample_notes_db)) 1)
    = Some (filter (\<lambda>m. 1 < e_id m) (encrypted_notes sample_notes_db))"
  by (rule drain_catches_up[OF sample_notes_ok]) (simp add: sample_notes_db_def)

section \<open>Resumed streams\<close>

lemma live_events_increasing:
  "sorted_wrt (<) (map e_id ns) \<Longrightarrow>
   live_events hex_encode pools l (map Note ns)
     = List.map_filter (note_event hex_encode) (filter (\<lambda>n. l < e_id n \<and> pool_in pools n) ns)"
proof (induction ns arbitrary: l)
  case (Cons n ns)
  have "filter (\<lambda>m. l < e_id m \<and> pool_in pools m) ns = filter (\<lambda>m. e_id n < e_id m \<and> pool_in pools m) ns"
    if "l < e_id n"
    using that Cons.prems by (intro filter_cong) auto
  then show ?case using Cons by (auto simp: live_step_def note_event_def List.map_filter_def)
qed (simp add: List.map_filter_def)

lemma replay_then_live:
  assumes F: "sorted_wrt (<) (map e_id F)" and P: "F = P @ M"
    and b: "\<forall>n \<in> set M. b < e_id n"
    and last: "last_id = (let rows = filter (\<lambda>n. Q n \<and> c < e_id n) P in if rows = [] then c else e_id (last rows))"
  shows "filter (\<lambda>n. Q n \<and> c < e_id n) P @ filter (\<lambda>n. last_id < e_id n \<and> Q n) (between b l F)
    = filter (\<lambda>n. Q n \<and> c < e_id n \<and> (n \<in> set P \<or> e_id n \<le> l)) F"
proof -
  define R where "R = filter (\<lambda>n. Q n \<and> c < e_id n) P"
  have incP: "sorted_wrt (<) (map e_id P)" and PM: "\<forall>n \<in> set P. \<forall>m \<in> set M. e_id n < e_id m"
    using F by (auto simp: P sorted_wrt_append)
  have "c \<le> last_id"
    using last last_in_set[of R] by (auto simp: R_def Let_def)
  have in_P: "last_id = c \<or> (\<exists>n \<in> set P. last_id = e_id n)"
    using last last_in_set[of R] by (auto simp: R_def Let_def split: if_splits)
  have none: "\<not> last_id < e_id n" if "n \<in> set P" "Q n" for n
  proof (cases "c < e_id n")
    case True
    then have "n \<in> set R" using that by (simp add: R_def)
    have "sorted (map e_id R)" unfolding R_def using incP by (intro sorted_wrt_imp_sorted) (simp add: sorted_wrt_filter sorted_wrt_map)
    obtain zs z where "R = zs @ [z]" using \<open>n \<in> set R\<close> by (metis append_butlast_last_id empty_iff list.set(1))
    then have "e_id n \<le> e_id (last R)" using \<open>n \<in> set R\<close> \<open>sorted (map e_id R)\<close> by (auto simp: sorted_append)
    moreover have "R \<noteq> []" using \<open>n \<in> set R\<close> by auto
    then have "last_id = e_id (last R)" using last unfolding R_def[symmetric] by (simp add: Let_def)
    ultimately show ?thesis by simp
  qed (use \<open>c \<le> last_id\<close> in simp)
  have 1: "filter (\<lambda>n. last_id < e_id n \<and> Q n) (between b l P) = []"
    using none by (auto simp: filter_empty_conv between_def)
  have 2: "filter (\<lambda>n. last_id < e_id n \<and> Q n) (between b l M)
      = filter (\<lambda>n. Q n \<and> c < e_id n \<and> (n \<in> set P \<or> e_id n \<le> l)) M"
    unfolding between_def filter_filter
  proof (rule filter_cong[OF refl])
    fix n assume n: "n \<in> set M"
    have "last_id < e_id n \<longleftrightarrow> c < e_id n" using in_P PM n \<open>c \<le> last_id\<close> by auto
    moreover have "n \<notin> set P" using PM n by auto
    ultimately show "((b < e_id n \<and> e_id n \<le> l) \<and> last_id < e_id n \<and> Q n)
      = (Q n \<and> c < e_id n \<and> (n \<in> set P \<or> e_id n \<le> l))" using b n by auto
  qed
  have 3: "filter (\<lambda>n. Q n \<and> c < e_id n) P = filter (\<lambda>n. Q n \<and> c < e_id n \<and> (n \<in> set P \<or> e_id n \<le> l)) P"
    by (rule filter_cong) auto
  show ?thesis using 1 2 3 by (simp add: P between_def)
qed

text \<open>
  A resumed stream has no gaps and no duplicates.  The client resumes at cursor \<open>c\<close>, the
  replay query sees the table of \<open>d\<close>, the subscription was taken before it, when the fan-out
  stood at \<open>b\<close> (so later rows have larger ids), and the fan-out has since moved to \<open>l\<close> without
  overflowing the channel.  If fewer than \<open>REPLAY_LIMIT\<close> rows were pending, the client
  receives exactly one event for every note of its pools after \<open>c\<close>, in the order of the
  table: those of the replay and those the fan-out has reached.
\<close>

theorem resumed_stream_is_exact:
  assumes "sorted_wrt (<) (map e_id F)" and "F = encrypted_notes d @ M"
    and "\<forall>n \<in> set M. b < e_id n"
    and "resume_from last_event_id since_cursor = Some c"
    and "stream_notes hex_encode ip last_event_id since_cursor pool None d sl = (sl', Inr st)"
    and "length (replay_rows (map_option csv pool) c d) < REPLAY_LIMIT"
  shows "client_events hex_encode st (map Note (filter (\<lambda>n. b < e_id n \<and> e_id n \<le> l) F))
    = List.map_filter (note_event hex_encode)
        (filter (\<lambda>n. pool_in (map_option csv pool) n \<and> c < e_id n \<and> (n \<in> set (encrypted_notes d) \<or> e_id n \<le> l)) F)"
proof -
  let ?Q = "pool_in (map_option csv pool)"
  have ok: "notes_ok d" using assms(1,2) by (simp add: notes_ok_def sorted_wrt_append)
  have rows: "replay_rows (map_option csv pool) c d = filter (\<lambda>n. ?Q n \<and> c < e_id n) (encrypted_notes d)"
    using assms(6) by (simp add: replay_rows_def notes_query[OF ok])
  define last_id where "last_id = (let rows = filter (\<lambda>n. ?Q n \<and> c < e_id n) (encrypted_notes d)
      in if rows = [] then c else e_id (last rows))"
  have st: "st = (replay_events hex_encode (filter (\<lambda>n. ?Q n \<and> c < e_id n) (encrypted_notes d)), last_id, map_option csv pool)"
    using assms(4,5) by (auto simp: stream_notes_def Let_def rows last_id_def split: prod.splits bool.splits if_splits)
  have live: "live_events hex_encode (map_option csv pool) last_id (map Note (between b l F))
      = List.map_filter (note_event hex_encode) (filter (\<lambda>n. last_id < e_id n \<and> ?Q n) (between b l F))"
    using assms(1) by (intro live_events_increasing) (simp add: between_def sorted_wrt_filter sorted_wrt_map)
  show ?thesis
    unfolding replay_then_live[OF assms(1,2,3) last_id_def, symmetric] st
    using live assms(6) by (simp add: client_events_def replay_events_def rows between_def List.map_filter_def)
qed

definition sample_old_db :: db where
  "sample_old_db = empty_db\<lparr>encrypted_notes := [sample_note 1 ''A'', sample_note 2 ''B'']\<rparr>"

theorem resumed_stream_is_exact_witness:
  "client_events sample_hex_encode ([], 1, Some [''A''])
     (map Note (filter (\<lambda>n. 2 < e_id n \<and> e_id n \<le> 5) (encrypted_notes sample_notes_db)))
   = List.map_filter (note_event sample_hex_encode)
       (filter (\<lambda>n. pool_in (map_option csv (Some ''A'')) n \<and> 1 < e_id n
          \<and> (n \<in> set (encrypted_notes sample_old_db) \<or> e_id n \<le> 5)) (encrypted_notes sample_notes_db))"
proof (rule resumed_stream_is_exact[where M = "[sample_note 5 ''A'']" and ip = "V4 1" and sl = "new_slots 1 1"
      and last_event_id = None and since_cursor = "Some 1" and sl' = "fst (sse_try_acquire (V4 1) (new_slots 1 1))"])
  show "sorted_wrt (<) (map e_id (encrypted_notes sample_notes_db))" using sample_notes_ok by (simp add: notes_ok_def)
  have pool: "map_option csv (Some ''A'') = Some [''A'']"
    by (simp add: csv_def str_trim_def is_ws_def)
  have old: "notes_ok sample_old_db" by (simp add: notes_ok_def sample_old_db_def sample_note_def)
  have rows: "replay_rows (Some [''A'']) 1 sample_old_db = []"
    unfolding replay_rows_def notes_query[OF old] by (simp add: sample_old_db_def sample_note_def pool_in_def)
  show "length (replay_rows (map_option csv (Some ''A'')) 1 sample_old_db) < REPLAY_LIMIT"
    unfolding pool rows by (simp add: REPLAY_LIMIT_def)
  show "stream_notes sample_hex_encode (V4 1) None (Some 1) (Some ''A'') None sample_old_db (new_slots 1 1)
      = (fst (sse_try_acquire (V4 1) (new_slots 1 1)), Inr ([], 1, Some [''A'']))"
    unfolding stream_notes_def pool
    by (simp add: sse_try_acquire_def sse_global_full_def sse_count_ip_def new_slots_def resume_from_def rows
        replay_events_def REPLAY_LIMIT_def List.map_filter_def)
qed (simp_all add: sample_notes_db_def sample_old_db_def sample_note_def resume_from_def)

end
