(* ===== verification/Events.thy ===== *)
theory Events
  imports RustStd
begin

unbundle bit_operations_syntax

text \<open>
  Decoding of contract events, \<open>crates/attesta-indexer/src/events.rs\<close>, and the wire types of
  \<open>rpc.rs\<close>.  The XDR and hex decoders and the deserialisers that \<open>serde\<close> derives for the JSON
  shim are code of other crates: the fields of \<open>event_lib\<close>, a parameter of every definition.
  \<open>scval\<close> has the constructors of \<open>stellar_xdr::ScVal\<close> that the decoder looks at; the text in
  \<open>ScString\<close> and \<open>ScSymbol\<close> is what that crate's \<open>to_string\<close> yields.
\<close>

section \<open>Wire types\<close>

record raw_event =
  re_id :: string
  re_contract_id :: string
  re_ledger :: "64 word"
  re_tx_hash :: string
  re_topic :: "string list"
  re_value :: string

record events_page =
  ep_events :: "raw_event list"
  ep_cursor :: "string option"
  ep_latest_ledger :: "64 word"

datatype scval =
    ScU32 "32 word"
  | ScU64 "64 word"
  | ScI64 "64 word"
  | ScI128 "64 word" "64 word"      \<comment> \<open>\<open>hi: i64\<close>, \<open>lo: u64\<close>\<close>
  | ScBytes "byte list"
  | ScString string
  | ScSymbol string
  | ScVec "scval list option"
  | ScMap "(scval \<times> scval) list option"
  | ScOther                          \<comment> \<open>every other variant\<close>

datatype pool_event =
    NewCommitment "byte list" int "int option" "string option"
  | NullifierSpent "byte list"
  | EncryptedNote "byte list" "byte list" "byte list"
  | Withdrawal int string
  | IssuerUpdated string string "byte list" "string list" string

record new_commitment_shim =
  ns_commitment :: string
  ns_leaf_index :: int
  ns_deposit_amount :: "string option"
  ns_asset :: "string option"

record note_shim =
  os_commitment :: string
  os_ephemeral_pubkey :: string
  os_ciphertext :: string

record withdrawal_shim =
  ws_amount :: string
  ws_asset :: string

record issuer_shim =
  is_issuer_id :: string
  is_name :: string
  is_public_key :: string
  is_claim_types :: "string list"
  is_status :: string

record event_lib =
  xdr_base64 :: "string \<Rightarrow> scval option"
  hex_dec :: "string \<Rightarrow> byte list option"
  json_commitment :: "string \<Rightarrow> new_commitment_shim option"
  json_nullifier :: "string \<Rightarrow> string option"     \<comment> \<open>\<open>NullifierShim\<close>: its one field\<close>
  json_note :: "string \<Rightarrow> note_shim option"
  json_withdrawal :: "string \<Rightarrow> withdrawal_shim option"
  json_issuer :: "string \<Rightarrow> issuer_shim option"

section \<open>XDR helpers\<close>

definition scval_b64 :: "event_lib \<Rightarrow> string \<Rightarrow> scval option" where
  "scval_b64 lib s = xdr_base64 lib s"

definition value_map :: "event_lib \<Rightarrow> raw_event \<Rightarrow> (scval \<times> scval) list option" where
  "value_map lib raw = (case scval_b64 lib (re_value raw) of Some (ScMap (Some m)) \<Rightarrow> Some m | _ \<Rightarrow> None)"

fun map_get :: "(scval \<times> scval) list \<Rightarrow> string \<Rightarrow> scval option" where
  "map_get [] key = None"
| "map_get ((k, v) # m) key =
     (case k of ScSymbol s \<Rightarrow> if s = key then Some v else map_get m key | _ \<Rightarrow> map_get m key)"

definition sc_bytes :: "scval \<Rightarrow> byte list option" where
  "sc_bytes v = (case v of ScBytes b \<Rightarrow> Some b | _ \<Rightarrow> None)"

text \<open>\<open>try_into\<close> of a byte vector to \<open>[u8; 32]\<close>.\<close>

definition try_into_32 :: "byte list \<Rightarrow> byte list option" where
  "try_into_32 b = (if length b = 32 then Some b else None)"

definition bytes32 :: "scval \<Rightarrow> byte list option" where
  "bytes32 v = Option.bind (sc_bytes v) try_into_32"

definition int64 :: "scval \<Rightarrow> int option" where
  "int64 v = (case v of
     ScU32 n \<Rightarrow> Some (uint n)
   | ScU64 n \<Rightarrow> i64_try_from_u64 n
   | ScI64 n \<Rightarrow> Some (sint n)
   | _ \<Rightarrow> None)"

definition int128 :: "scval \<Rightarrow> int option" where
  "int128 v = (case v of
     ScI128 hi lo \<Rightarrow> Some (sint (push_bit 64 (scast hi) OR ucast lo :: 128 word))
   | ScU64 n \<Rightarrow> Some (uint n)
   | ScI64 n \<Rightarrow> Some (sint n)
   | ScU32 n \<Rightarrow> Some (uint n)
   | _ \<Rightarrow> None)"

definition sc_text :: "scval \<Rightarrow> string option" where
  "sc_text v = (case v of ScString s \<Rightarrow> Some s | ScSymbol s \<Rightarrow> Some s | _ \<Rightarrow> None)"

definition text_vec :: "scval \<Rightarrow> string list option" where
  "text_vec v = (case v of ScVec (Some items) \<Rightarrow> those (map sc_text items) | _ \<Rightarrow> None)"

definition ev_hex_bytes :: "event_lib \<Rightarrow> string \<Rightarrow> byte list option" where
  "ev_hex_bytes lib s = hex_dec lib (trim_0x s)"

definition hex32 :: "event_lib \<Rightarrow> string \<Rightarrow> byte list option" where
  "hex32 lib s = Option.bind (ev_hex_bytes lib s) try_into_32"

section \<open>Decoding\<close>

definition is_lowercase_or_underscore :: "char \<Rightarrow> bool" where
  "is_lowercase_or_underscore c \<longleftrightarrow> (97 \<le> (of_char c :: nat) \<and> (of_char c :: nat) \<le> 122) \<or> c = CHR ''_''"

definition event_name :: "event_lib \<Rightarrow> raw_event \<Rightarrow> string option" where
  "event_name lib raw = (case re_topic raw of
     [] \<Rightarrow> None
   | first # _ \<Rightarrow>
       (case scval_b64 lib first of
          Some (ScSymbol s) \<Rightarrow> Some s
        | _ \<Rightarrow> if list_all is_lowercase_or_underscore first then Some first else None))"

definition decode_new_commitment :: "event_lib \<Rightarrow> raw_event \<Rightarrow> pool_event option" where
  "decode_new_commitment lib raw =
     (case value_map lib raw of
        Some m \<Rightarrow> do {
          c \<leftarrow> map_get m ''commitment''; commitment \<leftarrow> bytes32 c;
          i \<leftarrow> map_get m ''leaf_index''; leaf_index \<leftarrow> int64 i;
          Some (NewCommitment commitment leaf_index
                  (Option.bind (map_get m ''deposit_amount'') int128)
                  (Option.bind (map_get m ''asset'') sc_text)) }
      | None \<Rightarrow> do {
          v \<leftarrow> json_commitment lib (re_value raw);
          commitment \<leftarrow> hex32 lib (ns_commitment v);
          Some (NewCommitment commitment (ns_leaf_index v)
                  (Option.bind (ns_deposit_amount v) (parse_signed 128)) (ns_asset v)) })"

definition decode_nullifier :: "event_lib \<Rightarrow> raw_event \<Rightarrow> pool_event option" where
  "decode_nullifier lib raw =
     (case scval_b64 lib (re_value raw) of
        Some (ScBytes b) \<Rightarrow> map_option NullifierSpent (try_into_32 b)
      | Some (ScMap (Some m)) \<Rightarrow> do {
          v \<leftarrow> map_get m ''nullifier''; n \<leftarrow> bytes32 v; Some (NullifierSpent n) }
      | _ \<Rightarrow> do { v \<leftarrow> json_nullifier lib (re_value raw); n \<leftarrow> hex32 lib v; Some (NullifierSpent n) })"

definition decode_note :: "event_lib \<Rightarrow> raw_event \<Rightarrow> pool_event option" where
  "decode_note lib raw =
     (case value_map lib raw of
        Some m \<Rightarrow> do {
          c \<leftarrow> map_get m ''commitment''; commitment \<leftarrow> bytes32 c;
          k \<leftarrow> map_get m ''ephemeral_pubkey''; ephemeral_pubkey \<leftarrow> sc_bytes k;
          x \<leftarrow> map_get m ''ciphertext''; ciphertext \<leftarrow> sc_bytes x;
          Some (EncryptedNote commitment ephemeral_pubkey ciphertext) }
      | None \<Rightarrow> do {
          v \<leftarrow> json_note lib (re_value raw);
          commitment \<leftarrow> hex32 lib (os_commitment v);
          ephemeral_pubkey \<leftarrow> ev_hex_bytes lib (os_ephemeral_pubkey v);
          ciphertext \<leftarrow> ev_hex_bytes lib (os_ciphertext v);
          Some (EncryptedNote commitment ephemeral_pubkey ciphertext) })"

definition decode_withdrawal :: "event_lib \<Rightarrow> raw_event \<Rightarrow> pool_event option" where
  "decode_withdrawal lib raw =
     (case value_map lib raw of
        Some m \<Rightarrow> do {
          a \<leftarrow> map_get m ''amount''; amount \<leftarrow> int128 a;
          t \<leftarrow> map_get m ''asset''; asset \<leftarrow> sc_text t;
          Some (Withdrawal amount asset) }
      | None \<Rightarrow> do {
          v \<leftarrow> json_withdrawal lib (re_value raw);
          amount \<leftarrow> parse_signed 128 (ws_amount v);
          Some (Withdrawal amount (ws_asset v)) })"

definition decode_issuer :: "event_lib \<Rightarrow> raw_event \<Rightarrow> pool_event option" where
  "decode_issuer lib raw =
     (case value_map lib raw of
        Some m \<Rightarrow> do {
          i \<leftarrow> map_get m ''issuer_id''; issuer_id \<leftarrow> sc_text i;
          n \<leftarrow> map_get m ''name''; name \<leftarrow> sc_text n;
          k \<leftarrow> map_get m ''public_key''; public_key \<leftarrow> sc_bytes k;
          t \<leftarrow> map_get m ''claim_types''; claim_types \<leftarrow> text_vec t;
          s \<leftarrow> map_get m ''status''; status \<leftarrow> sc_text s;
          Some (IssuerUpdated issuer_id name public_key claim_types status) }
      | None \<Rightarrow> do {
          v \<leftarrow> json_issuer lib (re_value raw);
          public_key \<leftarrow> ev_hex_bytes lib (is_public_key v);
          Some (IssuerUpdated (is_issuer_id v) (is_name v) public_key (is_claim_types v) (is_status v)) })"

definition decode :: "event_lib \<Rightarrow> raw_event \<Rightarrow> pool_event option" where
  "decode lib raw = do {
     name \<leftarrow> event_name lib raw;
     if name = ''new_commitment'' then decode_new_commitment lib raw
     else if name = ''nullifier'' then decode_nullifier lib raw
     else if name = ''note'' then decode_note lib raw
     else if name = ''withdrawal'' then decode_withdrawal lib raw
     else if name = ''issuer'' then decode_issuer lib raw
     else None }"

lemmas decode_defs = decode_new_commitment_def decode_nullifier_def decode_note_def
  decode_withdrawal_def decode_issuer_def

section \<open>Integers\<close>

lemma i64_try_from_range: "i64_try_from_u64 n = Some x \<Longrightarrow> in_i64 x"
  by (auto simp: i64_try_from_u64_def in_i64_def split: if_splits) (smt (verit) uint_ge_0)

lemma sint_64_range: "in_i64 (sint (n :: 64 word))"
  using sint_ge[of n] sint_lt[of n] by (simp add: in_i64_def)

lemma int64_range: "int64 v = Some x \<Longrightarrow> in_i64 x"
  using uint_lt2p[where 'a = 32]
  by (auto simp: int64_def sint_64_range split: scval.splits dest: i64_try_from_range)
     (auto simp: in_i64_def intro: less_trans order_trans[OF _ uint_ge_0])

text \<open>The two halves of an \<open>Int128Parts\<close> put together: the two's complement value.\<close>

lemma int128_parts:
  "sint (push_bit 64 (scast (hi :: 64 word)) OR ucast (lo :: 64 word) :: 128 word) = sint hi * 2 ^ 64 + uint lo"
proof -
  let ?h = "push_bit 64 (scast hi) :: 128 word" and ?l = "ucast lo :: 128 word"
  have disj: "?h AND ?l = 0"
    by (rule bit_word_eqI) (auto simp: bit_simps dest: bit_imp_le_length)
  have "(scast hi :: 128 word) = word_of_int (sint hi)" by (simp only: scast_eq)
  then have h: "?h = word_of_int (sint hi * 2 ^ 64)"
    by (simp only: push_bit_eq_mult of_int_mult of_int_power of_int_numeral)
  have l: "?l = word_of_int (uint lo)" by (simp only: ucast_eq)
  have "?h OR ?l = ?h + ?l" using disj by (rule disjunctive_add_eq_or[symmetric])
  also have "\<dots> = word_of_int (sint hi * 2 ^ 64 + uint lo)" by (simp only: h l of_int_add)
  finally have w: "?h OR ?l = word_of_int (sint hi * 2 ^ 64 + uint lo)" .
  have l: "0 \<le> uint lo" "uint lo < 2 ^ 64" using uint_lt2p[of lo] by simp_all
  have h: "- (2 ^ 63) \<le> sint hi" "sint hi < 2 ^ 63" using sint_ge[of hi] sint_lt[of hi] by simp_all
  have "- (2 ^ 127) \<le> sint hi * 2 ^ 64 + uint lo \<and> sint hi * 2 ^ 64 + uint lo < 2 ^ 127"
    using l h by (simp; linarith)
  then show ?thesis
    unfolding w sint_sbintrunc' by (simp add: signed_take_bit_int_eq_self)
qed

lemma int128_range: "int128 v = Some x \<Longrightarrow> in_i128 x"
proof -
  have w: "in_i128 (sint (w :: 128 word))" for w
    using sint_ge[of w] sint_lt[of w] by (simp add: in_i128_def)
  have u: "in_i128 (uint (n :: 64 word))" for n using uint_lt2p[of n] uint_ge_0[of n] unfolding in_i128_def by (simp; linarith)
  have s: "in_i128 (sint (n :: 64 word))" for n using sint_ge[of n] sint_lt[of n] unfolding in_i128_def by simp
  have u32: "in_i128 (uint (n :: 32 word))" for n using uint_lt2p[of n] uint_ge_0[of n] unfolding in_i128_def by (simp; linarith)
  assume "int128 v = Some x"
  then show ?thesis by (auto simp: int128_def w u s u32 split: scval.splits)
qed

lemma try_into_32_length: "try_into_32 b = Some c \<Longrightarrow> length c = 32"
  by (simp add: try_into_32_def split: if_splits)

lemma bytes32_length: "bytes32 v = Some c \<Longrightarrow> length c = 32"
  by (auto simp: bytes32_def dest: try_into_32_length split: bind_splits)

lemma hex32_length: "hex32 lib s = Some c \<Longrightarrow> length c = 32"
  by (auto simp: hex32_def dest: try_into_32_length split: bind_splits)

lemma parse_i128_range: "parse_signed 128 s = Some x \<Longrightarrow> in_i128 x"
  using parse_signed_range[of 128 s x] by (simp add: in_i128_def)

section \<open>Well-formed events\<close>

fun event_ok :: "pool_event \<Rightarrow> bool" where
  "event_ok (NewCommitment c i a t) \<longleftrightarrow> length c = 32 \<and> in_i64 i \<and> (case a of None \<Rightarrow> True | Some x \<Rightarrow> in_i128 x)"
| "event_ok (NullifierSpent n) \<longleftrightarrow> length n = 32"
| "event_ok (EncryptedNote c k x) \<longleftrightarrow> length c = 32"
| "event_ok (Withdrawal a t) \<longleftrightarrow> in_i128 a"
| "event_ok (IssuerUpdated i n k ts s) \<longleftrightarrow> True"

text \<open>\<open>serde\<close> reads \<open>leaf_index\<close> as an \<open>i64\<close>.\<close>

definition lib_ok :: "event_lib \<Rightarrow> bool" where
  "lib_ok lib \<longleftrightarrow> (\<forall>s v. json_commitment lib s = Some v \<longrightarrow> in_i64 (ns_leaf_index v))"

lemma decode_event_ok:
  assumes "lib_ok lib" "decode lib raw = Some ev"
  shows "event_ok ev"
proof -
  have "event_ok ev" if "decode_new_commitment lib raw = Some ev"
    using that assms(1)
    by (auto simp: decode_new_commitment_def lib_ok_def bytes32_length hex32_length split: option.splits bind_splits
        dest: int64_range int128_range parse_i128_range)
  moreover have "event_ok ev" if "decode_nullifier lib raw = Some ev"
    using that
    by (auto simp: decode_nullifier_def bytes32_length hex32_length try_into_32_length
        split: option.splits bind_splits scval.splits)
  moreover have "event_ok ev" if "decode_note lib raw = Some ev"
    using that by (auto simp: decode_note_def bytes32_length hex32_length split: option.splits bind_splits)
  moreover have "event_ok ev" if "decode_withdrawal lib raw = Some ev"
    using that by (auto simp: decode_withdrawal_def split: option.splits bind_splits
        dest: int128_range parse_i128_range)
  moreover have "event_ok ev" if "decode_issuer lib raw = Some ev"
    using that by (auto simp: decode_issuer_def split: option.splits bind_splits)
  ultimately show ?thesis using assms(2) by (auto simp: decode_def split: bind_splits if_splits)
qed


section \<open>The published layout\<close>

text \<open>How the contracts publish an event: the table in the header of \<open>events.rs\<close>.\<close>

fun layout_name :: "pool_event \<Rightarrow> string" where
  "layout_name (NewCommitment c i a t) = ''new_commitment''"
| "layout_name (NullifierSpent n) = ''nullifier''"
| "layout_name (EncryptedNote c k x) = ''note''"
| "layout_name (Withdrawal a t) = ''withdrawal''"
| "layout_name (IssuerUpdated i n k ts s) = ''issuer''"

definition sc_i128 :: "int \<Rightarrow> scval" where
  "sc_i128 x = ScI128 (word_of_int (x div 2 ^ 64)) (word_of_int (x mod 2 ^ 64))"

definition optional :: "string \<Rightarrow> ('a \<Rightarrow> scval) \<Rightarrow> 'a option \<Rightarrow> (scval \<times> scval) list" where
  "optional key f a = (case a of None \<Rightarrow> [] | Some x \<Rightarrow> [(ScSymbol key, f x)])"

fun layout_value :: "pool_event \<Rightarrow> scval" where
  "layout_value (NewCommitment c i a t) = ScMap (Some
     ([(ScSymbol ''commitment'', ScBytes c), (ScSymbol ''leaf_index'', ScI64 (word_of_int i))]
      @ optional ''deposit_amount'' sc_i128 a @ optional ''asset'' ScString t))"
| "layout_value (NullifierSpent n) = ScMap (Some [(ScSymbol ''nullifier'', ScBytes n)])"
| "layout_value (EncryptedNote c k x) = ScMap (Some [(ScSymbol ''commitment'', ScBytes c),
     (ScSymbol ''ephemeral_pubkey'', ScBytes k), (ScSymbol ''ciphertext'', ScBytes x)])"
| "layout_value (Withdrawal a t) = ScMap (Some [(ScSymbol ''amount'', sc_i128 a), (ScSymbol ''asset'', ScString t)])"
| "layout_value (IssuerUpdated i n k ts s) = ScMap (Some [(ScSymbol ''issuer_id'', ScString i),
     (ScSymbol ''name'', ScString n), (ScSymbol ''public_key'', ScBytes k),
     (ScSymbol ''claim_types'', ScVec (Some (map ScSymbol ts))), (ScSymbol ''status'', ScSymbol s)])"

lemma sint_word_of_int_64: "in_i64 x \<Longrightarrow> sint (word_of_int x :: 64 word) = x"
  unfolding sint_sbintrunc' in_i64_def by (simp add: signed_take_bit_int_eq_self)

lemma int128_sc_i128: "in_i128 x \<Longrightarrow> int128 (sc_i128 x) = Some x"
proof -
  assume "in_i128 x"
  then have "in_i64 (x div 2 ^ 64)" by (auto simp: in_i128_def in_i64_def)
  moreover have "uint (word_of_int (x mod 2 ^ 64) :: 64 word) = x mod 2 ^ 64"
    by (simp add: uint_word_of_int)
  ultimately show ?thesis by (simp add: int128_def sc_i128_def int128_parts sint_word_of_int_64 del: power_numeral_reduce)
qed

lemma text_vec_symbols: "text_vec (ScVec (Some (map ScSymbol ts))) = Some ts"
  unfolding text_vec_def by (induction ts) (auto simp: sc_text_def)

lemmas sc_readers = bytes32_def sc_bytes_def try_into_32_def sc_text_def

text \<open>
  C33. Round trip: an event published in the layout of the documentation decodes to itself,
  for each of the five kinds of event, with or without the public amount and asset, and for
  every amount in the range of \<open>i128\<close>, negative ones included.
\<close>

theorem decode_inverts_layout:
  assumes "event_ok ev"
    and "xdr_base64 lib topic = Some (ScSymbol (layout_name ev))"
    and "xdr_base64 lib val = Some (layout_value ev)"
    and "re_topic raw = topic # topics" "re_value raw = val"
  shows "decode lib raw = Some ev"
proof -
  have name: "event_name lib raw = Some (layout_name ev)"
    using assms by (simp add: event_name_def scval_b64_def)
  have v: "scval_b64 lib (re_value raw) = Some (layout_value ev)" using assms by (simp add: scval_b64_def)
  show ?thesis
  proof (cases ev)
    case (NewCommitment c i a t)
    have "int64 (ScI64 (word_of_int i)) = Some i"
      using assms(1) NewCommitment by (simp add: int64_def sint_word_of_int_64)
    then show ?thesis
      using name v assms(1) NewCommitment
      by (cases a; cases t)
         (simp_all add: decode_def decode_new_commitment_def value_map_def optional_def sc_readers int128_sc_i128)
  next
    case (IssuerUpdated i n k ts s)
    then show ?thesis using name v
      by (simp add: decode_def decode_issuer_def value_map_def text_vec_symbols sc_readers)
  qed (use name v assms(1) in \<open>simp_all add: decode_def decode_nullifier_def decode_note_def
      decode_withdrawal_def value_map_def sc_readers int128_sc_i128\<close>)
qed

definition sample_lib :: event_lib where
  "sample_lib = \<lparr>xdr_base64 = (\<lambda>s. if s = ''T'' then Some (ScSymbol ''withdrawal'')
        else if s = ''V'' then Some (layout_value (Withdrawal (-5) ''XLM'')) else None),
     hex_dec = (\<lambda>_. None), json_commitment = (\<lambda>_. None), json_nullifier = (\<lambda>_. None),
     json_note = (\<lambda>_. None), json_withdrawal = (\<lambda>_. None), json_issuer = (\<lambda>_. None)\<rparr>"

definition sample_raw :: raw_event where
  "sample_raw = \<lparr>re_id = ''e'', re_contract_id = ''C'', re_ledger = 42, re_tx_hash = ''t'',
     re_topic = [''T''], re_value = ''V''\<rparr>"

theorem decode_inverts_layout_witness: "decode sample_lib sample_raw = Some (Withdrawal (-5) ''XLM'')"
  by (rule decode_inverts_layout[where topic = "''T''" and val = "''V''" and topics = "[]"])
     (simp_all add: sample_lib_def sample_raw_def in_i128_def)

lemma sample_decodes: "decode sample_lib sample_raw = Some (Withdrawal (-5) ''XLM'')"
  by (simp add: decode_def event_name_def decode_withdrawal_def value_map_def scval_b64_def sample_lib_def
      sample_raw_def sc_text_def int128_sc_i128 in_i128_def)


text \<open>
  A malformed deposit amount is dropped, not rejected: a commitment whose
  \<open>deposit_amount\<close> is no integer still decodes, as one without a public amount, so that the
  deposit is never added to the pool's total.
\<close>

theorem malformed_amount_is_swallowed:
  assumes "length c = 32" "int64 i = Some idx" "int128 bad = None"
    and "xdr_base64 lib topic = Some (ScSymbol ''new_commitment'')"
    and "xdr_base64 lib val = Some (ScMap (Some [(ScSymbol ''commitment'', ScBytes c), (ScSymbol ''leaf_index'', i),
           (ScSymbol ''deposit_amount'', bad), (ScSymbol ''asset'', ScString t)]))"
    and "re_topic raw = [topic]" "re_value raw = val"
  shows "decode lib raw = Some (NewCommitment c idx None (Some t))"
  using assms by (simp add: decode_def event_name_def decode_new_commitment_def value_map_def scval_b64_def sc_readers)

theorem malformed_amount_is_swallowed_witness:
  "decode (sample_lib\<lparr>xdr_base64 := (\<lambda>s. if s = ''T'' then Some (ScSymbol ''new_commitment'') else
       Some (ScMap (Some [(ScSymbol ''commitment'', ScBytes (replicate 32 7)), (ScSymbol ''leaf_index'', ScU32 5),
           (ScSymbol ''deposit_amount'', ScString ''12''), (ScSymbol ''asset'', ScString ''USDC'')])))\<rparr>) sample_raw
   = Some (NewCommitment (replicate 32 7) 5 None (Some ''USDC''))"
  by (rule malformed_amount_is_swallowed[where topic = "''T''" and val = "''V''" and i = "ScU32 5" and bad = "ScString ''12''"])
     (simp_all add: sample_raw_def int64_def int128_def)

end
