(* ===== verification/Ingest.thy ===== *)
theory Ingest
  imports Events Notes TreeService
begin

text \<open>
  The indexer, \<open>crates/attesta-indexer/src/ingest.rs\<close>, with the request that \<open>rpc.rs\<close> builds.
  The chain's RPC node, the failures of database statements and the clock are the
  environment \<open>sync_env\<close>; every statement commits on its own, as the code runs them on the
  pool without a transaction.
\<close>

section \<open>The RPC client\<close>

text \<open>\<open>RpcResponse\<close> after transport: \<open>call\<close> turns it into a result.\<close>

record 'a rpc_response =
  rpc_result :: "'a option"
  rpc_error :: "json option"

datatype ingest_error = Transport string | RpcError string json | NoResult string | DbError sqlx_error

definition rpc_call :: "string \<Rightarrow> string + 'a rpc_response \<Rightarrow> ingest_error + 'a" where
  "rpc_call meth reply =
     (case reply of
        Inl e \<Rightarrow> Inl (Transport e)
      | Inr resp \<Rightarrow>
          (case rpc_error resp of
             Some err \<Rightarrow> Inl (RpcError meth err)
           | None \<Rightarrow> (case rpc_result resp of
                       None \<Rightarrow> Inl (NoResult meth)
                     | Some r \<Rightarrow> Inr r)))"

definition get_events_params :: "string \<Rightarrow> 64 word \<Rightarrow> string option \<Rightarrow> json" where
  "get_events_params contract_id start_ledger cursor =
     (let filters = (''filters'', JArr [JObj [(''type'', JStr ''contract''), (''contractIds'', JArr [JStr contract_id])]])
      in case cursor of
           Some c \<Rightarrow> JObj [filters, (''pagination'', JObj [(''limit'', JInt 100), (''cursor'', JStr c)])]
         | None \<Rightarrow> JObj [filters, (''pagination'', JObj [(''limit'', JInt 100)]),
                         (''startLedger'', JInt (max (uint start_ledger) 1))])"

section \<open>Storing an event\<close>

text \<open>A statement: it may fail before it has an effect.\<close>

definition exec_stmt :: "db_call \<Rightarrow> (db \<Rightarrow> sqlx_error + db) \<Rightarrow> db \<Rightarrow> db \<times> ingest_error option" where
  "exec_stmt call stmt d =
     (case call of
        Some e \<Rightarrow> (d, Some (DbError e))
      | None \<Rightarrow> (case stmt d of Inl e \<Rightarrow> (d, Some (DbError e)) | Inr d' \<Rightarrow> (d', None)))"

definition commitment_clash :: "commitment_row \<Rightarrow> commitment_row \<Rightarrow> bool" where
  "commitment_clash r r' \<longleftrightarrow> c_pool r = c_pool r' \<and> (c_leaf_index r = c_leaf_index r' \<or> c_commitment r = c_commitment r')"

definition nullifier_clash :: "nullifier_row \<Rightarrow> nullifier_row \<Rightarrow> bool" where
  "nullifier_clash r r' \<longleftrightarrow> n_pool r = n_pool r' \<and> n_nullifier r = n_nullifier r'"

text \<open>The column type \<open>NUMERIC(39, 0)\<close>.\<close>

definition numeric39 :: "int \<Rightarrow> bool" where
  "numeric39 x \<longleftrightarrow> \<bar>x\<bar> < 10 ^ 39"

definition numeric_out_of_range :: sqlx_error where
  "numeric_out_of_range = SqlxDatabase (Some ''22003'')"

definition add_totals :: "pool_total_row \<Rightarrow> pool_total_row \<Rightarrow> pool_total_row" where
  "add_totals old new = old\<lparr>t_total_in := t_total_in old + t_total_in new,
                             t_total_out := t_total_out old + t_total_out new\<rparr>"

definition add_pool_total :: "db_call \<Rightarrow> string \<Rightarrow> string \<Rightarrow> int \<Rightarrow> int \<Rightarrow> db \<Rightarrow> db \<times> ingest_error option" where
  "add_pool_total call pool asset inflow outflow =
     exec_stmt call (\<lambda>d.
       let rows = upsert_on t_pool add_totals
             \<lparr>t_pool = pool, t_asset = asset, t_total_in = inflow, t_total_out = outflow\<rparr> (pool_totals d)
       in if list_all (\<lambda>t. numeric39 (t_total_in t) \<and> numeric39 (t_total_out t)) rows
          then Inr (d\<lparr>pool_totals := rows\<rparr>) else Inl numeric_out_of_range)"

definition insert_commitment :: "commitment_row \<Rightarrow> db \<Rightarrow> db" where
  "insert_commitment r d = d\<lparr>commitments := insert_new commitment_clash r (commitments d)\<rparr>"

definition insert_nullifier :: "nullifier_row \<Rightarrow> db \<Rightarrow> db" where
  "insert_nullifier r d = d\<lparr>nullifiers := insert_new nullifier_clash r (nullifiers d)\<rparr>"

text \<open>\<open>encrypted_notes.id\<close> is a \<open>BIGSERIAL\<close>.\<close>

definition insert_note :: "note_row \<Rightarrow> db \<Rightarrow> db" where
  "insert_note r d = d\<lparr>encrypted_notes := encrypted_notes d @ [r\<lparr>e_id := note_serial d\<rparr>],
                       note_serial := note_serial d + 1\<rparr>"

definition update_issuer :: "issuer_row \<Rightarrow> issuer_row \<Rightarrow> issuer_row" where
  "update_issuer old new = old\<lparr>i_name := i_name new, i_public_key := i_public_key new,
     i_claim_types := i_claim_types new, i_status := i_status new\<rparr>"

definition upsert_issuer :: "issuer_row \<Rightarrow> db \<Rightarrow> db" where
  "upsert_issuer r d = d\<lparr>issuers := upsert_on i_issuer_id update_issuer r (issuers d)\<rparr>"

text \<open>The two calls are the outcomes of the event's first and second statement.\<close>

fun store_event :: "db_call \<times> db_call \<Rightarrow> string \<Rightarrow> int \<Rightarrow> string \<Rightarrow> pool_event \<Rightarrow> db \<Rightarrow> db \<times> ingest_error option" where
  "store_event (call1, call2) contract_id ledger tx_hash (NewCommitment commitment leaf_index deposit_amount asset) d =
     (case exec_stmt call1 (Inr \<circ> insert_commitment \<lparr>c_pool = contract_id, c_leaf_index = leaf_index,
             c_commitment = commitment, c_ledger = ledger, c_tx_hash = tx_hash\<rparr>) d of
        (d', Some e) \<Rightarrow> (d', Some e)
      | (d', None) \<Rightarrow>
          (case (deposit_amount, asset) of
             (Some amount, Some a) \<Rightarrow> add_pool_total call2 contract_id a amount 0 d'
           | _ \<Rightarrow> (d', None)))"
| "store_event (call1, call2) contract_id ledger tx_hash (NullifierSpent nullifier) d =
     exec_stmt call1 (Inr \<circ> insert_nullifier \<lparr>n_pool = contract_id, n_nullifier = nullifier, n_ledger = ledger,
       n_tx_hash = tx_hash\<rparr>) d"
| "store_event (call1, call2) contract_id ledger tx_hash (EncryptedNote commitment ephemeral_pubkey ciphertext) d =
     exec_stmt call1 (Inr \<circ> insert_note \<lparr>e_id = 0, e_pool = contract_id, e_commitment = commitment,
       e_ephemeral_pubkey = ephemeral_pubkey, e_ciphertext = ciphertext, e_ledger = ledger, e_tx_hash = tx_hash\<rparr>) d"
| "store_event (call1, call2) contract_id ledger tx_hash (Withdrawal amount asset) d =
     add_pool_total call1 contract_id asset 0 amount d"
| "store_event (call1, call2) contract_id ledger tx_hash (IssuerUpdated issuer_id name public_key claim_types st) d =
     exec_stmt call1 (Inr \<circ> upsert_issuer \<lparr>i_issuer_id = issuer_id, i_name = name, i_public_key = public_key,
       i_claim_types = claim_types, i_status = st, i_registered_ledger = ledger\<rparr>) d"

section \<open>Syncing a contract\<close>

text \<open>The events of one page; the result carries the ledger reached and the error that stopped it.\<close>

fun store_page :: "event_lib \<Rightarrow> (nat \<Rightarrow> db_call \<times> db_call) \<Rightarrow> string \<Rightarrow> nat \<Rightarrow> raw_event list \<Rightarrow> int \<Rightarrow> db
    \<Rightarrow> db \<times> int \<times> ingest_error option" where
  "store_page lib faults contract_id k [] last_ledger d = (d, last_ledger, None)"
| "store_page lib faults contract_id k (raw # raws) last_ledger d =
     (case (case decode lib raw of
              None \<Rightarrow> (d, None)
            | Some event \<Rightarrow> store_event (faults k) contract_id (u64_as_i64 (re_ledger raw)) (re_tx_hash raw) event d) of
        (d', Some e) \<Rightarrow> (d', last_ledger, Some e)
      | (d', None) \<Rightarrow> store_page lib faults contract_id (Suc k) raws (max last_ledger (u64_as_i64 (re_ledger raw))) d')"

record sync_env =
  rpc_reply :: "nat \<Rightarrow> json \<Rightarrow> string + events_page rpc_response"   \<comment> \<open>answer to the n-th request\<close>
  store_faults :: "nat \<Rightarrow> nat \<Rightarrow> db_call \<times> db_call"               \<comment> \<open>by page and event\<close>
  save_fault :: "nat \<Rightarrow> db_call"
  save_time :: "nat \<Rightarrow> int"
  load_fault :: db_call

definition save_cursor :: "int \<Rightarrow> string \<Rightarrow> int \<Rightarrow> string option \<Rightarrow> db \<Rightarrow> db" where
  "save_cursor now contract_id last_ledger cursor d =
     d\<lparr>indexer_cursors := upsert_on k_contract_id
         (\<lambda>old new. old\<lparr>k_last_ledger := k_last_ledger new, k_last_cursor := k_last_cursor new, k_updated_at := k_updated_at new\<rparr>)
         \<lparr>k_contract_id = contract_id, k_last_ledger = last_ledger, k_last_cursor = cursor, k_updated_at = now\<rparr>
         (indexer_cursors d)\<rparr>"

text \<open>
  One turn of the loop, for the \<open>n\<close>-th request: \<open>Inl\<close> the error, or \<open>Inr (done, last_ledger,
  cursor)\<close>.
\<close>

definition sync_turn :: "event_lib \<Rightarrow> sync_env \<Rightarrow> string \<Rightarrow> nat \<Rightarrow> int \<Rightarrow> string option \<Rightarrow> db
    \<Rightarrow> db \<times> (ingest_error + bool \<times> int \<times> string option)" where
  "sync_turn lib env contract_id n last_ledger cursor d =
     (case rpc_call ''getEvents'' (rpc_reply env n
             (get_events_params contract_id (i64_as_u64 last_ledger + 1) cursor)) of
        Inl e \<Rightarrow> (d, Inl e)
      | Inr page \<Rightarrow>
          (case store_page lib (store_faults env n) contract_id 0 (ep_events page) last_ledger d of
             (d', l, Some e) \<Rightarrow> (d', Inl e)
           | (d', l, None) \<Rightarrow>
               let finished = (ep_events page = []);
                   last' = (if finished then max l (u64_as_i64 (ep_latest_ledger page)) else l)
               in (case exec_stmt (save_fault env n)
                          (Inr \<circ> save_cursor (save_time env n) contract_id last' (ep_cursor page)) d' of
                     (d'', Some e) \<Rightarrow> (d'', Inl e)
                   | (d'', None) \<Rightarrow> (d'', Inr (finished, last', ep_cursor page)))))"

fun sync_loop :: "nat \<Rightarrow> event_lib \<Rightarrow> sync_env \<Rightarrow> string \<Rightarrow> nat \<Rightarrow> int \<Rightarrow> string option \<Rightarrow> db
    \<Rightarrow> (db \<times> ingest_error option) option" where
  "sync_loop 0 lib env contract_id n last_ledger cursor d = None"
| "sync_loop (Suc fuel) lib env contract_id n last_ledger cursor d =
     (case sync_turn lib env contract_id n last_ledger cursor d of
        (d', Inl e) \<Rightarrow> Some (d', Some e)
      | (d', Inr (finished, l, c)) \<Rightarrow>
          if finished then Some (d', None) else sync_loop fuel lib env contract_id (Suc n) l c d')"

definition load_cursor :: "string \<Rightarrow> db \<Rightarrow> int \<times> string option" where
  "load_cursor contract_id d =
     (case filter (\<lambda>k. k_contract_id k = contract_id) (indexer_cursors d) of
        [] \<Rightarrow> (0, None) | k # _ \<Rightarrow> (k_last_ledger k, k_last_cursor k))"

definition sync_contract :: "nat \<Rightarrow> event_lib \<Rightarrow> sync_env \<Rightarrow> string \<Rightarrow> db \<Rightarrow> (db \<times> ingest_error option) option" where
  "sync_contract fuel lib env contract_id d =
     (case load_fault env of
        Some e \<Rightarrow> Some (d, Some (DbError e))
      | None \<Rightarrow> (case load_cursor contract_id d of
                  (last_ledger, cursor) \<Rightarrow> sync_loop fuel lib env contract_id 0 last_ledger cursor d))"

text \<open>One pass of \<open>run\<close> over the contracts; an error is logged and the next contract is synced.\<close>

fun run_pass :: "nat \<Rightarrow> event_lib \<Rightarrow> (string \<times> sync_env) list \<Rightarrow> db \<Rightarrow> db option" where
  "run_pass fuel lib [] d = Some d"
| "run_pass fuel lib ((contract_id, env) # rest) d =
     (case sync_contract fuel lib env contract_id d of
        None \<Rightarrow> None
      | Some (d', res) \<Rightarrow> run_pass fuel lib rest d')"

text \<open>
  \<open>run\<close>: one pass after the other until a shutdown signal comes in the pause behind one.  A round
  says what each contract's sync meets and whether that signal comes; \<open>None\<close> when a sync runs out
  of fuel or the rounds are used up, that is while the indexer still runs.
\<close>

primrec indexer_run :: "nat \<Rightarrow> event_lib \<Rightarrow> string list \<Rightarrow> ((string \<Rightarrow> sync_env) \<times> bool) list \<Rightarrow> db \<Rightarrow> db option" where
  "indexer_run fuel lib contracts [] d = None"
| "indexer_run fuel lib contracts (r # rounds) d =
     (case run_pass fuel lib (map (\<lambda>c. (c, fst r c)) contracts) d of
        None \<Rightarrow> None
      | Some d' \<Rightarrow> if snd r then Some d' else indexer_run fuel lib contracts rounds d')"

definition contracts_of :: "string list \<Rightarrow> string option \<Rightarrow> string list" where
  "contracts_of pool_contract_ids registry_contract_id =
     pool_contract_ids @ (case registry_contract_id of None \<Rightarrow> [] | Some reg \<Rightarrow> [reg])"

section \<open>What every statement keeps\<close>

text \<open>
  The constraints of the schema, and what the other components rely on: note ids follow the
  insertion order and stay below the sequence.
\<close>

definition tables_ok :: "db \<Rightarrow> bool" where
  "tables_ok d \<longleftrightarrow>
     unique_leaves d
     \<and> unique_key (\<lambda>r. (c_pool r, c_commitment r)) (commitments d)
     \<and> unique_key (\<lambda>r. (n_pool r, n_nullifier r)) (nullifiers d)
     \<and> unique_key i_issuer_id (issuers d)
     \<and> unique_key t_pool (pool_totals d)
     \<and> unique_key k_contract_id (indexer_cursors d)
     \<and> notes_ok d \<and> (\<forall>n \<in> set (encrypted_notes d). e_id n < note_serial d)
     \<and> (\<forall>r \<in> set (commitments d). length (c_commitment r) = 32)
     \<and> (\<forall>t \<in> set (pool_totals d). numeric39 (t_total_in t) \<and> numeric39 (t_total_out t))"

lemma tables_ok_empty [wf_intros]: "tables_ok empty_db"
  by (simp add: tables_ok_def empty_db_def unique_leaves_def notes_ok_def)

text \<open>The tables that the indexer only appends to grow, and the API's own tables stay.\<close>

definition db_grows :: "db \<Rightarrow> db \<Rightarrow> bool" where
  "db_grows d d' \<longleftrightarrow>
     (\<exists>more. commitments d' = commitments d @ more) \<and> (\<exists>more. nullifiers d' = nullifiers d @ more)
     \<and> table_grows d d' \<and> tree_roots d' = tree_roots d \<and> credential_deliveries d' = credential_deliveries d
     \<and> i_issuer_id ` set (issuers d) \<subseteq> i_issuer_id ` set (issuers d')
     \<and> t_pool ` set (pool_totals d) \<subseteq> t_pool ` set (pool_totals d')"

lemma db_grows_refl [simp]: "db_grows d d"
  by (simp add: db_grows_def table_grows_def)

lemma db_grows_trans: "db_grows d d' \<Longrightarrow> db_grows d' d'' \<Longrightarrow> db_grows d d''"
  by (auto simp: db_grows_def table_grows_def subset_iff)

lemma insert_new_grows: "\<exists>more. insert_new clash r rows = rows @ more"
  by (simp add: insert_new_def)

lemma upsert_keys: "(\<And>r'. key (upd r' r) = key r') \<Longrightarrow> key ` set rows \<subseteq> key ` set (upsert_on key upd r rows)"
proof -
  assume k: "\<And>r'. key (upd r' r) = key r'"
  have "map key (map (\<lambda>r'. if key r' = key r then upd r' r else r') rows) = map key rows" using k by simp
  then have "key ` set (map (\<lambda>r'. if key r' = key r then upd r' r else r') rows) = key ` set rows"
    by (metis set_map)
  then show ?thesis unfolding upsert_on_def by auto
qed

definition keeps :: "(db \<Rightarrow> db) \<Rightarrow> db \<Rightarrow> bool" where
  "keeps f d \<longleftrightarrow> (tables_ok d \<longrightarrow> tables_ok (f d) \<and> db_grows d (f d))"

lemma keeps_commitment: "length (c_commitment r) = 32 \<Longrightarrow> keeps (insert_commitment r) d"
  unfolding keeps_def
proof
  assume len: "length (c_commitment r) = 32" and d: "tables_ok d"
  have "unique_key (\<lambda>r. (c_pool r, c_leaf_index r)) (insert_new commitment_clash r (commitments d))"
    "unique_key (\<lambda>r. (c_pool r, c_commitment r)) (insert_new commitment_clash r (commitments d))"
    using d by (auto intro!: unique_key_insert_new simp: tables_ok_def unique_leaves_def commitment_clash_def)
  moreover have "\<forall>r' \<in> set (insert_new commitment_clash r (commitments d)). length (c_commitment r') = 32"
    using d len by (auto simp: tables_ok_def insert_new_def)
  ultimately show "tables_ok (insert_commitment r d) \<and> db_grows d (insert_commitment r d)"
    using d insert_new_grows[of commitment_clash r "commitments d"]
    by (simp add: tables_ok_def insert_commitment_def unique_leaves_def notes_ok_def db_grows_def table_grows_def)
qed

lemma keeps_nullifier: "keeps (insert_nullifier r) d"
  unfolding keeps_def
proof
  assume d: "tables_ok d"
  have "unique_key (\<lambda>r. (n_pool r, n_nullifier r)) (insert_new nullifier_clash r (nullifiers d))"
    using d by (auto intro!: unique_key_insert_new simp: tables_ok_def nullifier_clash_def)
  then show "tables_ok (insert_nullifier r d) \<and> db_grows d (insert_nullifier r d)"
    using d insert_new_grows[of nullifier_clash r "nullifiers d"]
    by (simp add: tables_ok_def insert_nullifier_def unique_leaves_def notes_ok_def db_grows_def table_grows_def)
qed

lemma keeps_note: "keeps (insert_note r) d"
  by (auto simp: keeps_def tables_ok_def insert_note_def unique_leaves_def notes_ok_def db_grows_def table_grows_def
      sorted_wrt_append intro: less_trans)

lemma keeps_issuer: "keeps (upsert_issuer r) d"
  unfolding keeps_def
proof
  assume d: "tables_ok d"
  have "unique_key i_issuer_id (upsert_on i_issuer_id update_issuer r (issuers d))"
    using d by (auto intro!: unique_key_upsert simp: tables_ok_def update_issuer_def)
  moreover have "i_issuer_id ` set (issuers d) \<subseteq> i_issuer_id ` set (upsert_on i_issuer_id update_issuer r (issuers d))"
    by (rule upsert_keys) (simp add: update_issuer_def)
  ultimately show "tables_ok (upsert_issuer r d) \<and> db_grows d (upsert_issuer r d)"
    using d by (simp add: tables_ok_def upsert_issuer_def unique_leaves_def notes_ok_def db_grows_def table_grows_def)
qed

lemma keeps_cursor: "keeps (save_cursor now contract_id l c) d"
  unfolding keeps_def
proof
  assume d: "tables_ok d"
  have "unique_key k_contract_id (indexer_cursors (save_cursor now contract_id l c d))"
    using d by (auto intro!: unique_key_upsert simp: tables_ok_def save_cursor_def)
  then show "tables_ok (save_cursor now contract_id l c d) \<and> db_grows d (save_cursor now contract_id l c d)"
    using d by (simp add: tables_ok_def save_cursor_def unique_leaves_def notes_ok_def db_grows_def table_grows_def)
qed

definition run_keeps :: "db \<Rightarrow> db \<Rightarrow> bool" where
  "run_keeps d d' \<longleftrightarrow> (tables_ok d \<longrightarrow> tables_ok d' \<and> db_grows d d')"

lemma run_keeps_refl [simp]: "run_keeps d d"
  by (simp add: run_keeps_def)

lemma run_keeps_trans: "run_keeps d d' \<Longrightarrow> run_keeps d' d'' \<Longrightarrow> run_keeps d d''"
  using db_grows_trans by (auto simp: run_keeps_def)

lemma exec_stmt_keeps:
  assumes "\<And>d'. stmt d = Inr d' \<Longrightarrow> run_keeps d d'"
  shows "run_keeps d (fst (exec_stmt call stmt d))"
  using assms by (auto simp: exec_stmt_def split: option.splits sum.splits)

lemma add_pool_total_keeps: "run_keeps d (fst (add_pool_total call pool asset inflow outflow d))"
  unfolding add_pool_total_def
proof (rule exec_stmt_keeps, unfold run_keeps_def, intro impI)
  fix d'
  assume d: "tables_ok d" and st: "(let rows = upsert_on t_pool add_totals
        \<lparr>t_pool = pool, t_asset = asset, t_total_in = inflow, t_total_out = outflow\<rparr> (pool_totals d)
      in if list_all (\<lambda>t. numeric39 (t_total_in t) \<and> numeric39 (t_total_out t)) rows
         then Inr (d\<lparr>pool_totals := rows\<rparr>) else Inl numeric_out_of_range) = Inr d'"
  have "unique_key t_pool (upsert_on t_pool add_totals
      \<lparr>t_pool = pool, t_asset = asset, t_total_in = inflow, t_total_out = outflow\<rparr> (pool_totals d))"
    using d by (auto intro!: unique_key_upsert simp: tables_ok_def add_totals_def)
  moreover have "t_pool ` set (pool_totals d) \<subseteq> t_pool ` set (upsert_on t_pool add_totals
      \<lparr>t_pool = pool, t_asset = asset, t_total_in = inflow, t_total_out = outflow\<rparr> (pool_totals d))"
    by (rule upsert_keys) (simp add: add_totals_def)
  ultimately show "tables_ok d' \<and> db_grows d d'"
    using d st by (auto simp: tables_ok_def Let_def list_all_iff unique_leaves_def notes_ok_def db_grows_def
        table_grows_def split: if_splits)
qed

lemma store_event_keeps:
  assumes "event_ok ev"
  shows "run_keeps d (fst (store_event calls contract ledger tx ev d))"
proof -
  have st: "run_keeps d (fst (exec_stmt call (Inr \<circ> f) d))" if "keeps f d" for call f
    using that by (intro exec_stmt_keeps) (auto simp: keeps_def run_keeps_def)
  obtain call1 call2 where c: "calls = (call1, call2)" by (cases calls)
  show ?thesis
  proof (cases ev)
    case (NewCommitment cm i a t)
    have "length cm = 32" using assms NewCommitment by simp
    define ins where "ins = exec_stmt call1 (Inr \<circ> insert_commitment \<lparr>c_pool = contract, c_leaf_index = i,
             c_commitment = cm, c_ledger = ledger, c_tx_hash = tx\<rparr>) d"
    have "run_keeps d (fst ins)" unfolding ins_def by (rule st) (simp add: keeps_commitment \<open>length cm = 32\<close>)
    then show ?thesis
      using add_pool_total_keeps unfolding NewCommitment c store_event.simps ins_def[symmetric]
      by (auto split: prod.splits option.splits intro: run_keeps_trans)
  next
    case (IssuerUpdated i n k ts s)
    then show ?thesis unfolding c by (simp add: st keeps_issuer)
  qed (simp_all add: c st keeps_nullifier keeps_note add_pool_total_keeps)
qed

lemma store_page_keeps:
  assumes "lib_ok lib"
  shows "run_keeps d (fst (store_page lib faults contract k raws l d))"
proof (induction raws arbitrary: k l d)
  case (Cons raw raws)
  define one where "one = (case decode lib raw of None \<Rightarrow> (d, None)
      | Some ev \<Rightarrow> store_event (faults k) contract (u64_as_i64 (re_ledger raw)) (re_tx_hash raw) ev d)"
  have "run_keeps d (fst one)"
    unfolding one_def using decode_event_ok[OF assms] store_event_keeps by (auto split: option.splits)
  then show ?case
    using Cons unfolding store_page.simps one_def[symmetric]
    by (auto split: prod.splits option.splits intro: run_keeps_trans)
qed simp

lemma sync_turnE:
  assumes "sync_turn lib env contract n l c d = (d', r)"
  obtains (rpc) e where "d' = d" "r = Inl e"
  | (store) page :: events_page and l' e where
      "store_page lib (store_faults env n) contract 0 (ep_events page) l d = (d', l', Some e)" "r = Inl e"
  | (save) page d1 l' last' where
      "rpc_call ''getEvents'' (rpc_reply env n (get_events_params contract (i64_as_u64 l + 1) c)) = Inr page"
      "store_page lib (store_faults env n) contract 0 (ep_events page) l d = (d1, l', None)"
      "last' = (if ep_events page = [] then max l' (u64_as_i64 (ep_latest_ledger page)) else l')"
      "exec_stmt (save_fault env n) (Inr \<circ> save_cursor (save_time env n) contract last' (ep_cursor page)) d1
         = (d', case r of Inl e \<Rightarrow> Some e | Inr _ \<Rightarrow> None)"
      "case r of Inl e \<Rightarrow> True | Inr x \<Rightarrow> x = (ep_events page = [], last', ep_cursor page)"
proof (cases "rpc_call ''getEvents'' (rpc_reply env n (get_events_params contract (i64_as_u64 l + 1) c))")
  case (Inl e)
  then have "d' = d" "r = Inl e" using assms by (simp_all add: sync_turn_def)
  then show ?thesis by (rule rpc)
next
  case (Inr page)
  obtain d1 l' res where pg: "store_page lib (store_faults env n) contract 0 (ep_events page) l d = (d1, l', res)"
    by (cases "store_page lib (store_faults env n) contract 0 (ep_events page) l d")
  show ?thesis
  proof (cases res)
    case (Some e)
    then show ?thesis using assms store pg Inr by (simp add: sync_turn_def)
  next
    case None
    define last' where "last' = (if ep_events page = [] then max l' (u64_as_i64 (ep_latest_ledger page)) else l')"
    obtain d2 res2 where sv: "exec_stmt (save_fault env n)
        (Inr \<circ> save_cursor (save_time env n) contract last' (ep_cursor page)) d1 = (d2, res2)"
      by (cases "exec_stmt (save_fault env n) (Inr \<circ> save_cursor (save_time env n) contract last' (ep_cursor page)) d1")
    have "d' = d2" "r = (case res2 of Some e \<Rightarrow> Inl e | None \<Rightarrow> Inr (ep_events page = [], last', ep_cursor page))"
      using assms sv unfolding sync_turn_def Inr by (simp_all add: pg None Let_def last'_def[symmetric] split: option.splits)
    then show ?thesis
      using save[OF Inr _ last'_def] pg None sv by (auto split: option.splits)
  qed
qed

lemma exec_save_keeps: "run_keeps d (fst (exec_stmt call (Inr \<circ> save_cursor t contract l c) d))"
  using keeps_cursor by (intro exec_stmt_keeps) (auto simp: keeps_def run_keeps_def)

lemma sync_turn_keeps:
  assumes "lib_ok lib" "sync_turn lib env contract n l c d = (d', r)"
  shows "run_keeps d d'"
  using assms(2)
proof (cases rule: sync_turnE)
  case (store page l' e)
  then show ?thesis using store_page_keeps[OF assms(1)] by (metis fst_conv)
next
  case (save page d1 l' last')
  have "run_keeps d d1" using store_page_keeps[OF assms(1)] save(2) by (metis fst_conv)
  moreover have "run_keeps d1 d'" using exec_save_keeps save(4) by (metis fst_conv)
  ultimately show ?thesis by (rule run_keeps_trans)
qed simp

lemma sync_loop_keeps:
  assumes "lib_ok lib"
  shows "sync_loop fuel lib env contract n l c d = Some (d', res) \<Longrightarrow> run_keeps d d'"
proof (induction fuel arbitrary: n l c d)
  case (Suc fuel)
  obtain d1 r where t: "sync_turn lib env contract n l c d = (d1, r)" by (cases "sync_turn lib env contract n l c d")
  have "run_keeps d d1" by (rule sync_turn_keeps[OF assms t])
  then show ?case using Suc t by (auto split: sum.splits if_splits intro: run_keeps_trans)
qed simp

lemma sync_contract_keeps:
  "lib_ok lib \<Longrightarrow> sync_contract fuel lib env contract d = Some (d', res) \<Longrightarrow> run_keeps d d'"
  by (auto simp: sync_contract_def split: option.splits prod.splits dest: sync_loop_keeps)

lemma run_pass_keeps:
  "lib_ok lib \<Longrightarrow> run_pass fuel lib cs d = Some d' \<Longrightarrow> run_keeps d d'"
proof (induction cs arbitrary: d)
  case (Cons c cs)
  then show ?case
    by (cases c) (auto split: option.splits prod.splits dest: sync_contract_keeps intro: run_keeps_trans)
qed simp

lemma indexer_run_keeps:
  "lib_ok lib \<Longrightarrow> indexer_run fuel lib contracts rounds d = Some d' \<Longrightarrow> run_keeps d d'"
proof (induction rounds arbitrary: d)
  case (Cons r rounds)
  then show ?case
    by (auto split: option.splits if_splits dest: run_pass_keeps intro: run_keeps_trans)
qed simp

section \<open>The commitment mirror under inserts\<close>

lemma sorted_split:
  assumes "sorted_wrt (<) (map f xs)"
  shows "xs = filter (\<lambda>x. f x < i) xs @ filter (\<lambda>x. f x = (i :: int)) xs @ filter (\<lambda>x. i < f x) xs"
  using assms
proof (induction xs)
  case (Cons x xs)
  have *: "filter (\<lambda>y. f y < i) xs = []" "filter (\<lambda>y. f y = i) xs = []" if "i \<le> f x"
    using that Cons.prems by (auto simp: filter_empty_conv)
  show ?case using Cons * by (cases "f x < i"; cases "f x = i") auto
qed simp

lemma clean_prefix_append:
  "clean_prefix k (A @ C) = (if length (clean_prefix k A) = length A then A @ clean_prefix (k + length A) C
     else clean_prefix k A)"
proof (induction k A rule: clean_prefix.induct)
  case (2 k i b l rows)
  then show ?case by auto
qed simp

lemma clean_prefix_above: "(\<forall>x \<in> set C. int k < fst x) \<Longrightarrow> clean_prefix k C = []"
  by (cases C) auto

lemma clean_prefix_insert:
  assumes "\<forall>x \<in> set A. fst x < fst x0" "\<forall>x \<in> set B. fst x0 < fst x" "int k \<le> fst x0"
  shows "\<exists>extra. clean_prefix k (A @ x0 # B) = clean_prefix k (A @ B) @ extra"
proof (cases "length (clean_prefix k A) = length A")
  case True
  have "int (k + length A) \<le> fst x0"
  proof (cases A rule: rev_cases)
    case (snoc A' a)
    have "fst a = int (k + length A')"
      using clean_prefix_index[of "length A'" k A] clean_prefix_take[of k A] True snoc by simp
    then show ?thesis using assms(1) snoc by auto
  qed (use assms(3) in simp)
  then have "\<forall>x \<in> set B. int (k + length A) < fst x" using assms(2) by fastforce
  then have "clean_prefix (k + length A) B = []" by (rule clean_prefix_above)
  with True show ?thesis by (simp add: clean_prefix_append)
qed (simp add: clean_prefix_append)

lemma mirror_commitments: "mirror d pool = mirror (d'\<lparr>commitments := commitments d\<rparr>) pool"
  by (simp add: mirror_def leaf_query_def)

lemma mirror_snoc:
  assumes u: "unique_leaves (d\<lparr>commitments := rows @ [r]\<rparr>)"
  shows "\<exists>extra. mirror (d\<lparr>commitments := rows @ [r]\<rparr>) pool = mirror (d\<lparr>commitments := rows\<rparr>) pool @ extra"
proof -
  let ?d = "d\<lparr>commitments := rows\<rparr>" and ?d' = "d\<lparr>commitments := rows @ [r]\<rparr>"
  let ?i = "c_leaf_index r"
  define q where "q = leaf_query ?d pool 0"
  define q' where "q' = leaf_query ?d' pool 0"
  have u0: "unique_leaves ?d" using u by (simp add: unique_leaves_def unique_key_def)
  have s: "sorted_wrt (<) (map fst q)" "sorted_wrt (<) (map fst q')"
    unfolding q_def q'_def by (rule leaf_query_sorted[OF u0], rule leaf_query_sorted[OF u])
  have part: "filter (\<lambda>x. Q (fst x)) (leaf_query db pool 0)
      = map (\<lambda>r. (c_leaf_index r, c_commitment r, c_ledger r))
          (select_by c_leaf_index (\<lambda>r. (c_pool r = pool \<and> 0 \<le> c_leaf_index r) \<and> Q (c_leaf_index r)) (commitments db))"
    for Q db by (simp add: leaf_query_def filter_map o_def filter_select_by)
  have same: "filter (\<lambda>x. Q (fst x)) q' = filter (\<lambda>x. Q (fst x)) q" if "\<not> (c_pool r = pool \<and> 0 \<le> ?i \<and> Q ?i)" for Q
    unfolding q_def q'_def part using that by (auto simp: select_by_def)
  show ?thesis
  proof (cases "c_pool r = pool \<and> 0 \<le> ?i")
    case False
    then have "q' = q" using same[of "\<lambda>_. True"] by simp
    then show ?thesis by (simp add: mirror_def q_def q'_def)
  next
    case True
    define A B where "A = filter (\<lambda>x. fst x < ?i) q" and "B = filter (\<lambda>x. ?i < fst x) q"
    have none: "filter (\<lambda>x. fst x = ?i) q = []"
    proof -
      have "\<not> (c_pool r' = pool \<and> c_leaf_index r' = ?i)" if "r' \<in> set rows" for r'
        using u that True by (auto simp: unique_leaves_def unique_key_def image_iff)
      then show ?thesis unfolding q_def part[of "\<lambda>j. j = ?i"] by (auto simp: select_by_def filter_empty_conv)
    qed
    have one: "filter (\<lambda>x. fst x = ?i) q' = [(?i, c_commitment r, c_ledger r)]"
    proof -
      have "filter (\<lambda>r. (c_pool r = pool \<and> 0 \<le> c_leaf_index r) \<and> c_leaf_index r = ?i) rows = []"
        using u True by (auto simp: unique_leaves_def unique_key_def image_iff filter_empty_conv)
      then show ?thesis unfolding q'_def part[of "\<lambda>j. j = ?i"] using True by (simp add: select_by_def)
    qed
    have "q = A @ B" using sorted_split[OF s(1), of ?i] none by (simp add: A_def B_def)
    moreover have "q' = A @ (?i, c_commitment r, c_ledger r) # B"
      using sorted_split[OF s(2), of ?i] one same[of "\<lambda>j. j < ?i"] same[of "\<lambda>j. ?i < j"]
      by (simp add: A_def B_def)
    ultimately show ?thesis
      using clean_prefix_insert[of A "(?i, c_commitment r, c_ledger r)" B 0] True
      by (auto simp: mirror_def q_def[symmetric] q'_def[symmetric] A_def B_def)
  qed
qed

lemma mirror_grows_list:
  "unique_leaves (d\<lparr>commitments := rows @ extra\<rparr>) \<Longrightarrow>
   \<exists>ls. mirror (d\<lparr>commitments := rows @ extra\<rparr>) pool = mirror (d\<lparr>commitments := rows\<rparr>) pool @ ls"
proof (induction extra rule: rev_induct)
  case (snoc r extra)
  have "unique_leaves (d\<lparr>commitments := rows @ extra\<rparr>)"
    using snoc.prems by (simp add: unique_leaves_def unique_key_def)
  from snoc.IH[OF this] show ?case
    using mirror_snoc[where d = d and rows = "rows @ extra" and r = r and pool = pool] snoc.prems by auto
qed simp

lemma mirror_grows:
  assumes "db_grows d d'" "unique_leaves d'"
  shows "\<exists>ls. mirror d' pool = mirror d pool @ ls"
proof -
  obtain extra where m: "commitments d' = commitments d @ extra" using assms(1) by (auto simp: db_grows_def)
  have "unique_leaves (d\<lparr>commitments := commitments d @ extra\<rparr>)" using assms(2) m by (simp add: unique_leaves_def)
  from mirror_grows_list[OF this] show ?thesis
    using mirror_commitments[of d' pool d] mirror_commitments[of d pool d] m by simp
qed

lemma tree_inv_grows:
  assumes "tree_inv h d trees" "db_grows d d'" "unique_leaves d'"
  shows "tree_inv h d' trees"
proof -
  have roots: "tree_roots d' = tree_roots d" using assms(2) by (simp add: db_grows_def)
  have take: "take n (mirror d' pool) = take n (mirror d pool)" and len: "n \<le> length (mirror d' pool)"
    if "n \<le> length (mirror d pool)" for n pool
    using mirror_grows[OF assms(2,3), of pool] that by auto
  have entry: "history_entry h (mirror d' pool) n = history_entry h (mirror d pool) n"
    if "1 \<le> n" "n \<le> length (mirror d pool)" for n pool
    using mirror_grows[OF assms(2,3), of pool] that by (auto simp: history_entry_def nth_append)
  have "roots_ok h d'" using assms(1) entry len unfolding tree_inv_def roots_ok_def roots by metis
  moreover have "cache_ok h d' trees"
    using assms(1) take len unfolding tree_inv_def cache_ok_def by metis
  ultimately show ?thesis using assms(1,3) roots by (simp add: tree_inv_def unique_roots_def)
qed

section \<open>What a stored event leaves behind\<close>

fun recorded :: "string \<Rightarrow> pool_event \<Rightarrow> db \<Rightarrow> bool" where
  "recorded contract (NewCommitment c i a t) d \<longleftrightarrow>
     (\<exists>r \<in> set (commitments d). c_pool r = contract \<and> (c_leaf_index r = i \<or> c_commitment r = c))
     \<and> (a \<noteq> None \<and> t \<noteq> None \<longrightarrow> contract \<in> t_pool ` set (pool_totals d))"
| "recorded contract (NullifierSpent n) d \<longleftrightarrow> (\<exists>r \<in> set (nullifiers d). n_pool r = contract \<and> n_nullifier r = n)"
| "recorded contract (EncryptedNote c k x) d \<longleftrightarrow> (\<exists>r \<in> set (encrypted_notes d). e_pool r = contract
     \<and> e_commitment r = c \<and> e_ephemeral_pubkey r = k \<and> e_ciphertext r = x)"
| "recorded contract (Withdrawal a t) d \<longleftrightarrow> contract \<in> t_pool ` set (pool_totals d)"
| "recorded contract (IssuerUpdated i n k ts s) d \<longleftrightarrow> i \<in> i_issuer_id ` set (issuers d)"

lemma recorded_grows: "recorded contract ev d \<Longrightarrow> db_grows d d' \<Longrightarrow> recorded contract ev d'"
  by (cases ev) (auto simp: db_grows_def table_grows_def)

lemma exec_stmt_ok: "exec_stmt call (Inr \<circ> f) d = (d', None) \<longleftrightarrow> call = None \<and> d' = f d"
  by (auto simp: exec_stmt_def split: option.splits)

lemma upsert_has_key: "(\<And>r'. key (upd r' r) = key r') \<Longrightarrow> key r \<in> key ` set (upsert_on key upd r rows)"
proof (cases "list_ex (\<lambda>r'. key r' = key r) rows")
  case True
  assume k: "\<And>r'. key (upd r' r) = key r'"
  from True obtain r' where "r' \<in> set rows" "key r' = key r" by (auto simp: list_ex_iff)
  then have "key r \<in> key ` set rows" by (metis imageI)
  then show ?thesis using upsert_keys[of key upd r rows, OF k] by blast
qed (simp add: upsert_on_def)

lemma insert_new_clash: "clash r r \<Longrightarrow> \<exists>r' \<in> set (insert_new clash r rows). clash r r'"
  by (auto simp: insert_new_def list_ex_iff)

lemma add_pool_total_recorded:
  "add_pool_total call pool asset x y d = (d', None) \<Longrightarrow> pool \<in> t_pool ` set (pool_totals d')"
  using upsert_has_key[of t_pool add_totals "\<lparr>t_pool = pool, t_asset = asset, t_total_in = x, t_total_out = y\<rparr>" "pool_totals d"]
  by (auto simp: add_pool_total_def exec_stmt_def Let_def add_totals_def split: option.splits if_splits sum.splits)

lemma insert_commitment_recorded:
  "\<exists>r' \<in> set (commitments (insert_commitment r d)). c_pool r' = c_pool r
     \<and> (c_leaf_index r' = c_leaf_index r \<or> c_commitment r' = c_commitment r)"
  using insert_new_clash[of commitment_clash r "commitments d"]
  by (auto simp: insert_commitment_def commitment_clash_def)

lemma add_pool_total_commitments [simp]:
  "commitments (fst (add_pool_total call pool asset x y d)) = commitments d"
  "encrypted_notes (fst (add_pool_total call pool asset x y d)) = encrypted_notes d"
  "nullifiers (fst (add_pool_total call pool asset x y d)) = nullifiers d"
  "issuers (fst (add_pool_total call pool asset x y d)) = issuers d"
  "indexer_cursors (fst (add_pool_total call pool asset x y d)) = indexer_cursors d"
  by (auto simp: add_pool_total_def exec_stmt_def Let_def split: option.splits sum.splits if_splits)

lemma store_event_recorded:
  assumes "store_event calls contract ledger tx ev d = (d', None)"
  shows "recorded contract ev d'"
proof -
  obtain call1 call2 where c: "calls = (call1, call2)" by (cases calls)
  show ?thesis
  proof (cases ev)
    case (NewCommitment cm i a t)
    let ?r = "\<lparr>c_pool = contract, c_leaf_index = i, c_commitment = cm, c_ledger = ledger, c_tx_hash = tx\<rparr>"
    have rec: "\<exists>r \<in> set (commitments (insert_commitment ?r d)). c_pool r = contract \<and> (c_leaf_index r = i \<or> c_commitment r = cm)"
      using insert_commitment_recorded[of ?r d] by simp
    from assms have "exec_stmt call1 (Inr \<circ> insert_commitment ?r) d = (insert_commitment ?r d, None)"
      unfolding NewCommitment c by (auto simp: exec_stmt_def split: option.splits)
    then have st: "(case (a, t) of (Some amount, Some x) \<Rightarrow> add_pool_total call2 contract x amount 0 (insert_commitment ?r d)
        | _ \<Rightarrow> (insert_commitment ?r d, None)) = (d', None)"
      using assms unfolding NewCommitment c by simp
    show ?thesis
    proof (cases "a \<noteq> None \<and> t \<noteq> None")
      case True
      then obtain amount x where at: "a = Some amount" "t = Some x" by auto
      then have "add_pool_total call2 contract x amount 0 (insert_commitment ?r d) = (d', None)" using st by simp
      then show ?thesis
        using rec add_pool_total_recorded[of call2 contract x amount 0] add_pool_total_commitments(1)
        unfolding NewCommitment by (metis fst_conv recorded.simps(1))
    next
      case False
      then have "d' = insert_commitment ?r d" using st by (auto split: option.splits)
      then show ?thesis using rec False unfolding NewCommitment by auto
    qed
  next
    case (NullifierSpent n)
    then show ?thesis
      using assms insert_new_clash[of nullifier_clash "\<lparr>n_pool = contract, n_nullifier = n, n_ledger = ledger, n_tx_hash = tx\<rparr>" "nullifiers d"]
      unfolding c by (auto simp: exec_stmt_ok insert_nullifier_def nullifier_clash_def)
  next
    case (EncryptedNote cm k x)
    then show ?thesis using assms unfolding c by (auto simp: exec_stmt_ok insert_note_def)
  next
    case (Withdrawal a t)
    then show ?thesis using assms unfolding c by (simp add: add_pool_total_recorded)
  next
    case (IssuerUpdated i n k ts s)
    then show ?thesis
      using assms upsert_has_key[of i_issuer_id update_issuer "\<lparr>i_issuer_id = i, i_name = n, i_public_key = k,
         i_claim_types = ts, i_status = s, i_registered_ledger = ledger\<rparr>" "issuers d"]
      unfolding c by (auto simp: exec_stmt_ok upsert_issuer_def update_issuer_def)
  qed
qed

lemma store_page_ledger: "store_page lib faults contract k raws l d = (d', l', None) \<Longrightarrow>
  l \<le> l' \<and> (\<forall>raw \<in> set raws. u64_as_i64 (re_ledger raw) \<le> l')"
  by (induction lib faults contract k raws l d rule: store_page.induct) (auto split: prod.splits option.splits)

lemma store_page_recorded:
  assumes "lib_ok lib"
  shows "store_page lib faults contract k raws l d = (d', l', None) \<Longrightarrow> tables_ok d \<Longrightarrow>
    raw \<in> set raws \<Longrightarrow> decode lib raw = Some ev \<Longrightarrow> recorded contract ev d'"
proof (induction raws arbitrary: k l d)
  case (Cons raw' raws)
  define one where "one = (case decode lib raw' of None \<Rightarrow> (d, None)
      | Some ev \<Rightarrow> store_event (faults k) contract (u64_as_i64 (re_ledger raw')) (re_tx_hash raw') ev d)"
  obtain d1 where one: "one = (d1, None)"
      and rest: "store_page lib faults contract (Suc k) raws (max l (u64_as_i64 (re_ledger raw'))) d1 = (d', l', None)"
    using Cons.prems(1) unfolding store_page.simps one_def[symmetric] by (auto split: prod.splits option.splits)
  have "run_keeps d (fst one)"
    unfolding one_def using decode_event_ok[OF assms] store_event_keeps by (auto split: option.splits)
  then have d1: "tables_ok d1" using Cons.prems(2) one by (simp add: run_keeps_def)
  then have grows: "db_grows d1 d'"
    using store_page_keeps[OF assms, of d1 faults contract "Suc k" raws] rest by (metis fst_conv run_keeps_def)
  show ?case
  proof (cases "raw \<in> set raws")
    case True
    then show ?thesis using Cons.IH[OF rest d1] Cons.prems(4) by simp
  next
    case False
    then have "recorded contract ev d1"
      using Cons.prems(3,4) one store_event_recorded[of "faults k"] unfolding one_def by auto
    then show ?thesis using grows by (rule recorded_grows)
  qed
qed simp

lemma store_event_cursors: "indexer_cursors (fst (store_event calls contract ledger tx ev d)) = indexer_cursors d"
  by (cases "(calls, contract, ledger, tx, ev, d)" rule: store_event.cases)
     (auto simp: exec_stmt_def insert_commitment_def insert_nullifier_def insert_note_def upsert_issuer_def
       split: option.splits prod.splits)

lemma store_page_cursors: "indexer_cursors (fst (store_page lib faults contract k raws l d)) = indexer_cursors d"
proof (induction raws arbitrary: k l d)
  case (Cons raw raws)
  define one where "one = (case decode lib raw of None \<Rightarrow> (d, None)
      | Some ev \<Rightarrow> store_event (faults k) contract (u64_as_i64 (re_ledger raw)) (re_tx_hash raw) ev d)"
  have "indexer_cursors (fst one) = indexer_cursors d" unfolding one_def by (simp add: store_event_cursors split: option.splits)
  then show ?case
    using Cons unfolding store_page.simps one_def[symmetric] by (auto split: prod.splits option.splits)
qed simp

lemma load_saved: "unique_key k_contract_id (indexer_cursors d) \<Longrightarrow>
  load_cursor contract (save_cursor now contract l c d) = (l, c)"
proof -
  assume u: "unique_key k_contract_id (indexer_cursors d)"
  show ?thesis
  proof (cases "list_ex (\<lambda>k. k_contract_id k = contract) (indexer_cursors d)")
    case True
    have "\<exists>k. filter (\<lambda>k. k_contract_id k = contract) rows = [k]"
      if "unique_key k_contract_id rows" "list_ex (\<lambda>k. k_contract_id k = contract) rows" for rows
      using that by (induction rows) (auto simp: unique_key_def filter_empty_conv image_iff)
    then obtain k where k: "filter (\<lambda>k. k_contract_id k = contract) (indexer_cursors d) = [k]" using u True by blast
    have f: "filter (\<lambda>k. k_contract_id k = contract) (map (\<lambda>k. if k_contract_id k = contract then f k else k) rows)
        = map f (filter (\<lambda>k. k_contract_id k = contract) rows)"
      if "\<And>k. k_contract_id (f k) = k_contract_id k" for f and rows :: "cursor_row list"
      using that by (induction rows) auto
    show ?thesis using True unfolding load_cursor_def save_cursor_def by (simp add: upsert_on_def f k)
  next
    case False
    then show ?thesis unfolding load_cursor_def save_cursor_def
      by (auto simp: upsert_on_def list_ex_iff filter_empty_conv)
  qed
qed

section \<open>Properties of the indexer\<close>


text \<open>The environment of the witnesses: one page with one event, then an empty page.\<close>

definition sample_env :: sync_env where
  "sample_env = \<lparr>rpc_reply = (\<lambda>n _. Inr \<lparr>rpc_result = Some \<lparr>ep_events = (if n = 0 then [sample_raw] else []),
       ep_cursor = Some ''c1'', ep_latest_ledger = 50\<rparr>, rpc_error = None\<rparr>),
     store_faults = (\<lambda>_ _. (None, None)), save_fault = (\<lambda>_. None), save_time = (\<lambda>_. 0), load_fault = None\<rparr>"

definition sample_total :: pool_total_row where
  "sample_total = \<lparr>t_pool = ''C'', t_asset = ''XLM'', t_total_in = 0, t_total_out = -5\<rparr>"

definition sample_cursor :: "int \<Rightarrow> cursor_row" where
  "sample_cursor l = \<lparr>k_contract_id = ''C'', k_last_ledger = l, k_last_cursor = Some ''c1'', k_updated_at = 0\<rparr>"

lemma sample_lib_ok: "lib_ok sample_lib"
  by (simp add: lib_ok_def sample_lib_def)

lemma sample_ledger: "re_ledger sample_raw = 42" "re_tx_hash sample_raw = ''t''"
  by (simp_all add: sample_raw_def)

lemma sample_turn: "sync_turn sample_lib sample_env ''C'' 0 0 None empty_db
  = (empty_db\<lparr>pool_totals := [sample_total], indexer_cursors := [sample_cursor 42]\<rparr>, Inr (False, 42, Some ''c1''))"
  by (simp add: sync_turn_def rpc_call_def sample_env_def sample_decodes sample_ledger add_pool_total_def exec_stmt_def
      upsert_on_def empty_db_def numeric39_def Let_def save_cursor_def u64_as_i64_small sample_total_def sample_cursor_def)

lemma sample_turn2: "sync_turn sample_lib sample_env ''C'' 1 42 (Some ''c1'')
    (empty_db\<lparr>pool_totals := [sample_total], indexer_cursors := [sample_cursor 42]\<rparr>)
  = (empty_db\<lparr>pool_totals := [sample_total], indexer_cursors := [sample_cursor 50]\<rparr>, Inr (True, 50, Some ''c1''))"
  by (simp add: sync_turn_def rpc_call_def sample_env_def exec_stmt_def
      upsert_on_def empty_db_def Let_def save_cursor_def u64_as_i64_small sample_cursor_def)

lemma sample_sync: "sync_contract 2 sample_lib sample_env ''C'' empty_db
  = Some (empty_db\<lparr>pool_totals := [sample_total], indexer_cursors := [sample_cursor 50]\<rparr>, None)"
proof -
  have "load_fault sample_env = None" "load_cursor ''C'' empty_db = (0, None)"
    by (simp_all add: sample_env_def load_cursor_def empty_db_def)
  then show ?thesis by (simp add: sync_contract_def numeral_2_eq_2 sample_turn sample_turn2[unfolded One_nat_def])
qed

lemma sample_pass: "run_pass 2 sample_lib [(''C'', sample_env)] empty_db
  = Some (empty_db\<lparr>pool_totals := [sample_total], indexer_cursors := [sample_cursor 50]\<rparr>)"
  by (simp add: sample_sync)


text \<open>
  The indexer never invalidates the API: whatever it ingests, every cached tree still
  mirrors a prefix of the pool's leaves and every persisted root is still the root of its
  prefix, because rows that arrive later only extend the gap-free run of leaves.
\<close>

theorem indexer_keeps_tree_caches:
  assumes "lib_ok lib" "tables_ok d" "tree_inv h d trees" "run_pass fuel lib cs d = Some d'"
  shows "tree_inv h d' trees \<and> (\<exists>extra. mirror d' pool = mirror d pool @ extra)"
proof -
  have d': "tables_ok d'" "db_grows d d'"
    using run_pass_keeps[OF assms(1,4)] assms(2) by (simp_all add: run_keeps_def)
  then have u: "unique_leaves d'" by (simp add: tables_ok_def)
  show ?thesis using tree_inv_grows[OF assms(3) d'(2) u] mirror_grows[OF d'(2) u] by blast
qed

theorem indexer_keeps_tree_caches_witness:
  "tree_inv sample_hasher (empty_db\<lparr>pool_totals := [sample_total], indexer_cursors := [sample_cursor 50]\<rparr>) Map.empty
   \<and> (\<exists>extra. mirror (empty_db\<lparr>pool_totals := [sample_total], indexer_cursors := [sample_cursor 50]\<rparr>) ''C''
        = mirror empty_db ''C'' @ extra)"
  by (rule indexer_keeps_tree_caches[OF sample_lib_ok tables_ok_empty _ sample_pass])
     (simp add: tree_inv_def unique_leaves_def unique_roots_def roots_ok_def cache_ok_def empty_db_def)



text \<open>
  A failed turn leaves the saved cursor where it was, so that the failed page is fetched
  again after the retry or a restart.
\<close>

theorem failed_turn_keeps_cursor:
  assumes "sync_turn lib env contract n l c d = (d', Inl e)"
  shows "indexer_cursors d' = indexer_cursors d"
  using assms
proof (cases rule: sync_turnE)
  case (store page l' e')
  then show ?thesis using store_page_cursors by (metis fst_conv)
next
  case (save page d1 l' last')
  have "indexer_cursors d1 = indexer_cursors d" using store_page_cursors save(2) by (metis fst_conv)
  moreover have "d' = d1" using save(4) by (auto simp: exec_stmt_def split: option.splits)
  ultimately show ?thesis by simp
qed simp

theorem failed_turn_keeps_cursor_witness:
  "indexer_cursors (empty_db\<lparr>pool_totals := [sample_total]\<rparr>) = indexer_cursors empty_db"
  by (rule failed_turn_keeps_cursor[where lib = sample_lib and env = "sample_env\<lparr>save_fault := (\<lambda>_. Some (SqlxOther ''down''))\<rparr>"
        and contract = "''C''" and n = 0 and l = 0 and c = None])
     (simp add: sync_turn_def rpc_call_def sample_env_def sample_decodes sample_ledger add_pool_total_def exec_stmt_def
      upsert_on_def empty_db_def numeric39_def Let_def save_cursor_def u64_as_i64_small sample_total_def)

section \<open>Replays\<close>

text \<open>Events that carry neither a note nor a public amount nor registry data.\<close>

fun replayable :: "pool_event \<Rightarrow> bool" where
  "replayable (NewCommitment c i a t) \<longleftrightarrow> a = None \<or> t = None"
| "replayable (NullifierSpent n) \<longleftrightarrow> True"
| "replayable _ \<longleftrightarrow> False"

lemma store_recorded_absorbs:
  assumes "replayable ev" "recorded contract ev d"
  shows "store_event (None, None) contract ledger tx ev d = (d, None)"
proof (cases ev)
  case (NewCommitment c i a t)
  from assms(2) obtain r' where "r' \<in> set (commitments d)" "c_pool r' = contract" "c_leaf_index r' = i \<or> c_commitment r' = c"
    unfolding NewCommitment by auto
  then have "insert_new commitment_clash \<lparr>c_pool = contract, c_leaf_index = i, c_commitment = c, c_ledger = ledger,
      c_tx_hash = tx\<rparr> (commitments d) = commitments d"
    by (intro insert_new_absorb[of r']) (auto simp: commitment_clash_def)
  then show ?thesis
    using assms(1) unfolding NewCommitment by (auto simp: exec_stmt_def insert_commitment_def split: option.splits)
next
  case (NullifierSpent n)
  from assms(2) obtain r' where "r' \<in> set (nullifiers d)" "n_pool r' = contract" "n_nullifier r' = n"
    unfolding NullifierSpent by auto
  then have "insert_new nullifier_clash \<lparr>n_pool = contract, n_nullifier = n, n_ledger = ledger, n_tx_hash = tx\<rparr>
      (nullifiers d) = nullifiers d"
    by (intro insert_new_absorb[of r']) (auto simp: nullifier_clash_def)
  then show ?thesis unfolding NullifierSpent by (simp add: exec_stmt_def insert_nullifier_def)
qed (use assms(1) in simp_all)

lemma store_page_absorbs:
  "(\<forall>raw \<in> set raws. \<forall>ev. decode lib raw = Some ev \<longrightarrow> replayable ev \<and> recorded contract ev d) \<Longrightarrow>
   fst (store_page lib (\<lambda>_. (None, None)) contract k raws l d) = d"
  by (induction raws arbitrary: k l) (auto simp: store_recorded_absorbs split: option.splits)

text \<open>
  C37. Replaying transfers is safe: a page of commitments without public amounts and of
  nullifiers, in any order and number, that has been stored changes nothing when it is stored
  again, be it after a cursor reset or a failed turn.
\<close>

theorem replaying_transfers_changes_nothing:
  assumes "lib_ok lib" "tables_ok d"
    and "\<forall>raw \<in> set raws. \<forall>ev. decode lib raw = Some ev \<longrightarrow> replayable ev"
    and "store_page lib faults contract 0 raws l d = (d', l', None)"
  shows "fst (store_page lib (\<lambda>_. (None, None)) contract 0 raws m d') = d'"
  using store_page_recorded[OF assms(1,4,2)] assms(3) by (intro store_page_absorbs) blast

definition spent_lib :: event_lib where
  "spent_lib = sample_lib\<lparr>xdr_base64 := (\<lambda>s. if s = ''T'' then Some (ScSymbol ''nullifier'')
     else Some (layout_value (NullifierSpent (replicate 32 3))))\<rparr>"

lemma spent_decodes: "decode spent_lib sample_raw = Some (NullifierSpent (replicate 32 3))"
  by (simp add: decode_def event_name_def decode_nullifier_def scval_b64_def spent_lib_def sample_raw_def sc_readers)

definition spent_row :: nullifier_row where
  "spent_row = \<lparr>n_pool = ''C'', n_nullifier = replicate 32 3, n_ledger = 42, n_tx_hash = ''t''\<rparr>"

lemma spent_page: "store_page spent_lib (\<lambda>_. (None, None)) ''C'' 0 [sample_raw, sample_raw] 0 empty_db
  = (empty_db\<lparr>nullifiers := [spent_row]\<rparr>, 42, None)"
  by (simp add: spent_decodes sample_ledger exec_stmt_def insert_nullifier_def insert_new_def nullifier_clash_def
      empty_db_def u64_as_i64_small spent_row_def)

theorem replaying_transfers_changes_nothing_witness:
  "fst (store_page spent_lib (\<lambda>_. (None, None)) ''C'' 0 [sample_raw, sample_raw] 42 (empty_db\<lparr>nullifiers := [spent_row]\<rparr>))
   = empty_db\<lparr>nullifiers := [spent_row]\<rparr>"
  by (rule replaying_transfers_changes_nothing[OF _ tables_ok_empty _ spent_page])
     (simp_all add: spent_decodes, simp add: lib_ok_def spent_lib_def sample_lib_def)

text \<open>
  Replays of notes and of public amounts are not safe.  Storing a note again adds a second
  row with a new cursor, which the relay serves a second time; storing a deposit again adds
  its amount to the total a second time, although the commitment itself is not inserted again.
\<close>

theorem replays_duplicate_notes_and_deposits:
  shows "map (\<lambda>n. n\<lparr>e_id := 0\<rparr>) (encrypted_notes (fst (store_event (None, None) p l t (EncryptedNote c k x)
             (fst (store_event (None, None) p l t (EncryptedNote c k x) empty_db)))))
         = replicate 2 \<lparr>e_id = 0, e_pool = p, e_commitment = c, e_ephemeral_pubkey = k, e_ciphertext = x,
             e_ledger = l, e_tx_hash = t\<rparr>
    \<and> pool_totals (fst (store_event (None, None) p l t (NewCommitment c 0 (Some 5) (Some a))
             (fst (store_event (None, None) p l t (NewCommitment c 0 (Some 5) (Some a)) empty_db))))
         = [\<lparr>t_pool = p, t_asset = a, t_total_in = 10, t_total_out = 0\<rparr>]
    \<and> length (commitments (fst (store_event (None, None) p l t (NewCommitment c 0 (Some 5) (Some a))
             (fst (store_event (None, None) p l t (NewCommitment c 0 (Some 5) (Some a)) empty_db))))) = 1"
  by (simp add: exec_stmt_def insert_note_def empty_db_def numeral_2_eq_2 insert_commitment_def insert_new_def
      commitment_clash_def add_pool_total_def upsert_on_def add_totals_def numeric39_def)

end
