(* ===== verification/Mailbox.thy ===== *)
theory Mailbox
  imports Feed Errors
begin

text \<open>
  The credential mailbox, \<open>crates/attesta-api/src/routes/issuer.rs\<close>.  Base64 decoding, SHA-256 and the random delivery id are code of other
  crates and stay parameters.  Times are nanoseconds of the database clock since the Unix epoch.
\<close>

section \<open>Delivery\<close>

definition MAX_CIPHERTEXT_BYTES :: nat where
  "MAX_CIPHERTEXT_BYTES = 64 * 1024"

record deliver_request =
  dr_issuer_id :: string
  dr_recipient_hint :: string
  dr_ciphertext :: string
  dr_issuer_signature :: string
  dr_claim_token_hash :: "string option"

text \<open>The closure over \<open>claim_token_hash\<close>, with \<open>transpose()?\<close>.\<close>

definition decode_token_hash :: "(string \<Rightarrow> byte list option) \<Rightarrow> string option \<Rightarrow> api_error + byte list option" where
  "decode_token_hash b64 field =
     (case field of
        None \<Rightarrow> Inr None
      | Some s \<Rightarrow>
          (case b64 s of
             None \<Rightarrow> Inl (bad_request ''claim_token_hash must be base64'')
           | Some h \<Rightarrow> if length h \<noteq> 32 then Inl (bad_request ''claim_token_hash must be 32 bytes'')
                       else Inr (Some h)))"

definition active_issuer :: "string \<Rightarrow> db \<Rightarrow> issuer_row option" where
  "active_issuer iid d = List.find (\<lambda>i. i_issuer_id i = iid \<and> i_status i = ''active'') (issuers d)"

definition HOUR :: int where
  "HOUR = 3600 * 10 ^ 9"

definition delivered_last_hour :: "string \<Rightarrow> int \<Rightarrow> db \<Rightarrow> nat" where
  "delivered_last_hour iid now d =
     length (filter (\<lambda>r. d_issuer_id r = iid \<and> d_created_at r > now - HOUR) (credential_deliveries d))"

text \<open>The INSERT, with its primary key and its foreign key; \<open>seq\<close> is an identity column.\<close>

definition insert_delivery :: "delivery_row \<Rightarrow> db \<Rightarrow> sqlx_error + db" where
  "insert_delivery r d =
     (if list_ex (\<lambda>r'. d_delivery_id r' = d_delivery_id r) (credential_deliveries d)
      then Inl (SqlxDatabase (Some ''23505''))
      else if \<not> list_ex (\<lambda>i. i_issuer_id i = d_issuer_id r) (issuers d)
      then Inl (SqlxDatabase (Some ''23503''))
      else Inr (d\<lparr>credential_deliveries := credential_deliveries d @ [r\<lparr>d_seq := delivery_serial d\<rparr>],
                  delivery_serial := delivery_serial d + 1\<rparr>))"

text \<open>
  \<open>deliver_credential\<close> up to its INSERT, and the INSERT: between the count of the quota and the
  INSERT other requests run.  The calls are the issuer lookup and the quota count; \<open>quota\<close> is the
  configured one.
\<close>

record checked_delivery =
  cd_ciphertext :: "byte list"
  cd_signature :: "byte list"
  cd_token_hash :: "byte list option"

definition deliver_check ::
  "(string \<Rightarrow> byte list option) \<Rightarrow> nat \<Rightarrow> db_call \<Rightarrow> db_call \<Rightarrow> int \<Rightarrow> deliver_request \<Rightarrow> db \<Rightarrow> api_error + checked_delivery" where
  "deliver_check b64 quota call_issuer call_count now req d =
     (case b64 (dr_ciphertext req) of
         None \<Rightarrow> Inl (bad_request ''ciphertext must be base64'')
       | Some ciphertext \<Rightarrow>
      if ciphertext = [] \<or> length ciphertext > MAX_CIPHERTEXT_BYTES
      then Inl (bad_request ''ciphertext size out of bounds'')
      else (case b64 (dr_issuer_signature req) of
         None \<Rightarrow> Inl (bad_request ''issuer_signature must be base64'')
       | Some signature \<Rightarrow>
      if dr_recipient_hint req = [] \<or> length (dr_recipient_hint req) > 128
      then Inl (bad_request ''recipient_hint size out of bounds'')
      else (case decode_token_hash b64 (dr_claim_token_hash req) of
         Inl e \<Rightarrow> Inl e
       | Inr token_hash \<Rightarrow>
      (case call_issuer of
         Some e \<Rightarrow> Inl (of_sqlx e)
       | None \<Rightarrow>
      (case active_issuer (dr_issuer_id req) d of
         None \<Rightarrow> Inl (bad_request ''unknown or inactive issuer'')
       | Some issuer \<Rightarrow>
      if quota > 0 \<and> call_count \<noteq> None then Inl (of_sqlx (the call_count))
      else if quota > 0 \<and> delivered_last_hour (dr_issuer_id req) now d \<ge> quota
      then Inl (too_many_requests ''issuer hourly delivery quota exceeded'')
      else Inr \<lparr>cd_ciphertext = ciphertext, cd_signature = signature, cd_token_hash = token_hash\<rparr>)))))"

definition deliver_insert ::
  "db_call \<Rightarrow> int \<Rightarrow> nat \<Rightarrow> deliver_request \<Rightarrow> checked_delivery \<Rightarrow> db \<Rightarrow> db \<times> (api_error + status_code \<times> nat)" where
  "deliver_insert call now uuid req c d =
     (case call of
        Some e \<Rightarrow> (d, Inl (of_sqlx e))
      | None \<Rightarrow>
          (case insert_delivery \<lparr>d_seq = 0, d_delivery_id = uuid, d_issuer_id = dr_issuer_id req,
               d_recipient_hint = dr_recipient_hint req, d_ciphertext = cd_ciphertext c,
               d_issuer_signature = cd_signature c, d_created_at = now, d_claimed_at = None,
               d_claim_token_hash = cd_token_hash c\<rparr> d of
             Inl e \<Rightarrow> (d, Inl (of_sqlx e))
           | Inr d' \<Rightarrow> (d', Inr (CREATED, uuid))))"

text \<open>The two clocks are those of the count and of the INSERT.\<close>

definition deliver_credential ::
  "(string \<Rightarrow> byte list option) \<Rightarrow> nat \<Rightarrow> db_call \<times> db_call \<times> db_call \<Rightarrow> int \<times> int \<Rightarrow> nat \<Rightarrow> deliver_request \<Rightarrow> db
     \<Rightarrow> db \<times> (api_error + status_code \<times> nat)" where
  "deliver_credential b64 quota calls clocks uuid req d =
     (case deliver_check b64 quota (fst calls) (fst (snd calls)) (fst clocks) req d of
        Inl e \<Rightarrow> (d, Inl e)
      | Inr c \<Rightarrow> deliver_insert (snd (snd calls)) (snd clocks) uuid req c d)"

text \<open>
  Any number of deliveries at once, interleaved with whatever else writes their tables.  At most
  \<open>limit\<close> deliveries of one issuer are in flight, that is between their count and their INSERT.
\<close>

record delivery_sys =
  ds_db :: db
  ds_clock :: int
  ds_in_flight :: "(deliver_request \<times> checked_delivery) list"

definition in_flight_of :: "string \<Rightarrow> delivery_sys \<Rightarrow> nat" where
  "in_flight_of iid s = length (filter (\<lambda>f. dr_issuer_id (fst f) = iid) (ds_in_flight s))"

inductive deliver_step :: "(string \<Rightarrow> byte list option) \<Rightarrow> nat \<Rightarrow> nat \<Rightarrow> delivery_sys \<Rightarrow> delivery_sys \<Rightarrow> bool"
  for b64 quota limit where
  admit: "deliver_check b64 quota call_issuer call_count (ds_clock s) req (ds_db s) = Inr c \<Longrightarrow>
     in_flight_of (dr_issuer_id req) s < limit \<Longrightarrow>
     deliver_step b64 quota limit s (s\<lparr>ds_in_flight := ds_in_flight s @ [(req, c)]\<rparr>)"
| insert: "ds_in_flight s = before @ (req, c) # after \<Longrightarrow>
     deliver_insert call (ds_clock s) uuid req c (ds_db s) = (d', res) \<Longrightarrow>
     deliver_step b64 quota limit s (s\<lparr>ds_db := d', ds_in_flight := before @ after\<rparr>)"
| tick: "ds_clock s \<le> t \<Longrightarrow> deliver_step b64 quota limit s (s\<lparr>ds_clock := t\<rparr>)"
| claimed: "deliver_step b64 quota limit s
     (s\<lparr>ds_db := (ds_db s)\<lparr>credential_deliveries :=
         update_where P (\<lambda>r. r\<lparr>d_claimed_at := t\<rparr>) (credential_deliveries (ds_db s))\<rparr>\<rparr>)"
| expired: "deliver_step b64 quota limit s
     (s\<lparr>ds_db := (ds_db s)\<lparr>credential_deliveries := filter P (credential_deliveries (ds_db s))\<rparr>\<rparr>)"
| registry: "deliver_step b64 quota limit s (s\<lparr>ds_db := (ds_db s)\<lparr>issuers := is\<rparr>\<rparr>)"

section \<open>Claiming\<close>

definition find_delivery :: "nat \<Rightarrow> db \<Rightarrow> delivery_row option" where
  "find_delivery did d = List.find (\<lambda>r. d_delivery_id r = did) (credential_deliveries d)"

text \<open>
  \<open>claim_delivery\<close> up to its UPDATE, which reads the database, and the UPDATE: two statements
  between which other requests run.
\<close>

definition claim_check ::
  "(string \<Rightarrow> byte list option) \<Rightarrow> (byte list \<Rightarrow> byte list) \<Rightarrow> db_call \<Rightarrow> nat \<Rightarrow> string \<Rightarrow> db \<Rightarrow> api_error + unit" where
  "claim_check b64 sha256 call did claim_token d =
     (case b64 claim_token of
        None \<Rightarrow> Inl (bad_request ''claim_token must be base64'')
      | Some token \<Rightarrow>
          if token = [] \<or> length token > 128 then Inl (bad_request ''claim_token size out of bounds'')
          else (case call of
             Some e \<Rightarrow> Inl (of_sqlx e)
           | None \<Rightarrow>
               (case find_delivery did d of
                  None \<Rightarrow> Inl (not_found ''unknown delivery'')
                | Some r \<Rightarrow>
                    if d_claimed_at r \<noteq> None then Inl (conflict ''delivery already claimed'')
                    else if d_claim_token_hash r \<noteq> Some (sha256 token)
                    then Inl (forbidden ''claim token does not match'')
                    else Inr ())))"

definition open_claim :: "nat \<Rightarrow> delivery_row \<Rightarrow> bool" where
  "open_claim did r \<longleftrightarrow> d_delivery_id r = did \<and> d_claimed_at r = None"

definition claim_update :: "db_call \<Rightarrow> int \<Rightarrow> nat \<Rightarrow> db \<Rightarrow> db \<times> (api_error + status_code)" where
  "claim_update call now did d =
     (case call of
        Some e \<Rightarrow> (d, Inl (of_sqlx e))
      | None \<Rightarrow>
          (d\<lparr>credential_deliveries :=
               update_where (open_claim did) (\<lambda>r. r\<lparr>d_claimed_at := Some now\<rparr>) (credential_deliveries d)\<rparr>,
           if list_ex (open_claim did) (credential_deliveries d) then Inr NO_CONTENT
           else Inl (conflict ''delivery already claimed'')))"

definition claim_delivery ::
  "(string \<Rightarrow> byte list option) \<Rightarrow> (byte list \<Rightarrow> byte list) \<Rightarrow> db_call \<times> db_call \<Rightarrow> int \<Rightarrow> nat \<Rightarrow> string \<Rightarrow> db
     \<Rightarrow> db \<times> (api_error + status_code)" where
  "claim_delivery b64 sha256 calls now did claim_token d =
     (case claim_check b64 sha256 (fst calls) did claim_token d of
        Inl e \<Rightarrow> (d, Inl e)
      | Inr _ \<Rightarrow> claim_update (snd calls) now did d)"

text \<open>Any number of claims at once: where each stands, and the interleaving of their statements.\<close>

datatype claim_phase = Waiting | Authorized | Answered "api_error + status_code"

record claim =
  cm_id :: nat
  cm_token :: string
  cm_phase :: claim_phase

record claim_sys =
  cl_db :: db
  cl_claims :: "claim list"

inductive claim_step :: "(string \<Rightarrow> byte list option) \<Rightarrow> (byte list \<Rightarrow> byte list) \<Rightarrow> claim_sys \<Rightarrow> claim_sys \<Rightarrow> bool"
  for b64 sha256 where
  reject: "i < length (cl_claims s) \<Longrightarrow> cl_claims s ! i = c \<Longrightarrow> cm_phase c = Waiting \<Longrightarrow>
     claim_check b64 sha256 call (cm_id c) (cm_token c) (cl_db s) = Inl e \<Longrightarrow>
     claim_step b64 sha256 s (s\<lparr>cl_claims := (cl_claims s)[i := c\<lparr>cm_phase := Answered (Inl e)\<rparr>]\<rparr>)"
| authorize: "i < length (cl_claims s) \<Longrightarrow> cl_claims s ! i = c \<Longrightarrow> cm_phase c = Waiting \<Longrightarrow>
     claim_check b64 sha256 call (cm_id c) (cm_token c) (cl_db s) = Inr () \<Longrightarrow>
     claim_step b64 sha256 s (s\<lparr>cl_claims := (cl_claims s)[i := c\<lparr>cm_phase := Authorized\<rparr>]\<rparr>)"
| update: "i < length (cl_claims s) \<Longrightarrow> cl_claims s ! i = c \<Longrightarrow> cm_phase c = Authorized \<Longrightarrow>
     claim_update call now (cm_id c) (cl_db s) = (d', res) \<Longrightarrow>
     claim_step b64 sha256 s \<lparr>cl_db = d', cl_claims = (cl_claims s)[i := c\<lparr>cm_phase := Answered res\<rparr>]\<rparr>"

section \<open>Pickup and registry\<close>

definition DELIVERIES_PAGE_SIZE :: nat where
  "DELIVERIES_PAGE_SIZE = 200"

record deliveries_page =
  dp_deliveries :: "delivery_row list"
  dp_next_cursor :: "int option"

definition in_mailbox :: "string \<Rightarrow> delivery_row \<Rightarrow> bool" where
  "in_mailbox hint r \<longleftrightarrow> d_recipient_hint r = hint \<and> d_claimed_at r = None"

definition list_deliveries :: "string \<Rightarrow> int option \<Rightarrow> db_call \<Rightarrow> db \<Rightarrow> api_error + deliveries_page" where
  "list_deliveries hint since_cursor call d =
     (case call of
        Some e \<Rightarrow> Inl (of_sqlx e)
      | None \<Rightarrow>
          let since = (case since_cursor of Some c \<Rightarrow> c | None \<Rightarrow> 0);
              rows = query_after DELIVERIES_PAGE_SIZE d_seq (in_mailbox hint) since (credential_deliveries d)
          in Inr \<lparr>dp_deliveries = rows, dp_next_cursor = next_cursor_of DELIVERIES_PAGE_SIZE d_seq rows\<rparr>)"

text \<open>\<open>leq\<close> is the collation that the column \<open>issuer_id\<close> is sorted by.\<close>

definition list_issuers :: "(string \<Rightarrow> 'k::linorder) \<Rightarrow> db_call \<Rightarrow> db \<Rightarrow> api_error + issuer_row list" where
  "list_issuers collate call d =
     (case call of
        Some e \<Rightarrow> Inl (of_sqlx e)
      | None \<Rightarrow> Inr (select_by (collate \<circ> i_issuer_id) (\<lambda>i. i_status i \<noteq> ''revoked'') (issuers d)))"

section \<open>Claims\<close>

definition is_open :: "nat \<Rightarrow> db \<Rightarrow> bool" where
  "is_open did d \<longleftrightarrow> list_ex (open_claim did) (credential_deliveries d)"

definition wins :: "nat \<Rightarrow> claim list \<Rightarrow> nat" where
  "wins did cs = length (filter (\<lambda>c. cm_id c = did \<and> cm_phase c = Answered (Inr NO_CONTENT)) cs)"

text \<open>The hash that the issuer stored with a delivery.\<close>

definition stored_hash :: "nat \<Rightarrow> db \<Rightarrow> byte list option option" where
  "stored_hash did d = map_option d_claim_token_hash (find_delivery did d)"

definition proven :: "(string \<Rightarrow> byte list option) \<Rightarrow> (byte list \<Rightarrow> byte list) \<Rightarrow> db \<Rightarrow> claim \<Rightarrow> bool" where
  "proven b64 sha256 d c \<longleftrightarrow>
     (\<exists>token. b64 (cm_token c) = Some token \<and> stored_hash (cm_id c) d = Some (Some (sha256 token)))"

definition claim_inv :: "(string \<Rightarrow> byte list option) \<Rightarrow> (byte list \<Rightarrow> byte list) \<Rightarrow> db \<Rightarrow> claim_sys \<Rightarrow> bool" where
  "claim_inv b64 sha256 d0 s \<longleftrightarrow>
     (\<forall>did. wins did (cl_claims s) + of_bool (is_open did (cl_db s)) = of_bool (is_open did d0))
     \<and> (\<forall>did. stored_hash did (cl_db s) = stored_hash did d0)
     \<and> (\<forall>c \<in> set (cl_claims s). cm_phase c \<in> {Authorized, Answered (Inr NO_CONTENT)} \<longrightarrow> proven b64 sha256 d0 c)
     \<and> (\<forall>c \<in> set (cl_claims s). cm_phase c = Answered (Inl (conflict ''delivery already claimed'')) \<longrightarrow>
          \<not> is_open (cm_id c) (cl_db s))
     \<and> unique_key d_delivery_id (credential_deliveries (cl_db s))"

lemma wins_update:
  "i < length cs \<Longrightarrow> int (wins did (cs[i := c])) = int (wins did cs)
     - of_bool (cm_id (cs ! i) = did \<and> cm_phase (cs ! i) = Answered (Inr NO_CONTENT))
     + of_bool (cm_id c = did \<and> cm_phase c = Answered (Inr NO_CONTENT))"
  unfolding wins_def by (rule length_filter_update)

lemma find_update_where:
  assumes "\<And>r. d_delivery_id (f r) = d_delivery_id r"
  shows "List.find (\<lambda>r. d_delivery_id r = did) (update_where P f rows)
    = map_option (\<lambda>r. if P r then f r else r) (List.find (\<lambda>r. d_delivery_id r = did) rows)"
  using assms by (induction rows) (auto simp: update_where_def)

lemma claim_update_ok:
  assumes "claim_update None now did d = (d', res)"
  shows "is_open did' d' \<longleftrightarrow> is_open did' d \<and> did' \<noteq> did" "stored_hash did' d' = stored_hash did' d"
    "res = (if is_open did d then Inr NO_CONTENT else Inl (conflict ''delivery already claimed''))"
    "unique_key d_delivery_id (credential_deliveries d) \<Longrightarrow> unique_key d_delivery_id (credential_deliveries d')"
proof -
  have d': "d' = d\<lparr>credential_deliveries :=
      update_where (open_claim did) (\<lambda>r. r\<lparr>d_claimed_at := Some now\<rparr>) (credential_deliveries d)\<rparr>"
    using assms by (simp add: claim_update_def split: if_splits)
  show "res = (if is_open did d then Inr NO_CONTENT else Inl (conflict ''delivery already claimed''))"
    using assms by (auto simp: claim_update_def is_open_def split: if_splits)
  show "is_open did' d' \<longleftrightarrow> is_open did' d \<and> did' \<noteq> did"
    unfolding d' is_open_def by (auto simp: list_ex_iff update_where_def open_claim_def)
  show "stored_hash did' d' = stored_hash did' d"
    unfolding d' stored_hash_def find_delivery_def
    by (simp add: find_update_where option.map_comp comp_def if_distrib[of d_claim_token_hash] cong: if_cong)
  have "map d_delivery_id (update_where P (\<lambda>r. r\<lparr>d_claimed_at := Some now\<rparr>) rows) = map d_delivery_id rows"
    for P and rows :: "delivery_row list"
    by (simp add: update_where_def)
  then show "unique_key d_delivery_id (credential_deliveries d')" if "unique_key d_delivery_id (credential_deliveries d)"
    using that unfolding d' by (simp add: unique_key_def)
qed

lemma claim_check_authorized:
  "claim_check b64 sha256 call did tok d = Inr () \<Longrightarrow>
   \<exists>token. b64 tok = Some token \<and> stored_hash did d = Some (Some (sha256 token))"
  by (auto simp: claim_check_def stored_hash_def split: option.splits if_splits)

lemma find_delivery_Some: "find_delivery did d = Some r \<Longrightarrow> r \<in> set (credential_deliveries d) \<and> d_delivery_id r = did"
  by (auto simp: find_delivery_def find_Some_iff)

lemma claim_check_conflict:
  assumes "claim_check b64 sha256 call did tok d = Inl (conflict ''delivery already claimed'')"
    and "unique_key d_delivery_id (credential_deliveries d)"
  shows "\<not> is_open did d"
proof -
  obtain r where r: "find_delivery did d = Some r" "d_claimed_at r \<noteq> None"
    using assms(1) by (auto simp: claim_check_def api_error_defs split: option.splits if_splits)
  show ?thesis
  proof
    assume "is_open did d"
    then obtain r' where "r' \<in> set (credential_deliveries d)" "d_delivery_id r' = did" "d_claimed_at r' = None"
      by (auto simp: is_open_def list_ex_iff open_claim_def)
    then show False using find_delivery_Some[OF r(1)] r(2) unique_key_eq[OF assms(2)] by metis
  qed
qed

lemma claim_inv_step: "claim_step b64 sha256 s s' \<Longrightarrow> claim_inv b64 sha256 d0 s \<Longrightarrow> claim_inv b64 sha256 d0 s'"
proof (induction rule: claim_step.induct)
  case (reject i s c call e)
  have "wins did ((cl_claims s)[i := c\<lparr>cm_phase := Answered (Inl e)\<rparr>]) = wins did (cl_claims s)" for did
    using wins_update[OF reject(1), of did "c\<lparr>cm_phase := Answered (Inl e)\<rparr>"] reject(2,3) by simp
  moreover have "\<not> is_open (cm_id c) (cl_db s)" if "e = conflict ''delivery already claimed''"
    using claim_check_conflict reject(4,5) that by (auto simp: claim_inv_def)
  ultimately show ?case
    using reject(5) by (auto simp: claim_inv_def dest!: set_update_subset_insert[THEN subsetD])
next
  case (authorize i s c call)
  have "wins did ((cl_claims s)[i := c\<lparr>cm_phase := Authorized\<rparr>]) = wins did (cl_claims s)" for did
    using wins_update[OF authorize(1), of did "c\<lparr>cm_phase := Authorized\<rparr>"] authorize(2,3) by simp
  moreover have "proven b64 sha256 d0 (c\<lparr>cm_phase := Authorized\<rparr>)"
    using claim_check_authorized[OF authorize(4)] authorize(5) by (auto simp: proven_def claim_inv_def)
  ultimately show ?case
    using authorize(5) by (auto simp: claim_inv_def dest!: set_update_subset_insert[THEN subsetD])
next
  case (update i s c call now d' res)
  let ?c = "c\<lparr>cm_phase := Answered res\<rparr>"
  have inv: "c \<in> set (cl_claims s)" "proven b64 sha256 d0 c" using update by (auto simp: claim_inv_def)
  then have p: "proven b64 sha256 d0 ?c" by (simp add: proven_def)
  note w = wins_update[OF update(1), of _ ?c, unfolded update(2) update(3)]
  show ?case
  proof (cases call)
    case (Some e)
    then have "d' = cl_db s" "res = Inl (of_sqlx e)" using update(4) by (simp_all add: claim_update_def)
    then show ?thesis
      using update(5) w by (auto simp: claim_inv_def api_error_defs dest!: set_update_subset_insert[THEN subsetD])
  next
    case None
    note u = claim_update_ok[OF update(4)[unfolded None]]
    have wins': "int (wins did ((cl_claims s)[i := ?c])) + of_bool (is_open did d')
        = int (wins did (cl_claims s)) + of_bool (is_open did (cl_db s))" for did
      using w[of did] u(1)[of did] u(3) by (auto simp: api_error_defs)
    have "wins did ((cl_claims s)[i := ?c]) + of_bool (is_open did d') = of_bool (is_open did d0)" for did
    proof -
      have "wins did (cl_claims s) + of_bool (is_open did (cl_db s)) = (of_bool (is_open did d0) :: nat)"
        using update(5) by (simp add: claim_inv_def)
      then show ?thesis using wins'[of did] by (cases "is_open did d'"; cases "is_open did (cl_db s)"; cases "is_open did d0") auto
    qed
    moreover have "\<forall>x \<in> set (cl_claims s). cm_phase x = Answered (Inl (conflict ''delivery already claimed''))
        \<longrightarrow> \<not> is_open (cm_id x) d'"
      using update(5) u(1) unfolding claim_inv_def by blast
    moreover have "\<not> is_open (cm_id c) d'" using u(1) by simp
    ultimately show ?thesis
      using update(5) p u(2,4) by (auto simp: claim_inv_def dest!: set_update_subset_insert[THEN subsetD])
  qed
qed

interpretation claims: step_invariant "claim_step b64 sha256" "claim_inv b64 sha256 d0" "\<lambda>_ _. True" for b64 sha256 d0
  by unfold_locales (auto intro: claim_inv_step)

lemma claim_inv_init:
  assumes "unique_key d_delivery_id (credential_deliveries (cl_db s0))" "\<forall>c \<in> set (cl_claims s0). cm_phase c = Waiting"
  shows "claim_inv b64 sha256 (cl_db s0) s0"
proof -
  have "wins did (cl_claims s0) = 0" for did using assms(2) by (auto simp: wins_def filter_empty_conv)
  then show ?thesis using assms by (simp add: claim_inv_def)
qed

section \<open>The mailbox invariant\<close>

definition mailbox_ok :: "db \<Rightarrow> bool" where
  "mailbox_ok d \<longleftrightarrow>
     unique_key d_delivery_id (credential_deliveries d) \<and> unique_key d_seq (credential_deliveries d)
     \<and> (\<forall>r \<in> set (credential_deliveries d). d_seq r < delivery_serial d)"

lemma mailbox_ok_empty [wf_intros]: "mailbox_ok empty_db"
  by (simp add: mailbox_ok_def empty_db_def)

lemma insert_delivery_ok:
  assumes "mailbox_ok d" "insert_delivery r d = Inr d'"
  shows "mailbox_ok d'" "credential_deliveries d' = credential_deliveries d @ [r\<lparr>d_seq := delivery_serial d\<rparr>]"
proof -
  have d': "d' = d\<lparr>credential_deliveries := credential_deliveries d @ [r\<lparr>d_seq := delivery_serial d\<rparr>],
      delivery_serial := delivery_serial d + 1\<rparr>"
    and fresh: "\<forall>r' \<in> set (credential_deliveries d). d_delivery_id r' \<noteq> d_delivery_id r"
    using assms(2) by (auto simp: insert_delivery_def list_ex_iff split: if_splits)
  have "\<forall>r' \<in> set (credential_deliveries d). d_seq r' \<noteq> delivery_serial d \<and> d_seq r' < delivery_serial d + 1"
    using assms(1) by (fastforce simp: mailbox_ok_def)
  then show "mailbox_ok d'"
    using assms(1) fresh unfolding d' mailbox_ok_def unique_key_def by force
  show "credential_deliveries d' = credential_deliveries d @ [r\<lparr>d_seq := delivery_serial d\<rparr>]" by (simp add: d')
qed

lemma deliver_check_ok:
  assumes "deliver_check b64 quota call_issuer call_count now req d = Inr c"
  shows "b64 (dr_ciphertext req) = Some (cd_ciphertext c)" "1 \<le> length (cd_ciphertext c)" "length (cd_ciphertext c) \<le> 65536"
    "case cd_token_hash c of None \<Rightarrow> True | Some h \<Rightarrow> length h = 32" "active_issuer (dr_issuer_id req) d \<noteq> None"
    "quota = 0 \<or> delivered_last_hour (dr_issuer_id req) now d < quota"
  using assms
  by (auto simp: deliver_check_def decode_token_hash_def MAX_CIPHERTEXT_BYTES_def Suc_le_eq split: option.splits sum.splits if_splits)

lemma deliver_insertE:
  assumes "deliver_insert call now uuid req c d = (d', res)"
  obtains (refused) e where "d' = d" "res = Inl e"
  | (stored) r where "insert_delivery r d = Inr d'" "res = Inr (CREATED, uuid)" "d_delivery_id r = uuid"
      "d_issuer_id r = dr_issuer_id req" "d_recipient_hint r = dr_recipient_hint req" "d_ciphertext r = cd_ciphertext c"
      "d_created_at r = now" "d_claimed_at r = None" "d_claim_token_hash r = cd_token_hash c"
  using assms by (auto simp: deliver_insert_def split: option.splits sum.splits)

lemma delivered_later: "now \<le> later \<Longrightarrow> delivered_last_hour iid later d \<le> delivered_last_hour iid now d"
proof -
  assume "now \<le> later"
  then have "length (filter (\<lambda>r. d_issuer_id r = iid \<and> d_created_at r > later - HOUR) rows)
      \<le> length (filter (\<lambda>r. d_issuer_id r = iid \<and> d_created_at r > now - HOUR) rows)" for rows
    by (induction rows) auto
  then show ?thesis by (simp add: delivered_last_hour_def)
qed

lemma delivered_insert:
  "insert_delivery r d = Inr d' \<Longrightarrow>
   delivered_last_hour iid now d' = delivered_last_hour iid now d + of_bool (d_issuer_id r = iid \<and> now - HOUR < d_created_at r)"
  by (auto simp: insert_delivery_def delivered_last_hour_def split: if_splits)

section \<open>The quota under concurrency\<close>

text \<open>Deliveries in flight count against the quota as if they were stored already.\<close>

definition quota_inv :: "nat \<Rightarrow> nat \<Rightarrow> delivery_sys \<Rightarrow> bool" where
  "quota_inv quota limit s \<longleftrightarrow>
     (\<forall>iid. delivered_last_hour iid (ds_clock s) (ds_db s) + in_flight_of iid s \<le> quota + (limit - 1))"

lemma delivered_claimed [simp]:
  "delivered_last_hour iid now (d\<lparr>credential_deliveries :=
     update_where P (\<lambda>r. r\<lparr>d_claimed_at := t\<rparr>) (credential_deliveries d)\<rparr>) = delivered_last_hour iid now d"
proof -
  have "length (filter (\<lambda>r. d_issuer_id r = iid \<and> d_created_at r > now - HOUR) (update_where P (\<lambda>r. r\<lparr>d_claimed_at := t\<rparr>) rows))
      = length (filter (\<lambda>r. d_issuer_id r = iid \<and> d_created_at r > now - HOUR) rows)" for rows
    by (induction rows) (auto simp: update_where_def)
  then show ?thesis by (simp add: delivered_last_hour_def)
qed

lemma delivered_filter:
  "delivered_last_hour iid now (d\<lparr>credential_deliveries := filter P (credential_deliveries d)\<rparr>) \<le> delivered_last_hour iid now d"
proof -
  have "length (filter Q (filter P rows)) \<le> length (filter Q rows)" for Q and rows :: "delivery_row list"
    by (induction rows) auto
  then show ?thesis by (simp add: delivered_last_hour_def)
qed

text \<open>Every step lets the stored and the reserved deliveries of an issuer grow by an admission only.\<close>

lemma quota_inv_mono:
  assumes "quota_inv quota limit s"
    and "\<And>iid. delivered_last_hour iid (ds_clock s') (ds_db s') + in_flight_of iid s'
      \<le> delivered_last_hour iid (ds_clock s) (ds_db s) + in_flight_of iid s"
  shows "quota_inv quota limit s'"
  using assms unfolding quota_inv_def by (meson order_trans)

lemma quota_inv_step:
  assumes "deliver_step b64 quota limit s s'" "0 < quota \<and> quota_inv quota limit s"
  shows "0 < quota \<and> quota_inv quota limit s'"
  using assms
proof (induction rule: deliver_step.induct)
  case (admit call_issuer call_count s req c)
  have "delivered_last_hour (dr_issuer_id req) (ds_clock s) (ds_db s) < quota"
    using deliver_check_ok(6)[OF admit(1)] admit(3) by simp
  then show ?case using admit(2,3) by (auto simp: quota_inv_def in_flight_of_def)
next
  case (insert s before req c after call uuid d' res)
  from insert(2) have stored: "delivered_last_hour iid (ds_clock s) d'
      \<le> delivered_last_hour iid (ds_clock s) (ds_db s) + of_bool (dr_issuer_id req = iid)" for iid
    by (cases rule: deliver_insertE) (auto simp: delivered_insert)
  have left: "in_flight_of iid s
      = in_flight_of iid (s\<lparr>ds_db := d', ds_in_flight := before @ after\<rparr>) + of_bool (dr_issuer_id req = iid)" for iid
    by (simp add: in_flight_of_def insert(1))
  have "delivered_last_hour iid (ds_clock s) d' + in_flight_of iid (s\<lparr>ds_db := d', ds_in_flight := before @ after\<rparr>)
      \<le> delivered_last_hour iid (ds_clock s) (ds_db s) + in_flight_of iid s" for iid
    using stored[of iid] left[of iid] by linarith
  then show ?case using insert(3) by (auto intro: quota_inv_mono[of quota limit s])
next
  case (tick s t)
  have "quota_inv quota limit (s\<lparr>ds_clock := t\<rparr>)"
    by (rule quota_inv_mono[of quota limit s]) (use tick delivered_later in \<open>simp_all add: in_flight_of_def\<close>)
  then show ?case using tick(2) by simp
next
  case (expired s P)
  have "quota_inv quota limit (s\<lparr>ds_db := (ds_db s)\<lparr>credential_deliveries := filter P (credential_deliveries (ds_db s))\<rparr>\<rparr>)"
    by (rule quota_inv_mono[of quota limit s]) (use expired delivered_filter in \<open>simp_all add: in_flight_of_def\<close>)
  then show ?case using expired by simp
qed (simp_all add: quota_inv_def in_flight_of_def, simp add: delivered_last_hour_def)

interpretation deliveries: step_invariant "deliver_step b64 quota limit" "\<lambda>s. 0 < quota \<and> quota_inv quota limit s" "\<lambda>_ _. True"
  for b64 quota limit
  by unfold_locales (auto dest: quota_inv_step)

section \<open>Properties of the mailbox\<close>

text \<open>
  C7. Claims race to exactly one winner.  However the statements of any number of concurrent
  claims interleave, and whichever of them fail, at most one claim of a delivery is answered
  204; whoever is answered so presented a preimage of the stored hash; and once a claim of a
  delivery that was open is told \<open>already claimed\<close>, another one has won it.
\<close>

theorem claims_have_one_winner:
  assumes "reachable (claim_step b64_decode sha) s0 s"
    and "unique_key d_delivery_id (credential_deliveries (cl_db s0))"
    and "\<forall>c \<in> set (cl_claims s0). cm_phase c = Waiting"
  shows "wins did (cl_claims s) \<le> 1
    \<and> (\<forall>c \<in> set (cl_claims s). cm_phase c = Answered (Inr NO_CONTENT) \<longrightarrow> proven b64_decode sha (cl_db s0) c)
    \<and> (\<forall>c \<in> set (cl_claims s). cm_id c = did \<and> cm_phase c = Answered (Inl (conflict ''delivery already claimed''))
          \<and> is_open did (cl_db s0) \<longrightarrow> wins did (cl_claims s) = 1)"
proof -
  have inv: "claim_inv b64_decode sha (cl_db s0) s"
    by (rule claims.reachable_ok[OF assms(1) claim_inv_init[OF assms(2,3)]])
  then have w: "wins did (cl_claims s) + of_bool (is_open did (cl_db s)) = of_bool (is_open did (cl_db s0))"
    by (simp add: claim_inv_def)
  then have "wins did (cl_claims s) \<le> 1" by (cases "is_open did (cl_db s0)") auto
  moreover have "wins did (cl_claims s) = 1"
    if "c \<in> set (cl_claims s)" "cm_id c = did" "cm_phase c = Answered (Inl (conflict ''delivery already claimed''))"
      "is_open did (cl_db s0)" for c
  proof -
    have "\<not> is_open did (cl_db s)" using inv that(1-3) unfolding claim_inv_def by blast
    then show ?thesis using w that(4) by simp
  qed
  ultimately show ?thesis using inv unfolding claim_inv_def by blast
qed

definition sample_delivery :: delivery_row where
  "sample_delivery = \<lparr>d_seq = 1, d_delivery_id = 7, d_issuer_id = ''iss'', d_recipient_hint = ''h'', d_ciphertext = [1],
     d_issuer_signature = [], d_created_at = 0, d_claimed_at = None, d_claim_token_hash = Some [9]\<rparr>"

definition sample_mail_db :: db where
  "sample_mail_db = empty_db\<lparr>credential_deliveries := [sample_delivery], delivery_serial := 2\<rparr>"

definition sample_claim :: "claim_phase \<Rightarrow> claim" where
  "sample_claim p = \<lparr>cm_id = 7, cm_token = ''tok'', cm_phase = p\<rparr>"

text \<open>Two claims are both authorized before either updates; the second update finds no row.\<close>

lemma sample_claim_race:
  fixes b64_decode sha
  defines "b64_decode \<equiv> \<lambda>s. if s = ''tok'' then Some [5] else None" and "sha \<equiv> \<lambda>_. [9 :: byte]"
  shows "reachable (claim_step b64_decode sha)
     \<lparr>cl_db = sample_mail_db, cl_claims = [sample_claim Waiting, sample_claim Waiting]\<rparr>
     \<lparr>cl_db = sample_mail_db\<lparr>credential_deliveries := [sample_delivery\<lparr>d_claimed_at := Some 3\<rparr>]\<rparr>,
      cl_claims = [sample_claim (Answered (Inr NO_CONTENT)),
                   sample_claim (Answered (Inl (conflict ''delivery already claimed'')))]\<rparr>"
proof -
  let ?d = sample_mail_db and ?d' = "sample_mail_db\<lparr>credential_deliveries := [sample_delivery\<lparr>d_claimed_at := Some 3\<rparr>]\<rparr>"
  let ?s = "\<lambda>d p q. \<lparr>cl_db = d, cl_claims = [sample_claim p, sample_claim q]\<rparr>"
  let ?won = "Answered (Inr NO_CONTENT)" and ?lost = "Answered (Inl (conflict ''delivery already claimed''))"
  have check: "claim_check b64_decode sha None 7 ''tok'' ?d = Inr ()"
    by (simp add: claim_check_def b64_decode_def sha_def find_delivery_def sample_mail_db_def sample_delivery_def)
  have up: "claim_update None 3 7 ?d = (?d', Inr NO_CONTENT)" "claim_update None 4 7 ?d' = (?d', Inl (conflict ''delivery already claimed''))"
    by (simp_all add: claim_update_def update_where_def open_claim_def sample_mail_db_def sample_delivery_def)
  have "claim_step b64_decode sha (?s ?d Waiting Waiting) (?s ?d Authorized Waiting)"
    using claim_step.authorize[of 0 "?s ?d Waiting Waiting" "sample_claim Waiting" b64_decode sha None] check
    by (simp add: sample_claim_def)
  moreover have "claim_step b64_decode sha (?s ?d Authorized Waiting) (?s ?d Authorized Authorized)"
    using claim_step.authorize[of 1 "?s ?d Authorized Waiting" "sample_claim Waiting" b64_decode sha None] check
    by (simp add: sample_claim_def)
  moreover have "claim_step b64_decode sha (?s ?d Authorized Authorized) (?s ?d' ?won Authorized)"
    using claim_step.update[of 0 "?s ?d Authorized Authorized" "sample_claim Authorized" None 3 _ _ b64_decode sha] up(1)
    by (simp add: sample_claim_def)
  moreover have "claim_step b64_decode sha (?s ?d' ?won Authorized) (?s ?d' ?won ?lost)"
    using claim_step.update[of 1 "?s ?d' ?won Authorized" "sample_claim Authorized" None 4 _ _ b64_decode sha] up(2)
    by (simp add: sample_claim_def)
  ultimately show ?thesis by (meson reachable.intros)
qed

theorem claims_have_one_winner_witness:
  "wins 7 [sample_claim (Answered (Inr NO_CONTENT)), sample_claim (Answered (Inl (conflict ''delivery already claimed'')))] \<le> 1"
proof -
  have "unique_key d_delivery_id (credential_deliveries sample_mail_db)"
    by (simp add: sample_mail_db_def unique_key_def)
  then show ?thesis using claims_have_one_winner[OF sample_claim_race, of 7] by (simp add: sample_claim_def)
qed

text \<open>
  C35. A delivery is all or nothing.  A refused one leaves the database as it was; an accepted
  one comes from an active issuer within its hourly quota, and adds exactly one unclaimed row
  to the mailbox of the hint, with the decoded, size-checked ciphertext and a 32-byte token
  hash if any, behind every cursor handed out so far.
\<close>

theorem delivery_is_all_or_nothing:
  assumes "mailbox_ok d" "fst clocks \<le> snd clocks"
  shows "case deliver_credential b64_decode quota calls clocks uuid req d of
      (d', Inl e) \<Rightarrow> d' = d
    | (d', Inr (code, did)) \<Rightarrow> code = CREATED \<and> did = uuid \<and> mailbox_ok d'
        \<and> active_issuer (dr_issuer_id req) d \<noteq> None
        \<and> (quota = 0 \<or> delivered_last_hour (dr_issuer_id req) (snd clocks) d' \<le> quota)
        \<and> (\<exists>r. credential_deliveries d' = credential_deliveries d @ [r] \<and> in_mailbox (dr_recipient_hint req) r
              \<and> d_delivery_id r = uuid \<and> b64_decode (dr_ciphertext req) = Some (d_ciphertext r)
              \<and> 1 \<le> length (d_ciphertext r) \<and> length (d_ciphertext r) \<le> 65536
              \<and> (case d_claim_token_hash r of None \<Rightarrow> True | Some h \<Rightarrow> length h = 32)
              \<and> (\<forall>r' \<in> set (credential_deliveries d). d_seq r' < d_seq r))"
proof (cases "deliver_check b64_decode quota (fst calls) (fst (snd calls)) (fst clocks) req d")
  case (Inl e)
  then show ?thesis by (simp add: deliver_credential_def)
next
  case (Inr c)
  note chk = deliver_check_ok[OF Inr]
  show ?thesis
  proof (cases "deliver_insert (snd (snd calls)) (snd clocks) uuid req c d")
    case (Pair d' res)
    then show ?thesis
    proof (cases rule: deliver_insertE)
      case (stored r)
      note i = insert_delivery_ok[OF assms(1) stored(1)]
      have "delivered_last_hour (dr_issuer_id req) (snd clocks) d' \<le> Suc (delivered_last_hour (dr_issuer_id req) (fst clocks) d)"
        using delivered_insert[OF stored(1), of "dr_issuer_id req" "snd clocks"] delivered_later[OF assms(2), of "dr_issuer_id req" d]
        by (auto simp: of_bool_def split: if_splits)
      then show ?thesis
        using Pair stored Inr chk i assms(1) by (auto simp: deliver_credential_def in_mailbox_def mailbox_ok_def)
    qed (simp_all add: deliver_credential_def Inr Pair)
  qed
qed

definition sample_issuer :: issuer_row where
  "sample_issuer = \<lparr>i_issuer_id = ''iss'', i_name = ''Acme'', i_public_key = [], i_claim_types = [], i_status = ''active'',
     i_registered_ledger = 1\<rparr>"

theorem delivery_is_all_or_nothing_witness:
  "case deliver_credential (\<lambda>s. Some [1, 2]) 1 (None, None, None) (0, 0) 7
     \<lparr>dr_issuer_id = ''iss'', dr_recipient_hint = ''h'', dr_ciphertext = ''AQI='', dr_issuer_signature = ''AQI='',
      dr_claim_token_hash = None\<rparr> (empty_db\<lparr>issuers := [sample_issuer]\<rparr>) of
      (d', Inl e) \<Rightarrow> False
    | (d', Inr (code, did)) \<Rightarrow> code = CREATED \<and> did = 7"
  using delivery_is_all_or_nothing[where d = "empty_db\<lparr>issuers := [sample_issuer]\<rparr>" and b64_decode = "\<lambda>s. Some [1, 2]"
      and quota = 1 and calls = "(None, None, None)" and clocks = "(0, 0)" and uuid = 7 and req = "\<lparr>dr_issuer_id = ''iss'', dr_recipient_hint = ''h'', dr_ciphertext = ''AQI='', dr_issuer_signature = ''AQI='',
      dr_claim_token_hash = None\<rparr>"]
  by (simp add: deliver_credential_def deliver_check_def deliver_insert_def mailbox_ok_def empty_db_def decode_token_hash_def active_issuer_def
      delivered_last_hour_def insert_delivery_def sample_issuer_def MAX_CIPHERTEXT_BYTES_def)

text \<open>
  C39. The hourly quota under concurrency: the count and the INSERT are separate statements, so
  the quota can be exceeded, but by less than the number of deliveries of one issuer in flight at once,
  whatever else happens to the mailbox and the registry meanwhile; without concurrency it is exact.
\<close>

theorem quota_overshoot_is_bounded:
  assumes "reachable (deliver_step b64_decode quota limit) s0 s" "0 < quota" "ds_in_flight s0 = []"
    and "\<forall>iid. delivered_last_hour iid (ds_clock s0) (ds_db s0) \<le> quota"
  shows "delivered_last_hour iid (ds_clock s) (ds_db s) \<le> quota + (limit - 1)"
proof -
  have "quota_inv quota limit s0"
    using assms(3,4) by (auto simp: quota_inv_def in_flight_of_def intro: trans_le_add1)
  then have "quota_inv quota limit s" using deliveries.reachable_ok[OF assms(1)] assms(2) by blast
  then show ?thesis by (metis add_leD1 quota_inv_def)
qed

text \<open>With a quota of one, two deliveries that are both counted before either is stored are both stored.\<close>

definition sample_deliver :: deliver_request where
  "sample_deliver = \<lparr>dr_issuer_id = ''iss'', dr_recipient_hint = ''h'', dr_ciphertext = ''AQI='', dr_issuer_signature = ''AQI='',
     dr_claim_token_hash = None\<rparr>"

definition sample_checked :: checked_delivery where
  "sample_checked = \<lparr>cd_ciphertext = [1, 2], cd_signature = [1, 2], cd_token_hash = None\<rparr>"

definition issuer_db :: db where
  "issuer_db = empty_db\<lparr>issuers := [sample_issuer]\<rparr>"

definition with_delivery :: "nat \<Rightarrow> db \<Rightarrow> db" where
  "with_delivery uuid d = fst (deliver_insert None 0 uuid sample_deliver sample_checked d)"

lemma quota_is_exceeded_by_race:
  "reachable (deliver_step (\<lambda>_. Some [1, 2]) 1 2) \<lparr>ds_db = issuer_db, ds_clock = 0, ds_in_flight = []\<rparr>
     \<lparr>ds_db = with_delivery 8 (with_delivery 7 issuer_db), ds_clock = 0, ds_in_flight = []\<rparr>"
  "delivered_last_hour ''iss'' 0 (with_delivery 8 (with_delivery 7 issuer_db)) = 2"
proof -
  let ?step = "deliver_step (\<lambda>_. Some [1, 2]) 1 2" and ?f = "(sample_deliver, sample_checked)"
  let ?s = "\<lambda>d fs. \<lparr>ds_db = d, ds_clock = 0, ds_in_flight = fs\<rparr>"
  have check: "deliver_check (\<lambda>_. Some [1, 2]) 1 None None 0 sample_deliver issuer_db = Inr sample_checked"
    by (simp add: deliver_check_def sample_deliver_def sample_checked_def issuer_db_def decode_token_hash_def active_issuer_def
        delivered_last_hour_def sample_issuer_def MAX_CIPHERTEXT_BYTES_def empty_db_def)
  have ins: "\<exists>res. deliver_insert None 0 uuid sample_deliver sample_checked d = (with_delivery uuid d, res)" for uuid d
    by (simp add: with_delivery_def prod_eq_iff)
  obtain r7 r8 where i: "deliver_insert None 0 7 sample_deliver sample_checked issuer_db = (with_delivery 7 issuer_db, r7)"
      "deliver_insert None 0 8 sample_deliver sample_checked (with_delivery 7 issuer_db) = (with_delivery 8 (with_delivery 7 issuer_db), r8)"
    using ins by blast
  have "?step (?s issuer_db []) (?s issuer_db [?f])"
    using deliver_step.admit[of _ 1 None None "?s issuer_db []" sample_deliver sample_checked 2] check
    by (simp add: in_flight_of_def)
  moreover have "?step (?s issuer_db [?f]) (?s issuer_db [?f, ?f])"
    using deliver_step.admit[of _ 1 None None "?s issuer_db [?f]" sample_deliver sample_checked 2] check
    by (simp add: in_flight_of_def)
  moreover have "?step (?s issuer_db [?f, ?f]) (?s (with_delivery 7 issuer_db) [?f])"
    using deliver_step.insert[of "?s issuer_db [?f, ?f]" "[]" sample_deliver sample_checked "[?f]" None 7] i(1) by simp
  moreover have "?step (?s (with_delivery 7 issuer_db) [?f]) (?s (with_delivery 8 (with_delivery 7 issuer_db)) [])"
    using deliver_step.insert[of "?s (with_delivery 7 issuer_db) [?f]" "[]" sample_deliver sample_checked "[]" None 8] i(2) by simp
  ultimately show "reachable ?step (?s issuer_db []) (?s (with_delivery 8 (with_delivery 7 issuer_db)) [])"
    by (meson reachable.intros)
  show "delivered_last_hour ''iss'' 0 (with_delivery 8 (with_delivery 7 issuer_db)) = 2"
    by (simp add: with_delivery_def deliver_insert_def insert_delivery_def issuer_db_def empty_db_def sample_deliver_def
        sample_issuer_def delivered_last_hour_def HOUR_def)
qed

theorem quota_overshoot_is_bounded_witness:
  "delivered_last_hour ''iss'' 0 (with_delivery 8 (with_delivery 7 issuer_db)) \<le> 1 + (2 - 1)"
  using quota_overshoot_is_bounded[OF quota_is_exceeded_by_race(1), of "''iss''"]
  by (simp add: issuer_db_def empty_db_def delivered_last_hour_def)

section \<open>Pickup\<close>

definition deliveries_request :: "string \<Rightarrow> db \<Rightarrow> int \<Rightarrow> delivery_row list \<times> int option" where
  "deliveries_request hint d cursor =
     (case list_deliveries hint (Some cursor) None d of
        Inr p \<Rightarrow> (dp_deliveries p, dp_next_cursor p) | Inl e \<Rightarrow> ([], None))"

interpretation deliveries_feed: cursor_feed mailbox_ok
    "\<lambda>d. select_by d_seq (in_mailbox hint) (credential_deliveries d)" d_seq "deliveries_request hint" DELIVERIES_PAGE_SIZE
  for hint
proof (unfold_locales, goal_cases)
  case (1 d)
  then show ?case by (simp add: mailbox_ok_def select_by_increasing)
next
  case (2 d c)
  then show ?case by (simp add: deliveries_request_def list_deliveries_def query_after_select Let_def)
next
  case (3 d c)
  then show ?case by (simp add: deliveries_request_def list_deliveries_def Let_def)
qed (simp add: DELIVERIES_PAGE_SIZE_def)

text \<open>
  C36. Pickup is complete: following the cursors of \<open>/v1/credentials\<close>, \<open>n\<close> requests suffice for
  fewer than \<open>200 * n\<close> deliveries, and they return all unclaimed mail of the hint after the
  first cursor, each delivery once, in the order of \<open>seq\<close>.
\<close>

theorem pickup_is_complete:
  assumes "mailbox_ok d"
    and "length (filter (\<lambda>r. c < d_seq r) (select_by d_seq (in_mailbox hint) (credential_deliveries d))) < n * 200"
  shows "follow_pages (deliveries_request hint) (replicate n d) c
    = Some (filter (\<lambda>r. c < d_seq r) (select_by d_seq (in_mailbox hint) (credential_deliveries d)))"
  using deliveries_feed.follow_static[OF assms(1), where c = c and n = n and hint = hint] assms(2)
  by (simp add: deliveries_feed.after_def DELIVERIES_PAGE_SIZE_def)

theorem pickup_is_complete_witness:
  "follow_pages (deliveries_request ''h'') (replicate 1 sample_mail_db) 0
    = Some (filter (\<lambda>r. 0 < d_seq r) (select_by d_seq (in_mailbox ''h'') (credential_deliveries sample_mail_db)))"
  by (rule pickup_is_complete)
     (simp_all add: mailbox_ok_def sample_mail_db_def sample_delivery_def unique_key_def select_by_def in_mailbox_def)

end
