(* ===== verification/Retention.thy ===== *)
theory Retention
  imports Mailbox "HOL-Library.Multiset"
begin

text \<open>
  The retention sweeper of the credential mailbox, \<open>crates/attesta-api/src/retention.rs\<close>.  Its
  queries run one after another on one connection; an environment says what each of them meets.
\<close>

section \<open>Sweeps\<close>

definition SWEEP_BATCH :: nat where
  "SWEEP_BATCH = 10000"

definition DAY :: int where
  "DAY = 86400 * 10 ^ 9"

text \<open>
  The range of \<open>timestamptz\<close>, 4713 BC to 294276 AD; arithmetic that leaves it is an error
  (\<open>22008\<close>).
\<close>

definition timestamp_ok :: "int \<Rightarrow> bool" where
  "timestamp_ok t \<longleftrightarrow> - 2440588 * DAY \<le> t \<and> t < 106762940 * DAY"

definition cutoff :: "int \<Rightarrow> 32 word \<Rightarrow> sqlx_error + int" where
  "cutoff now days =
     (let t = now - u32_as_i32 days * DAY
      in if timestamp_ok t then Inr t else Inl (SqlxDatabase (Some ''22008'')))"

definition expired_claimed :: "int \<Rightarrow> delivery_row \<Rightarrow> bool" where
  "expired_claimed t r \<longleftrightarrow> (case d_claimed_at r of None \<Rightarrow> False | Some c \<Rightarrow> c < t)"

definition expired_unclaimed :: "int \<Rightarrow> delivery_row \<Rightarrow> bool" where
  "expired_unclaimed t r \<longleftrightarrow> d_claimed_at r = None \<and> d_created_at r < t"

text \<open>
  The sweep loop.  \<open>env k\<close> is what the \<open>k\<close>-th DELETE meets: an error or none, its \<open>now()\<close>, and
  the order in which its LIMIT, which has no ORDER BY, takes the rows.  \<open>None\<close>: out of fuel.
\<close>

type_synonym sweep_env = "nat \<Rightarrow> db_call \<times> int \<times> (delivery_row list \<Rightarrow> delivery_row list)"

definition delete_batch :: "db_call \<times> int \<times> (delivery_row list \<Rightarrow> delivery_row list) \<Rightarrow> (int \<Rightarrow> delivery_row \<Rightarrow> bool)
    \<Rightarrow> 32 word \<Rightarrow> db \<Rightarrow> sqlx_error + db \<times> nat" where
  "delete_batch e predicate days d =
     (case fst e of
        Some err \<Rightarrow> Inl err
      | None \<Rightarrow>
          (case cutoff (fst (snd e)) days of
             Inl err \<Rightarrow> Inl err
           | Inr t \<Rightarrow>
               let victims = map d_delivery_id
                     (take SWEEP_BATCH (snd (snd e) (filter (predicate t) (credential_deliveries d))));
                   kept = filter (\<lambda>r. d_delivery_id r \<notin> set victims) (credential_deliveries d)
               in Inr (d\<lparr>credential_deliveries := kept\<rparr>, length (credential_deliveries d) - length kept)))"

primrec sweep :: "nat \<Rightarrow> sweep_env \<Rightarrow> (int \<Rightarrow> delivery_row \<Rightarrow> bool) \<Rightarrow> 32 word \<Rightarrow> nat \<Rightarrow> db \<Rightarrow> db option" where
  "sweep 0 env predicate days k d = None"
| "sweep (Suc fuel) env predicate days k d =
     (case delete_batch (env k) predicate days d of
        Inl err \<Rightarrow> Some d
      | Inr (d', n) \<Rightarrow> if n < SWEEP_BATCH then Some d' else sweep fuel env predicate days (Suc k) d')"

text \<open>One cycle: connection, advisory lock, the two sweeps; the outcome of the unlock is only logged.\<close>

definition run_cycle :: "nat \<Rightarrow> db_call \<Rightarrow> sqlx_error + bool \<Rightarrow> sweep_env \<Rightarrow> sweep_env \<Rightarrow> 32 word \<Rightarrow> 32 word \<Rightarrow> db \<Rightarrow> db option" where
  "run_cycle fuel acquire lock env_claimed env_unclaimed claimed_days unclaimed_days d =
     (case acquire of
        Some e \<Rightarrow> Some d
      | None \<Rightarrow>
          (case lock of
             Inl e \<Rightarrow> Some d
           | Inr False \<Rightarrow> Some d
           | Inr True \<Rightarrow> do {
               d1 \<leftarrow> (if claimed_days > 0 then sweep fuel env_claimed expired_claimed claimed_days 0 d else Some d);
               if unclaimed_days > 0 then sweep fuel env_unclaimed expired_unclaimed unclaimed_days 0 d1 else Some d1 }))"

text \<open>
  \<open>run\<close>, observed for \<open>n\<close> rounds of its endless loop: \<open>rounds k\<close> is what round \<open>k\<close> meets.
\<close>

primrec retention_rounds :: "nat \<Rightarrow> (nat \<Rightarrow> db_call \<times> (sqlx_error + bool) \<times> sweep_env \<times> sweep_env)
    \<Rightarrow> nat \<Rightarrow> 32 word \<Rightarrow> 32 word \<Rightarrow> nat \<Rightarrow> db \<Rightarrow> db option" where
  "retention_rounds fuel rounds 0 claimed_days unclaimed_days k d = Some d"
| "retention_rounds fuel rounds (Suc n) claimed_days unclaimed_days k d =
     (case rounds k of (acquire, lock, env1, env2) \<Rightarrow>
        do { d' \<leftarrow> run_cycle fuel acquire lock env1 env2 claimed_days unclaimed_days d;
             retention_rounds fuel rounds n claimed_days unclaimed_days (Suc k) d' })"

definition retention_run :: "nat \<Rightarrow> (nat \<Rightarrow> db_call \<times> (sqlx_error + bool) \<times> sweep_env \<times> sweep_env)
    \<Rightarrow> nat \<Rightarrow> 32 word \<Rightarrow> 32 word \<Rightarrow> db \<Rightarrow> db option" where
  "retention_run fuel rounds n claimed_days unclaimed_days d =
     (if claimed_days = 0 \<and> unclaimed_days = 0 then Some d
      else retention_rounds fuel rounds n claimed_days unclaimed_days 0 d)"

section \<open>What a sweep deletes\<close>

text \<open>An environment without failures whose statements all run at one time.\<close>

definition calm :: "int \<Rightarrow> sweep_env \<Rightarrow> bool" where
  "calm now env \<longleftrightarrow> (\<forall>k. fst (env k) = None \<and> fst (snd (env k)) = now
     \<and> (\<forall>xs. mset (snd (snd (env k)) xs) = mset xs))"

definition without :: "(delivery_row \<Rightarrow> bool) \<Rightarrow> db \<Rightarrow> db" where
  "without P d = d\<lparr>credential_deliveries := filter (\<lambda>r. \<not> P r) (credential_deliveries d)\<rparr>"

lemma without_cong: "(\<And>r. r \<in> set (credential_deliveries d) \<Longrightarrow> P r = Q r) \<Longrightarrow> without P d = without Q d"
  unfolding without_def by (simp cong: filter_cong)

lemma length_filter_mem:
  assumes "distinct xs" "V \<subseteq> set xs"
  shows "length (filter (\<lambda>x. x \<in> V) xs) = card V"
proof -
  have "set (filter (\<lambda>x. x \<in> V) xs) = V" using assms(2) by auto
  then show ?thesis using distinct_card[of "filter (\<lambda>x. x \<in> V) xs"] assms(1) by simp
qed

text \<open>What one DELETE removes: some of the matching rows, all of them if they fit one batch.\<close>

lemma length_filter_not: "length xs - length (filter (\<lambda>x. \<not> P x) xs) = length (filter P xs)"
  using sum_length_filter_compl[of P xs] by linarith

lemma delete_batch_ok:
  assumes u: "unique_key d_delivery_id (credential_deliveries d)"
    and e: "fst e = None" "mset (snd (snd e) (filter (predicate t) (credential_deliveries d)))
       = mset (filter (predicate t) (credential_deliveries d))"
    and t: "cutoff (fst (snd e)) days = Inr t"
  obtains V where "delete_batch e predicate days d = Inr (without (\<lambda>r. r \<in> V) d, min SWEEP_BATCH (length (filter (predicate t) (credential_deliveries d))))"
    "V \<subseteq> {r \<in> set (credential_deliveries d). predicate t r}"
    "card V = min SWEEP_BATCH (length (filter (predicate t) (credential_deliveries d)))"
proof -
  let ?rows = "credential_deliveries d"
  define order where "order = snd (snd e) (filter (predicate t) ?rows)"
  define V where "V = set (take SWEEP_BATCH order)"
  have d: "distinct ?rows" using u by (auto simp: unique_key_def distinct_map)
  have "distinct order" using e(2) d mset_eq_imp_distinct_iff[of order "filter (predicate t) ?rows"] by (simp add: order_def)
  have so: "set order = set (filter (predicate t) ?rows)" using e(2) unfolding order_def by (metis set_mset_mset)
  have lo: "length order = length (filter (predicate t) ?rows)" using e(2) unfolding order_def by (metis size_mset)
  have V: "V \<subseteq> {r \<in> set ?rows. predicate t r}" unfolding V_def using so set_take_subset[of SWEEP_BATCH order] by auto
  have cV: "card V = min SWEEP_BATCH (length (filter (predicate t) ?rows))"
    unfolding V_def using \<open>distinct order\<close> lo by (simp add: distinct_card min.commute)
  have "(d_delivery_id r \<notin> d_delivery_id ` V) = (r \<notin> V)" if "r \<in> set ?rows" for r
    using V that unique_key_eq[OF u] by (auto simp: image_iff)
  then have kept: "filter (\<lambda>r. d_delivery_id r \<notin> set (map d_delivery_id (take SWEEP_BATCH order))) ?rows
      = filter (\<lambda>r. r \<notin> V) ?rows"
    unfolding set_map V_def[symmetric] by (auto intro: filter_cong)
  have "length (filter (\<lambda>r. r \<in> V) ?rows) = card V"
    using length_filter_mem[OF d] V by blast
  then have n: "length ?rows - length (filter (\<lambda>r. r \<notin> V) ?rows) = card V"
    by (simp add: length_filter_not)
  have "delete_batch e predicate days d = Inr (without (\<lambda>r. r \<in> V) d, card V)"
    unfolding delete_batch_def by (simp add: e(1) t Let_def order_def[symmetric] kept[unfolded set_map] n without_def)
  then show ?thesis using that V cV by metis
qed

lemma without_without: "without P (without Q d) = without (\<lambda>r. P r \<or> Q r) d"
  by (simp add: without_def conj_commute)

lemma sweep_deletes_exactly:
  assumes "unique_key d_delivery_id (credential_deliveries d)" "calm now env" "cutoff now days = Inr t"
    and "length (filter (predicate t) (credential_deliveries d)) < fuel * SWEEP_BATCH"
  shows "sweep fuel env predicate days k d = Some (without (predicate t) d)"
  using assms(1,4)
proof (induction fuel arbitrary: k d)
  case (Suc fuel)
  let ?m = "length (filter (predicate t) (credential_deliveries d))"
  have e: "fst (env k) = None" "fst (snd (env k)) = now"
    "mset (snd (snd (env k)) (filter (predicate t) (credential_deliveries d)))
       = mset (filter (predicate t) (credential_deliveries d))"
    using assms(2) by (simp_all add: calm_def)
  obtain V where V: "delete_batch (env k) predicate days d = Inr (without (\<lambda>r. r \<in> V) d, min SWEEP_BATCH ?m)"
      "V \<subseteq> {r \<in> set (credential_deliveries d). predicate t r}" "card V = min SWEEP_BATCH ?m"
    by (rule delete_batch_ok[where e = "env k" and predicate = predicate and t = t and d = d and days = days,
          OF Suc.prems(1) e(1) e(3)]) (use e(2) assms(3) in simp_all)
  have d: "distinct (credential_deliveries d)" using Suc.prems(1) by (auto simp: unique_key_def distinct_map)
  show ?case
  proof (cases "?m < SWEEP_BATCH")
    case True
    have "card {r \<in> set (credential_deliveries d). predicate t r} = ?m"
      using d by (metis distinct_card distinct_filter set_filter)
    then have "V = {r \<in> set (credential_deliveries d). predicate t r}"
      using V(2,3) True by (intro card_subset_eq) auto
    then have "without (\<lambda>r. r \<in> V) d = without (predicate t) d"
      by (intro without_cong) auto
    then show ?thesis using V(1) True by simp
  next
    case False
    let ?d = "without (\<lambda>r. r \<in> V) d"
    have u: "unique_key d_delivery_id (credential_deliveries ?d)"
      using Suc.prems(1) by (simp add: without_def unique_key_filter)
    have "length (filter (predicate t) (credential_deliveries ?d)) + card V = ?m"
    proof -
      have f: "distinct (filter (predicate t) (credential_deliveries d))" using d by simp
      have "filter (\<lambda>r. r \<in> V) (filter (predicate t) (credential_deliveries d)) = filter (\<lambda>r. r \<in> V) (credential_deliveries d)"
        unfolding filter_filter using V(2) by (intro filter_cong) auto
      moreover have "length (filter (\<lambda>r. r \<in> V) (credential_deliveries d)) = card V"
        using length_filter_mem[OF d] V(2) by blast
      moreover have "filter (predicate t) (credential_deliveries ?d)
          = filter (\<lambda>r. r \<notin> V) (filter (predicate t) (credential_deliveries d))"
        by (simp add: without_def conj_commute)
      ultimately show ?thesis
        using sum_length_filter_compl[of "\<lambda>r. r \<in> V" "filter (predicate t) (credential_deliveries d)"] by simp
    qed
    then have "length (filter (predicate t) (credential_deliveries ?d)) < fuel * SWEEP_BATCH"
      using V(3) False Suc.prems(2) by simp
    from Suc.IH[OF u this] have "sweep fuel env predicate days (Suc k) ?d = Some (without (predicate t) ?d)" .
    moreover have "without (predicate t) ?d = without (predicate t) d"
      unfolding without_without using V(2) by (intro without_cong) auto
    ultimately show ?thesis using V(1) False by simp
  qed
qed simp

lemma u32_as_i32_small: "days < 2 ^ 31 \<Longrightarrow> u32_as_i32 (word_of_nat days) = int days"
proof -
  assume "days < 2 ^ 31"
  then have "sint (word_of_int (int days) :: 32 word) = int days"
    unfolding sint_sbintrunc' by (simp add: signed_take_bit_int_eq_self)
  then show ?thesis by (simp add: u32_as_i32_def)
qed

lemma cutoff_days:
  assumes "days < 2 ^ 31" "timestamp_ok (now - int days * DAY)"
  shows "cutoff now (word_of_nat days) = Inr (now - int days * DAY)"
  using assms by (simp add: cutoff_def u32_as_i32_small)


section \<open>Properties of retention\<close>

definition expired :: "int \<Rightarrow> nat \<Rightarrow> nat \<Rightarrow> delivery_row \<Rightarrow> bool" where
  "expired now claimed_days unclaimed_days r \<longleftrightarrow>
     (case d_claimed_at r of
        Some c \<Rightarrow> claimed_days > 0 \<and> c < now - int claimed_days * DAY
      | None \<Rightarrow> unclaimed_days > 0 \<and> d_created_at r < now - int unclaimed_days * DAY)"

lemma word_of_nat_pos: "n < 2 ^ 31 \<Longrightarrow> (0 < (word_of_nat n :: 32 word)) = (0 < n)"
proof -
  assume n: "n < 2 ^ 31"
  then have "n < 2 ^ LENGTH(32)" by simp
  then have "unat (word_of_nat n :: 32 word) = n" unfolding unat_of_nat by (rule mod_less)
  then show ?thesis by (simp add: word_less_nat_alt)
qed

lemma retention_exact:
  assumes "unique_key d_delivery_id (credential_deliveries d)" "calm now env1" "calm now env2"
    and "claimed_days < 2 ^ 31" "timestamp_ok (now - int claimed_days * DAY)"
    and "unclaimed_days < 2 ^ 31" "timestamp_ok (now - int unclaimed_days * DAY)"
    and "length (credential_deliveries d) < fuel * 10000"
  shows "run_cycle fuel None (Inr True) env1 env2 (word_of_nat claimed_days) (word_of_nat unclaimed_days) d
    = Some (without (expired now claimed_days unclaimed_days) d)"
proof -
  have len: "length (filter P (credential_deliveries d)) < fuel * SWEEP_BATCH" for P
    using le_less_trans[OF length_filter_le assms(8)] by (simp only: SWEEP_BATCH_def)
  let ?P = "\<lambda>r. claimed_days > 0 \<and> expired_claimed (now - int claimed_days * DAY) r"
  have one: "(if (word_of_nat claimed_days :: 32 word) > 0
      then sweep fuel env1 expired_claimed (word_of_nat claimed_days) 0 d else Some d) = Some (without ?P d)"
    using sweep_deletes_exactly[OF assms(1,2) cutoff_days[OF assms(4,5)] len] word_of_nat_pos[OF assms(4)]
    by (auto simp: without_def)
  let ?d = "without ?P d"
  have u: "unique_key d_delivery_id (credential_deliveries ?d)"
    using assms(1) by (simp add: without_def unique_key_filter)
  have "length (filter Q (credential_deliveries ?d)) \<le> length (filter Q (credential_deliveries d))" for Q
    unfolding without_def by (simp add: filter_filter conj_commute) (metis filter_filter length_filter_le)
  then have len2: "length (filter Q (credential_deliveries ?d)) < fuel * SWEEP_BATCH" for Q
    using len le_less_trans by blast
  have two: "(if (word_of_nat unclaimed_days :: 32 word) > 0
      then sweep fuel env2 expired_unclaimed (word_of_nat unclaimed_days) 0 ?d else Some ?d)
      = Some (without (\<lambda>r. unclaimed_days > 0 \<and> expired_unclaimed (now - int unclaimed_days * DAY) r) ?d)"
    using sweep_deletes_exactly[OF u assms(3) cutoff_days[OF assms(6,7)] len2] word_of_nat_pos[OF assms(6)]
    by (auto simp: without_def)
  have "without (\<lambda>r. unclaimed_days > 0 \<and> expired_unclaimed (now - int unclaimed_days * DAY) r) ?d
      = without (expired now claimed_days unclaimed_days) d"
    unfolding without_without
    by (rule without_cong) (auto simp: expired_def expired_claimed_def expired_unclaimed_def split: option.splits)
  then show ?thesis unfolding run_cycle_def by (simp only: option.case sum.case bool.case one two bind.bind_lunit)
qed

text \<open>
  C31. Retention is exact: a sweep cycle that meets no failure deletes the claimed deliveries
  that were claimed more than \<open>claimed_days\<close> ago and the unclaimed ones that are older than
  \<open>unclaimed_days\<close>, in however many batches, and no other; a window of zero days keeps
  everything.  Windows are below \<open>2 ^ 31\<close> days and lead to a representable time.
\<close>

theorem retention_is_exact:
  assumes "unique_key d_delivery_id (credential_deliveries d)" "calm now env1" "calm now env2"
    and "claimed_days < 2 ^ 31" "timestamp_ok (now - int claimed_days * DAY)"
    and "unclaimed_days < 2 ^ 31" "timestamp_ok (now - int unclaimed_days * DAY)"
    and "length (credential_deliveries d) < fuel * 10000"
  shows "run_cycle fuel None (Inr True) env1 env2 (word_of_nat claimed_days) (word_of_nat unclaimed_days) d
    = Some (without (expired now claimed_days unclaimed_days) d)"
  by (rule retention_exact[OF assms])

definition calm_env :: sweep_env where
  "calm_env = (\<lambda>k. (None, 100 * DAY, \<lambda>xs. xs))"

lemma calm_env: "calm (100 * DAY) calm_env"
  by (simp add: calm_def calm_env_def)

theorem retention_is_exact_witness:
  "run_cycle 1 None (Inr True) calm_env calm_env (word_of_nat 30) (word_of_nat 180) sample_mail_db
    = Some (without (expired (100 * DAY) 30 180) sample_mail_db)"
  by (rule retention_is_exact[OF _ calm_env calm_env])
     (simp_all add: sample_mail_db_def unique_key_def timestamp_ok_def DAY_def)

text \<open>
  A huge window deletes everything.  The configured number of days is a \<open>u32\<close> that is cast to
  an \<open>i32\<close>: 4294967295 days, meant to keep unclaimed mail for ever, become minus one day, and the
  next sweep deletes every unclaimed delivery.
\<close>

theorem huge_retention_deletes_all_mail:
  assumes "unique_key d_delivery_id (credential_deliveries d)" "calm now env1" "calm now env2"
    and "timestamp_ok (now + DAY)" "\<forall>r \<in> set (credential_deliveries d). d_created_at r \<le> now"
    and "length (credential_deliveries d) < fuel * 10000"
  shows "run_cycle fuel None (Inr True) env1 env2 0 4294967295 d = Some (without (\<lambda>r. d_claimed_at r = None) d)"
proof -
  have len: "length (filter P (credential_deliveries d)) < fuel * SWEEP_BATCH" for P
    using le_less_trans[OF length_filter_le assms(6)] by (simp only: SWEEP_BATCH_def)
  have "u32_as_i32 4294967295 = -1" by (simp add: u32_as_i32_def)
  then have "cutoff now 4294967295 = Inr (now + DAY)" using assms(4) by (simp add: cutoff_def)
  from sweep_deletes_exactly[OF assms(1,3) this len]
  have "sweep fuel env2 expired_unclaimed 4294967295 0 d = Some (without (expired_unclaimed (now + DAY)) d)" .
  moreover have "without (expired_unclaimed (now + DAY)) d = without (\<lambda>r. d_claimed_at r = None) d"
    using assms(5) by (intro without_cong) (force simp: expired_unclaimed_def DAY_def)
  ultimately show ?thesis by (simp add: run_cycle_def)
qed

theorem huge_retention_deletes_all_mail_witness:
  "run_cycle 1 None (Inr True) calm_env calm_env 0 4294967295 sample_mail_db
    = Some (without (\<lambda>r. d_claimed_at r = None) sample_mail_db)"
  by (rule huge_retention_deletes_all_mail[OF _ calm_env calm_env])
     (simp_all add: sample_mail_db_def sample_delivery_def unique_key_def timestamp_ok_def DAY_def)

text \<open>An environment whose clock is never past \<open>T\<close>; its statements may fail at any time.\<close>

definition clock_at_most :: "int \<Rightarrow> sweep_env \<Rightarrow> bool" where
  "clock_at_most T env \<longleftrightarrow> (\<forall>k. fst (snd (env k)) \<le> T \<and> (\<forall>xs. mset (snd (snd (env k)) xs) = mset xs))"

lemma sweep_safe:
  assumes "unique_key d_delivery_id (credential_deliveries d)" "clock_at_most T env"
    and Q: "\<And>now t r. now \<le> T \<Longrightarrow> cutoff now days = Inr t \<Longrightarrow> predicate t r \<Longrightarrow> Q r"
    and "length (credential_deliveries d) < fuel * SWEEP_BATCH"
  shows "\<exists>V. V \<subseteq> Collect Q \<and> sweep fuel env predicate days k d = Some (without (\<lambda>r. r \<in> V) d)"
  using assms(1,4)
proof (induction fuel arbitrary: k d)
  case (Suc fuel)
  have none: "without (\<lambda>r. r \<in> {}) d = d" by (simp add: without_def)
  show ?case
  proof (cases "delete_batch (env k) predicate days d")
    case (Inl e)
    then show ?thesis using none by (intro exI[of _ "{}"]) simp
  next
    case (Inr res)
    then obtain t where e: "fst (env k) = None" "cutoff (fst (snd (env k))) days = Inr t"
      by (cases "fst (env k)"; cases "cutoff (fst (snd (env k))) days") (simp_all add: delete_batch_def)
    have perm: "mset (snd (snd (env k)) (filter (predicate t) (credential_deliveries d)))
       = mset (filter (predicate t) (credential_deliveries d))" and now: "fst (snd (env k)) \<le> T"
      using assms(2) by (auto simp: clock_at_most_def)
    define m where "m = min SWEEP_BATCH (length (filter (predicate t) (credential_deliveries d)))"
    obtain V where V: "delete_batch (env k) predicate days d = Inr (without (\<lambda>r. r \<in> V) d, m)"
        "V \<subseteq> {r \<in> set (credential_deliveries d). predicate t r}" "card V = m"
      by (rule delete_batch_ok[where e = "env k" and predicate = predicate and t = t and d = d and days = days,
            OF Suc.prems(1) e(1) perm]) (use e(2) in \<open>simp_all add: m_def\<close>)
    have VQ: "V \<subseteq> Collect Q" using V(2) Q[OF now e(2)] by auto
    show ?thesis
    proof (cases "m < SWEEP_BATCH")
      case True
      then show ?thesis using V(1) VQ by (intro exI[of _ V]) simp
    next
      case False
      let ?d = "without (\<lambda>r. r \<in> V) d"
      have u: "unique_key d_delivery_id (credential_deliveries ?d)"
        using Suc.prems(1) by (simp add: without_def unique_key_filter)
      have "distinct (credential_deliveries d)" using Suc.prems(1) by (auto simp: unique_key_def distinct_map)
      then have "length (filter (\<lambda>r. r \<in> V) (credential_deliveries d)) = card V"
        using length_filter_mem[of "credential_deliveries d" V] V(2) by blast
      moreover have "length (credential_deliveries ?d) + length (filter (\<lambda>r. r \<in> V) (credential_deliveries d))
          = length (credential_deliveries d)"
        using sum_length_filter_compl[of "\<lambda>r. r \<in> V" "credential_deliveries d"] by (simp add: without_def)
      ultimately have "length (credential_deliveries ?d) < fuel * SWEEP_BATCH"
        using V(3) False Suc.prems(2) by (simp add: m_def)
      from Suc.IH[OF u this] obtain V' where V': "V' \<subseteq> Collect Q"
        "sweep fuel env predicate days (Suc k) ?d = Some (without (\<lambda>r. r \<in> V') ?d)" by blast
      have "sweep (Suc fuel) env predicate days k d = Some (without (\<lambda>r. r \<in> V' \<union> V) d)"
        using V(1) False V'(2) by (simp add: without_without)
      then show ?thesis using VQ V'(1) by (intro exI[of _ "V' \<union> V"] conjI Un_least) assumption+
    qed
  qed
qed simp

lemma cutoff_days_le:
  assumes "days < 2 ^ 31" "cutoff now (word_of_nat days) = Inr t" "now \<le> T"
  shows "t \<le> T - int days * DAY"
  using assms by (auto simp: cutoff_def u32_as_i32_small Let_def split: if_splits)

text \<open>One of the two sweeps of a cycle, which a window of zero days switches off.\<close>

lemma sweep_of_cycle_safe:
  assumes "unique_key d_delivery_id (credential_deliveries d)" "clock_at_most T env" "days < 2 ^ 31"
    and Q: "\<And>t r. t \<le> T - int days * DAY \<Longrightarrow> predicate t r \<Longrightarrow> 0 < days \<Longrightarrow> Q r"
    and "length (credential_deliveries d) < fuel * SWEEP_BATCH"
  obtains V where "V \<subseteq> Collect Q" "(if (word_of_nat days :: 32 word) > 0
      then sweep fuel env predicate (word_of_nat days) 0 d else Some d) = Some (without (\<lambda>r. r \<in> V) d)"
proof (cases "0 < days")
  case True
  have "\<exists>V. V \<subseteq> Collect Q \<and> sweep fuel env predicate (word_of_nat days) 0 d = Some (without (\<lambda>r. r \<in> V) d)"
    by (rule sweep_safe[OF assms(1,2) _ assms(5)]) (use Q cutoff_days_le[OF assms(3)] True in blast)
  then show ?thesis using that True word_of_nat_pos[OF assms(3)] by auto
next
  case False
  then show ?thesis using that[of "{}"] by (simp add: without_def)
qed



end
