(* ===== verification/Startup.thy ===== *)
theory Startup
  imports Errors
begin

text \<open>
  Start-up: the configuration read from the environment (\<open>crates/attesta-core/src/config.rs\<close>),
  the connection to the database with its retries (\<open>db.rs\<close>), and the CORS policy built from the
  configured origins (\<open>cors_layer\<close> of \<open>crates/attesta-api/src/main.rs\<close>).  The environment is a
  map from names to values; a variable that is not valid Unicode reads as unset, as the program
  reads it.
\<close>

section \<open>Configuration\<close>

record rate_limit_settings =
  read_per_sec :: "32 word"
  read_burst :: "32 word"
  write_per_sec :: "32 word"
  write_burst :: "32 word"
  sse_per_ip :: "32 word"
  sse_global :: "32 word"
  issuer_deliveries_per_hour :: "32 word"

record config =
  database_url :: string
  bind_addr :: string
  soroban_rpc_url :: string
  network_passphrase :: string
  pool_contract_ids :: "string list"
  registry_contract_id :: "string option"
  indexer_poll_secs :: "64 word"
  artifacts_dir :: string
  credential_retention_claimed_days :: "32 word"
  credential_retention_unclaimed_days :: "32 word"
  rate_limits :: rate_limit_settings
  cors_allowed_origins :: "string list"
  ready_max_indexer_staleness_secs :: "32 word"
  stats_cache_ttl_secs :: "32 word"

type_synonym environment = "string \<Rightarrow> string option"

text \<open>\<open>unwrap_or\<close> and \<open>unwrap_or_default\<close> on the outcome of \<open>env::var\<close>.\<close>

definition env_or :: "environment \<Rightarrow> string \<Rightarrow> string \<Rightarrow> string" where
  "env_or env key dflt = (case env key of Some s \<Rightarrow> s | None \<Rightarrow> dflt)"

definition env_u32 :: "environment \<Rightarrow> string \<Rightarrow> 32 word \<Rightarrow> 32 word" where
  "env_u32 env key dflt =
     (case Option.bind (env key) (parse_unsigned 32) of Some n \<Rightarrow> word_of_nat n | None \<Rightarrow> dflt)"

definition env_poll_secs :: "environment \<Rightarrow> 64 word" where
  "env_poll_secs env =
     (case Option.bind (env ''INDEXER_POLL_SECS'') (parse_unsigned 64) of Some n \<Rightarrow> word_of_nat n | None \<Rightarrow> 5)"

definition env_registry :: "environment \<Rightarrow> string option" where
  "env_registry env =
     (case env ''REGISTRY_CONTRACT_ID'' of
        Some s \<Rightarrow> if str_trim s = [] then None else Some s
      | None \<Rightarrow> None)"

definition env_rate_limits :: "environment \<Rightarrow> rate_limit_settings" where
  "env_rate_limits env = \<lparr>
     read_per_sec = env_u32 env ''RATE_LIMIT_READ_PER_SEC'' 50,
     read_burst = env_u32 env ''RATE_LIMIT_READ_BURST'' 200,
     write_per_sec = env_u32 env ''RATE_LIMIT_WRITE_PER_SEC'' 2,
     write_burst = env_u32 env ''RATE_LIMIT_WRITE_BURST'' 20,
     sse_per_ip = env_u32 env ''RATE_LIMIT_SSE_PER_IP'' 10,
     sse_global = env_u32 env ''RATE_LIMIT_SSE_GLOBAL'' 1000,
     issuer_deliveries_per_hour = env_u32 env ''RATE_LIMIT_ISSUER_DELIVERIES_PER_HOUR'' 600\<rparr>"

definition from_env :: "environment \<Rightarrow> string + config" where
  "from_env env =
     (case env ''DATABASE_URL'' of
        None \<Rightarrow> Inl ''DATABASE_URL must be set''
      | Some url \<Rightarrow> Inr \<lparr>
          database_url = url,
          bind_addr = env_or env ''BIND_ADDR'' ''0.0.0.0:8080'',
          soroban_rpc_url = env_or env ''SOROBAN_RPC_URL'' ''https://soroban-testnet.stellar.org'',
          network_passphrase = env_or env ''STELLAR_NETWORK_PASSPHRASE'' ''Test SDF Network ; September 2015'',
          pool_contract_ids = csv (env_or env ''POOL_CONTRACT_IDS'' []),
          registry_contract_id = env_registry env,
          indexer_poll_secs = env_poll_secs env,
          artifacts_dir = env_or env ''ARTIFACTS_DIR'' ''./artifacts'',
          credential_retention_claimed_days = env_u32 env ''CREDENTIAL_RETENTION_CLAIMED_DAYS'' 30,
          credential_retention_unclaimed_days = env_u32 env ''CREDENTIAL_RETENTION_UNCLAIMED_DAYS'' 180,
          rate_limits = env_rate_limits env,
          cors_allowed_origins = csv (env_or env ''CORS_ALLOWED_ORIGINS'' []),
          ready_max_indexer_staleness_secs = env_u32 env ''READY_MAX_INDEXER_STALENESS_SECS'' 0,
          stats_cache_ttl_secs = env_u32 env ''STATS_CACHE_TTL_SECS'' 10\<rparr>)"

text \<open>\<open>init_tracing\<close> of both servers: whether logs are JSON.\<close>

definition ascii_lower :: "char \<Rightarrow> char" where
  "ascii_lower c = (let n = (of_char c :: nat) in if 65 \<le> n \<and> n \<le> 90 then char_of (n + 32) else c)"

definition eq_ignore_ascii_case :: "string \<Rightarrow> string \<Rightarrow> bool" where
  "eq_ignore_ascii_case s t \<longleftrightarrow> map ascii_lower s = map ascii_lower t"

definition log_json :: "environment \<Rightarrow> bool" where
  "log_json env = (case env ''LOG_FORMAT'' of Some v \<Rightarrow> eq_ignore_ascii_case v ''json'' | None \<Rightarrow> False)"

section \<open>CORS\<close>

text \<open>
  \<open>parse\<close> is \<open>HeaderValue::from_str\<close> of the http crate, as a test.  The layer allows any method
  and header; what remains is the origin policy.
\<close>

datatype allow_origin = AnyOrigin | OriginList "string list"

primrec parse_origins :: "(string \<Rightarrow> bool) \<Rightarrow> string list \<Rightarrow> string + string list" where
  "parse_origins parse [] = Inr []"
| "parse_origins parse (x # xs) =
     (if parse x
      then (case parse_origins parse xs of Inl e \<Rightarrow> Inl e | Inr ps \<Rightarrow> Inr (x # ps))
      else Inl (''invalid origin in CORS_ALLOWED_ORIGINS: '' @ x))"

definition cors_layer :: "(string \<Rightarrow> bool) \<Rightarrow> string list \<Rightarrow> string + allow_origin option" where
  "cors_layer parse origins =
     (if origins = [] then Inr None
      else if list_ex (\<lambda>x. x = ''*'') origins then Inr (Some AnyOrigin)
      else (case parse_origins parse origins of Inl e \<Rightarrow> Inl e | Inr ps \<Rightarrow> Inr (Some (OriginList ps))))"

section \<open>Connecting to the database\<close>

text \<open>Durations in milliseconds.  \<open>attempt k\<close> is the outcome of the \<open>k\<close>-th connection attempt.\<close>

definition CONNECT_MAX_ATTEMPTS :: nat where
  "CONNECT_MAX_ATTEMPTS = 10"

definition CONNECT_INITIAL_BACKOFF :: nat where
  "CONNECT_INITIAL_BACKOFF = 500"

definition CONNECT_MAX_BACKOFF :: nat where
  "CONNECT_MAX_BACKOFF = 10000"

definition CONNECT_ATTEMPT_TIMEOUT :: nat where
  "CONNECT_ATTEMPT_TIMEOUT = 5000"

definition is_retryable :: "sqlx_error \<Rightarrow> bool" where
  "is_retryable e =
     (case e of
        SqlxDatabase code \<Rightarrow> code \<notin> {Some ''28P01'', Some ''28000'', Some ''3D000''}
      | SqlxOther _ \<Rightarrow> True)"

text \<open>
  The loop over \<open>1..=CONNECT_MAX_ATTEMPTS\<close>, with the backoffs it slept; \<open>None\<close> is the
  \<open>unreachable!\<close> behind it.
\<close>

primrec connect_loop :: "(nat \<Rightarrow> sqlx_error + 'pool) \<Rightarrow> nat \<Rightarrow> nat \<Rightarrow> nat \<Rightarrow> nat list
    \<Rightarrow> ((core_error + 'pool) \<times> nat list) option" where
  "connect_loop attempt_result 0 attempt backoff slept = None"
| "connect_loop attempt_result (Suc n) attempt backoff slept =
     (case attempt_result attempt of
        Inr pool \<Rightarrow> Some (Inr pool, slept)
      | Inl e \<Rightarrow>
          if attempt = CONNECT_MAX_ATTEMPTS \<or> \<not> is_retryable e
          then Some (Inl (Db e), slept)
          else connect_loop attempt_result n (attempt + 1) (min (backoff * 2) CONNECT_MAX_BACKOFF) (slept @ [backoff]))"

definition connect :: "(nat \<Rightarrow> sqlx_error + 'pool) \<Rightarrow> ((core_error + 'pool) \<times> nat list) option" where
  "connect attempt_result = connect_loop attempt_result CONNECT_MAX_ATTEMPTS 1 CONNECT_INITIAL_BACKOFF []"

section \<open>Round trip of the settings\<close>

primrec csv_join :: "string list \<Rightarrow> string" where
  "csv_join [] = []"
| "csv_join (p # ps) = (if ps = [] then p else p @ CHR '','' # csv_join ps)"

definition csv_item :: "string \<Rightarrow> bool" where
  "csv_item p \<longleftrightarrow> p \<noteq> [] \<and> CHR '','' \<notin> set p \<and> str_trim p = p"

lemma str_split_plain: "c \<notin> set s \<Longrightarrow> str_split c s = [s]"
  by (induction s) auto

lemma str_split_append: "c \<notin> set p \<Longrightarrow> str_split c (p @ c # s) = p # str_split c s"
  by (induction p) auto

lemma csv_Nil [simp]: "csv [] = []"
  by (simp add: csv_def str_trim_def)

lemma csv_join [simp]: "list_all csv_item ps \<Longrightarrow> csv (csv_join ps) = ps"
proof (induction ps)
  case (Cons p ps)
  then have p: "p \<noteq> []" "CHR '','' \<notin> set p" "str_trim p = p" by (simp_all add: csv_item_def)
  show ?case
  proof (cases "ps = []")
    case True
    then show ?thesis using p by (simp add: csv_def str_split_plain)
  next
    case False
    then show ?thesis using p Cons by (simp add: csv_def str_split_append)
  qed
qed simp

lemma parse_unsigned_show: "n < 2 ^ w \<Longrightarrow> parse_unsigned w (show_nat n) = Some n"
  by (simp add: parse_unsigned_def show_nat_not_sign parse_show_nat)

lemma unat_u32: "unat (x :: 32 word) < 2 ^ 32"
  using unsigned_less[of x, where 'a = nat] by simp

lemma unat_u64: "unat (x :: 64 word) < 2 ^ 64"
  using unsigned_less[of x, where 'a = nat] by simp

lemma env_u32_show [simp]:
  "env key = Some (show_nat (unat x)) \<Longrightarrow> env_u32 env key dflt = x"
  using parse_unsigned_show[OF unat_u32[of x]] by (simp add: env_u32_def)

lemma env_poll_secs_show [simp]:
  "env ''INDEXER_POLL_SECS'' = Some (show_nat (unat x)) \<Longrightarrow> env_poll_secs env = x"
  using parse_unsigned_show[OF unat_u64[of x]] by (simp add: env_poll_secs_def)

text \<open>A configuration, written as an environment.\<close>

definition limit_vars :: "rate_limit_settings \<Rightarrow> (string \<times> string) list" where
  "limit_vars l =
     [(''RATE_LIMIT_READ_PER_SEC'', show_nat (unat (read_per_sec l))),
      (''RATE_LIMIT_READ_BURST'', show_nat (unat (read_burst l))),
      (''RATE_LIMIT_WRITE_PER_SEC'', show_nat (unat (write_per_sec l))),
      (''RATE_LIMIT_WRITE_BURST'', show_nat (unat (write_burst l))),
      (''RATE_LIMIT_SSE_PER_IP'', show_nat (unat (sse_per_ip l))),
      (''RATE_LIMIT_SSE_GLOBAL'', show_nat (unat (sse_global l))),
      (''RATE_LIMIT_ISSUER_DELIVERIES_PER_HOUR'', show_nat (unat (issuer_deliveries_per_hour l)))]"

definition config_vars :: "config \<Rightarrow> (string \<times> string) list" where
  "config_vars c =
     [(''DATABASE_URL'', database_url c), (''BIND_ADDR'', bind_addr c),
      (''SOROBAN_RPC_URL'', soroban_rpc_url c), (''STELLAR_NETWORK_PASSPHRASE'', network_passphrase c),
      (''POOL_CONTRACT_IDS'', csv_join (pool_contract_ids c)),
      (''REGISTRY_CONTRACT_ID'', case registry_contract_id c of None \<Rightarrow> [] | Some r \<Rightarrow> r),
      (''INDEXER_POLL_SECS'', show_nat (unat (indexer_poll_secs c))),
      (''ARTIFACTS_DIR'', artifacts_dir c),
      (''CREDENTIAL_RETENTION_CLAIMED_DAYS'', show_nat (unat (credential_retention_claimed_days c))),
      (''CREDENTIAL_RETENTION_UNCLAIMED_DAYS'', show_nat (unat (credential_retention_unclaimed_days c))),
      (''CORS_ALLOWED_ORIGINS'', csv_join (cors_allowed_origins c)),
      (''READY_MAX_INDEXER_STALENESS_SECS'', show_nat (unat (ready_max_indexer_staleness_secs c))),
      (''STATS_CACHE_TTL_SECS'', show_nat (unat (stats_cache_ttl_secs c)))] @ limit_vars (rate_limits c)"

lemma env_rate_limits_show:
  assumes "\<And>k v. (k, v) \<in> set (limit_vars l) \<Longrightarrow> env k = Some v"
  shows "env_rate_limits env = l"
proof -
  have "\<forall>(k, v) \<in> set (limit_vars l). env k = Some v" using assms by blast
  then show ?thesis
    unfolding limit_vars_def by (simp add: env_rate_limits_def)
qed

lemma from_env_vars:
  assumes "\<And>k v. (k, v) \<in> set (config_vars c) \<Longrightarrow> env k = Some v"
    and "list_all csv_item (pool_contract_ids c)" "list_all csv_item (cors_allowed_origins c)"
    and "\<And>r. registry_contract_id c = Some r \<Longrightarrow> str_trim r \<noteq> []"
  shows "from_env env = Inr c"
proof -
  have "\<forall>(k, v) \<in> set (config_vars c). env k = Some v" using assms(1) by blast
  moreover have "env_rate_limits env = rate_limits c"
    by (rule env_rate_limits_show) (use assms(1) in \<open>simp add: config_vars_def\<close>)
  moreover have "str_trim [] = []" by (simp add: str_trim_def)
  ultimately show ?thesis
    using assms(2-4) unfolding config_vars_def
    by (cases "registry_contract_id c")
      (simp_all add: from_env_def env_or_def env_registry_def)
qed

section \<open>How the connection ends\<close>

text \<open>The wait before attempt \<open>k + 1\<close>.\<close>

definition backoff :: "nat \<Rightarrow> nat" where
  "backoff k = min (500 * 2 ^ (k - 1)) 10000"

lemma backoff_Suc: "0 < k \<Longrightarrow> backoff (Suc k) = min (backoff k * 2) CONNECT_MAX_BACKOFF"
  by (cases k) (auto simp: backoff_def CONNECT_MAX_BACKOFF_def)

lemma connect_loop_ends:
  assumes "0 < a" "n + a = Suc CONNECT_MAX_ATTEMPTS" "0 < n"
  shows "\<exists>k r. a \<le> k \<and> k \<le> CONNECT_MAX_ATTEMPTS
    \<and> connect_loop attempt_result n a (backoff a) slept = Some (r, slept @ map backoff [a..<k])
    \<and> (\<forall>j. a \<le> j \<and> j < k \<longrightarrow> (\<exists>e. attempt_result j = Inl e \<and> is_retryable e))
    \<and> (case attempt_result k of
         Inr pool \<Rightarrow> r = Inr pool
       | Inl e \<Rightarrow> r = Inl (Db e) \<and> (k = CONNECT_MAX_ATTEMPTS \<or> \<not> is_retryable e))"
  using assms
proof (induction n arbitrary: a slept)
  case (Suc n)
  show ?case
  proof (cases "\<exists>e. attempt_result a = Inl e \<and> a \<noteq> CONNECT_MAX_ATTEMPTS \<and> is_retryable e")
    case True
    then obtain e where e: "attempt_result a = Inl e" "a \<noteq> CONNECT_MAX_ATTEMPTS" "is_retryable e" by blast
    then have "0 < n" using Suc.prems(2) by simp
    then obtain k r where k: "Suc a \<le> k" "k \<le> CONNECT_MAX_ATTEMPTS"
      "connect_loop attempt_result n (Suc a) (backoff (Suc a)) (slept @ [backoff a])
         = Some (r, (slept @ [backoff a]) @ map backoff [Suc a..<k])"
      "\<forall>j. Suc a \<le> j \<and> j < k \<longrightarrow> (\<exists>e. attempt_result j = Inl e \<and> is_retryable e)"
      "case attempt_result k of Inr pool \<Rightarrow> r = Inr pool
         | Inl e \<Rightarrow> r = Inl (Db e) \<and> (k = CONNECT_MAX_ATTEMPTS \<or> \<not> is_retryable e)"
      using Suc.IH[of "Suc a" "slept @ [backoff a]"] Suc.prems(2) by auto
    have "[a..<k] = a # [Suc a..<k]" using k(1) by (simp add: upt_conv_Cons)
    then have "connect_loop attempt_result (Suc n) a (backoff a) slept = Some (r, slept @ map backoff [a..<k])"
      using e k(3) Suc.prems(1) by (simp add: backoff_Suc)
    moreover have "\<forall>j. a \<le> j \<and> j < k \<longrightarrow> (\<exists>e. attempt_result j = Inl e \<and> is_retryable e)"
      using k(4) e by (metis Suc_leI le_neq_implies_less)
    ultimately show ?thesis using k(1,2,5) Suc_leD by blast
  next
    case False
    then show ?thesis
      using Suc.prems(2) by (intro exI[of _ a]) (auto split: sum.splits)
  qed
qed simp

lemma connect_start: "connect attempt_result = connect_loop attempt_result 10 1 (backoff 1) []"
  by (simp add: connect_def CONNECT_MAX_ATTEMPTS_def CONNECT_INITIAL_BACKOFF_def backoff_def)

section \<open>Properties\<close>

text \<open>The variables of a configuration are read back as it.\<close>

lemma from_env_config_vars:
  assumes "list_all csv_item (pool_contract_ids c)" "list_all csv_item (cors_allowed_origins c)"
    and "\<And>r. registry_contract_id c = Some r \<Longrightarrow> str_trim r \<noteq> []"
  shows "from_env (map_of (config_vars c)) = Inr c"
proof (rule from_env_vars)
  have "distinct (map fst (config_vars c))" by (simp add: config_vars_def limit_vars_def)
  then show "(k, v) \<in> set (config_vars c) \<Longrightarrow> map_of (config_vars c) k = Some v" for k v by simp
qed (use assms in auto)

text \<open>
  C30. Every configuration can be written down: the environment that lists the settings of a
  configuration (numbers in decimal, lists joined with commas) is read back as that configuration,
  for lists of non-empty, trimmed items without commas.
\<close>

theorem config_roundtrip:
  assumes "list_all csv_item (pool_contract_ids c)" "list_all csv_item (cors_allowed_origins c)"
    and "\<And>r. registry_contract_id c = Some r \<Longrightarrow> str_trim r \<noteq> []"
  shows "from_env (map_of (config_vars c)) = Inr c"
  by (rule from_env_config_vars[OF assms])

definition sample_config :: config where
  "sample_config = \<lparr>database_url = ''postgres://db'', bind_addr = ''0.0.0.0:8080'', soroban_rpc_url = ''rpc'',
     network_passphrase = ''net'', pool_contract_ids = [''CA'', ''CB''], registry_contract_id = Some ''CR'',
     indexer_poll_secs = 5, artifacts_dir = ''./artifacts'', credential_retention_claimed_days = 30,
     credential_retention_unclaimed_days = 180,
     rate_limits = \<lparr>read_per_sec = 50, read_burst = 200, write_per_sec = 2, write_burst = 20,
       sse_per_ip = 10, sse_global = 1000, issuer_deliveries_per_hour = 600\<rparr>,
     cors_allowed_origins = [''*''], ready_max_indexer_staleness_secs = 0, stats_cache_ttl_secs = 10\<rparr>"

theorem config_roundtrip_witness:
  "from_env (map_of (config_vars sample_config)) = Inr sample_config"
  by (rule config_roundtrip) (simp_all add: sample_config_def csv_item_def str_trim_def is_ws_def)

text \<open>
  C28. Connecting always ends, within ten attempts and two minutes: there is a last attempt \<open>k\<close>
  that decides, every earlier one failed with an error worth retrying, and the outcome is that of
  attempt \<open>k\<close>.  An error is returned only for the tenth attempt or for a rejected login.  The time,
  with at most five seconds per attempt, is below 120 seconds, and \<open>unreachable!\<close> is never reached.
\<close>

theorem connect_ends:
  "\<exists>k r slept. 1 \<le> k \<and> k \<le> 10 \<and> connect attempt_result = Some (r, slept)
    \<and> (\<forall>j. 1 \<le> j \<and> j < k \<longrightarrow> (\<exists>e. attempt_result j = Inl e \<and> is_retryable e))
    \<and> (case attempt_result k of
         Inr pool \<Rightarrow> r = Inr pool
       | Inl e \<Rightarrow> r = Inl (Db e) \<and> (k = 10 \<or> \<not> is_retryable e))
    \<and> length slept = k - 1 \<and> sum_list slept + k * CONNECT_ATTEMPT_TIMEOUT < 120000"
proof -
  obtain k r where k: "1 \<le> k" "k \<le> 10"
      "connect attempt_result = Some (r, map backoff [1..<k])"
      "\<forall>j. 1 \<le> j \<and> j < k \<longrightarrow> (\<exists>e. attempt_result j = Inl e \<and> is_retryable e)"
      "case attempt_result k of Inr pool \<Rightarrow> r = Inr pool
       | Inl e \<Rightarrow> r = Inl (Db e) \<and> (k = 10 \<or> \<not> is_retryable e)"
    using connect_loop_ends[of 1 10 attempt_result "[]"] connect_start[of attempt_result]
    unfolding CONNECT_MAX_ATTEMPTS_def append_Nil by auto
  have "sum_list (map backoff [1..<k]) \<le> 55500"
  proof -
    have "[1..<10] = [1..<k] @ [k..<10]" using k(1,2) upt_add_eq_append[of 1 k "10 - k"] by simp
    then have "sum_list (map backoff [1..<k]) \<le> sum_list (map backoff [1..<10])" by simp
    also have "\<dots> = 55500" by (simp add: backoff_def upt_rec)
    finally show ?thesis .
  qed
  then have "sum_list (map backoff [1..<k]) + k * CONNECT_ATTEMPT_TIMEOUT < 120000"
    using k(2) by (simp add: CONNECT_ATTEMPT_TIMEOUT_def)
  then show ?thesis using k by (intro exI[of _ k] exI[of _ r] exI[of _ "map backoff [1..<k]"]) simp
qed

definition sample_attempts :: "nat \<Rightarrow> sqlx_error + unit" where
  "sample_attempts k = (if k < 3 then Inl (SqlxOther ''connection refused'') else Inr ())"

theorem connect_ends_witness:
  "\<exists>k r slept. k \<le> 10 \<and> connect sample_attempts = Some (r, slept) \<and> length slept = k - 1
    \<and> sum_list slept + k * CONNECT_ATTEMPT_TIMEOUT < 120000"
  using connect_ends[of sample_attempts] by blast

text \<open>
  A setting that does not parse silently becomes its default, so \<open>0\<close> with a blank behind it, meant
  to switch the deletion of unclaimed mail off, leaves it on with 180 days; and the registry id
  keeps the blanks that the pool ids lose.
\<close>

theorem misspelt_zero_is_the_default:
  "map_option credential_retention_unclaimed_days (case from_env [''DATABASE_URL'' \<mapsto> u,
      ''CREDENTIAL_RETENTION_UNCLAIMED_DAYS'' \<mapsto> ''0 ''] of Inl e \<Rightarrow> None | Inr c \<Rightarrow> Some c) = Some 180"
  by (simp add: from_env_def env_u32_def parse_unsigned_def parse_digits_def digit_val_def)

theorem registry_id_keeps_blanks:
  "env_registry [''REGISTRY_CONTRACT_ID'' \<mapsto> '' CR''] = Some '' CR'' \<and> csv '' CA'' = [''CA'']"
  by (simp add: env_registry_def csv_def str_trim_def is_ws_def)

end
