(* ===== verification/Artifacts.thy ===== *)
theory Artifacts
  imports Errors Codec
begin

text \<open>
  The prover artifacts, \<open>crates/attesta-api/src/routes/artifacts.rs\<close>.  A path is the string that
  \<open>PathBuf\<close> holds; the file system, the JSON parser, SHA-256 and the hex encoder are parameters.
\<close>

section \<open>Paths\<close>

definition is_plain_char :: "char \<Rightarrow> bool" where
  "is_plain_char c =
     (let n = (of_char c :: nat)
      in 48 \<le> n \<and> n \<le> 57 \<or> 65 \<le> n \<and> n \<le> 90 \<or> 97 \<le> n \<and> n \<le> 122
         \<or> c = CHR ''-'' \<or> c = CHR ''_'' \<or> c = CHR ''.'')"

fun contains_dotdot :: "string \<Rightarrow> bool" where
  "contains_dotdot (a # b # s) = (a = CHR ''.'' \<and> b = CHR ''.'' \<or> contains_dotdot (b # s))"
| "contains_dotdot s = False"

definition segment_ok :: "string \<Rightarrow> bool" where
  "segment_ok segment \<longleftrightarrow>
     segment \<noteq> [] \<and> length segment \<le> 128 \<and> list_all is_plain_char segment \<and> \<not> contains_dotdot segment"

text \<open>\<open>PathBuf::join\<close> on Unix: an absolute argument replaces the path.\<close>

definition path_join :: "string \<Rightarrow> string \<Rightarrow> string" where
  "path_join base p =
     (if p \<noteq> [] \<and> hd p = CHR ''/'' then p
      else if base = [] \<or> last base = CHR ''/'' then base @ p
      else base @ CHR ''/'' # p)"

definition artifact_path :: "string \<Rightarrow> string \<Rightarrow> string \<Rightarrow> string \<Rightarrow> api_error + string" where
  "artifact_path artifacts_dir circuit version file =
     (if list_all segment_ok [circuit, version, file]
      then Inr (path_join (path_join (path_join artifacts_dir circuit) version) file)
      else Inl (bad_request ''invalid artifact path segment''))"

section \<open>Endpoints\<close>

definition get_manifest :: "(string \<Rightarrow> byte list option) \<Rightarrow> (byte list \<Rightarrow> json option) \<Rightarrow> string
    \<Rightarrow> string \<Rightarrow> string \<Rightarrow> api_error + json" where
  "get_manifest fs_read from_slice artifacts_dir circuit version =
     (case artifact_path artifacts_dir circuit version ''manifest.json'' of
        Inl e \<Rightarrow> Inl e
      | Inr path \<Rightarrow>
          (case fs_read path of
             None \<Rightarrow> Inl (not_found ''unknown circuit/version'')
           | Some bytes \<Rightarrow>
               (case from_slice bytes of
                  None \<Rightarrow> Inl (bad_request ''corrupt manifest on server'')
                | Some manifest \<Rightarrow> Inr manifest)))"

record file_response =
  fr_status :: status_code
  fr_headers :: "(string \<times> string) list"
  fr_body :: "byte list"

definition get_file :: "(string \<Rightarrow> byte list option) \<Rightarrow> (byte list \<Rightarrow> byte list) \<Rightarrow> (byte list \<Rightarrow> string)
    \<Rightarrow> string \<Rightarrow> string \<Rightarrow> string \<Rightarrow> string \<Rightarrow> api_error + file_response" where
  "get_file fs_read sha256 hex_encode artifacts_dir circuit version file =
     (case artifact_path artifacts_dir circuit version file of
        Inl e \<Rightarrow> Inl e
      | Inr path \<Rightarrow>
          (case fs_read path of
             None \<Rightarrow> Inl (not_found ''unknown artifact'')
           | Some bytes \<Rightarrow> Inr \<lparr>
               fr_status = OK,
               fr_headers = [(''content-type'', ''application/octet-stream''),
                 (''x-artifact-sha256'', hex_encode (sha256 bytes)),
                 (''cache-control'', ''public, max-age=31536000, immutable'')],
               fr_body = bytes\<rparr>))"

section \<open>Where a path leads\<close>

text \<open>The components that the kernel walks: empty and \<open>.\<close> components stay in place.\<close>

definition components :: "string \<Rightarrow> string list" where
  "components p = filter (\<lambda>c. c \<noteq> [] \<and> c \<noteq> ''.'') (str_split CHR ''/'' p)"

lemma str_split_two: "str_split c (p @ c # s) = str_split c p @ str_split c s"
  by (induction p) (auto split: list.splits)

lemma str_split_one: "c \<notin> set s \<Longrightarrow> str_split c s = [s]"
  by (induction s) auto

lemma components_join:
  assumes "segment_ok s"
  shows "components (path_join base s) = components base @ filter (\<lambda>c. c \<noteq> ''.'') [s]"
proof -
  have s: "CHR ''/'' \<notin> set s" "s \<noteq> []"
    using assms by (auto simp: segment_ok_def list_all_iff is_plain_char_def)
  then have "hd s \<noteq> CHR ''/''" using hd_in_set by metis
  moreover have "components (base @ s) = components base @ filter (\<lambda>c. c \<noteq> ''.'') [s]"
    if "base = [] \<or> last base = CHR ''/''"
  proof (cases "base = []")
    case True
    then show ?thesis using s by (simp add: components_def str_split_one)
  next
    case False
    then have "base = butlast base @ [CHR ''/'']" using that by (metis append_butlast_last_id)
    then obtain b where "base = b @ [CHR ''/'']" by blast
    then show ?thesis using s str_split_two[of "CHR ''/''" b "[]"] str_split_two[of "CHR ''/''" b s]
      by (simp add: components_def str_split_one)
  qed
  moreover have "components (base @ CHR ''/'' # s) = components base @ filter (\<lambda>c. c \<noteq> ''.'') [s]"
    using s by (simp add: components_def str_split_two str_split_one)
  ultimately show ?thesis using s unfolding path_join_def by presburger
qed

lemma segment_not_dotdot: "segment_ok s \<Longrightarrow> s \<noteq> ''..'' \<and> CHR ''/'' \<notin> set s"
  by (auto simp: segment_ok_def list_all_iff is_plain_char_def)

lemma artifact_path_err: "artifact_path dir circuit version file = Inl e \<Longrightarrow> status e = BAD_REQUEST"
  by (simp add: artifact_path_def bad_request_def split: if_splits) (metis api_error.select_convs(1))

lemma artifact_path_ok:
  assumes "artifact_path dir circuit version file = Inr p"
  shows "components p = components dir @ filter (\<lambda>c. c \<noteq> ''.'') [circuit, version, file]
    \<and> ''..'' \<notin> {circuit, version, file} \<and> CHR ''/'' \<notin> set circuit \<union> set version \<union> set file"
proof -
  have "segment_ok circuit" "segment_ok version" "segment_ok file"
    using assms by (auto simp: artifact_path_def split: if_splits)
  then show ?thesis
    using assms segment_not_dotdot by (auto simp: artifact_path_def components_join)
qed

section \<open>Properties\<close>

text \<open>
  C27. Artifacts are confined and verifiable: a served file was read from a path that walks from
  the artifacts directory down through the given names only (none of them \<open>..\<close>, none with a
  slash), and its digest header is the SHA-256 of the very bytes in the body.  Everything else is
  a 400 or a 404.
\<close>

theorem artifacts_are_confined:
  "case get_file fs_read sha256 hex_encode dir circuit version file of
     Inl e \<Rightarrow> status e = BAD_REQUEST \<or> status e = NOT_FOUND
   | Inr r \<Rightarrow> fr_status r = OK
       \<and> map_of (fr_headers r) ''x-artifact-sha256'' = Some (hex_encode (sha256 (fr_body r)))
       \<and> (\<exists>p. fs_read p = Some (fr_body r)
           \<and> components p = components dir @ filter (\<lambda>c. c \<noteq> ''.'') [circuit, version, file]
           \<and> ''..'' \<notin> {circuit, version, file} \<and> CHR ''/'' \<notin> set circuit \<union> set version \<union> set file)"
proof (cases "artifact_path dir circuit version file")
  case (Inl e)
  with artifact_path_err[OF Inl] show ?thesis by (simp add: get_file_def)
next
  case (Inr p)
  show ?thesis
  proof (cases "fs_read p")
    case None
    with Inr show ?thesis by (simp add: get_file_def not_found_def)
  next
    case (Some bytes)
    then have "\<exists>q. fs_read q = Some bytes
        \<and> components q = components dir @ filter (\<lambda>c. c \<noteq> ''.'') [circuit, version, file]
        \<and> ''..'' \<notin> {circuit, version, file} \<and> CHR ''/'' \<notin> set circuit \<union> set version \<union> set file"
      using artifact_path_ok[OF Inr] by blast
    with Inr Some show ?thesis by (simp add: get_file_def)
  qed
qed

text \<open>A single dot passes for a plain name: the file is then looked up one level higher.\<close>

theorem dot_segments_pass:
  "artifact_path ''d'' ''.'' ''.'' ''key'' = Inr ''d/././key'' \<and> components ''d/././key'' = [''d'', ''key'']"
  by (simp add: artifact_path_def segment_ok_def is_plain_char_def path_join_def components_def)

end
