(* ===== verification/RequestId.thy ===== *)
theory RequestId
  imports Errors
begin

text \<open>
  Request ids, \<open>crates/attesta-api/src/request_id.rs\<close>: the middleware that tags every response and
  puts the id into the JSON body of a failure.  Header values, bodies and their JSON reading
  belong to the crates http, axum and serde_json: their functions are parameters.  The generated
  UUID is an argument.
\<close>

section \<open>The middleware\<close>

text \<open>A body is its bytes, or a stream that \<open>to_bytes\<close> cannot collect within its limit.\<close>

record http_response =
  h_status :: nat
  h_headers :: "(string \<times> string) list"
  h_body :: "byte list option"

definition HEADER :: string where
  "HEADER = ''x-request-id''"

definition CONTENT_LENGTH :: string where
  "CONTENT_LENGTH = ''content-length''"

definition MAX_LEN :: nat where
  "MAX_LEN = 128"

definition TO_BYTES_LIMIT :: nat where
  "TO_BYTES_LIMIT = 1024 * 1024"

text \<open>\<open>HeaderMap::insert\<close> replaces all values of the name; \<open>remove\<close> drops them.\<close>

definition header_remove :: "string \<Rightarrow> (string \<times> string) list \<Rightarrow> (string \<times> string) list" where
  "header_remove name hs = filter (\<lambda>h. fst h \<noteq> name) hs"

definition header_insert :: "string \<Rightarrow> string \<Rightarrow> (string \<times> string) list \<Rightarrow> (string \<times> string) list" where
  "header_insert name v hs = header_remove name hs @ [(name, v)]"

definition is_ascii_graphic :: "char \<Rightarrow> bool" where
  "is_ascii_graphic c \<longleftrightarrow> 33 \<le> (of_char c :: nat) \<and> (of_char c :: nat) \<le> 126"

definition acceptable_id :: "string \<Rightarrow> bool" where
  "acceptable_id s \<longleftrightarrow> s \<noteq> [] \<and> length s \<le> MAX_LEN \<and> list_all is_ascii_graphic s"

text \<open>\<open>incoming\<close> is the request's header as a string, if it has one that \<open>to_str\<close> accepts.\<close>

definition choose_id :: "string \<Rightarrow> string option \<Rightarrow> string" where
  "choose_id uuid incoming =
     (case incoming of Some s \<Rightarrow> if acceptable_id s then s else uuid | None \<Rightarrow> uuid)"

text \<open>\<open>obj.insert(k, v)\<close> on a JSON object.\<close>

definition obj_insert :: "string \<Rightarrow> json \<Rightarrow> (string \<times> json) list \<Rightarrow> (string \<times> json) list" where
  "obj_insert k v obj = filter (\<lambda>f. fst f \<noteq> k) obj @ [(k, v)]"

definition insert_id :: "string \<Rightarrow> json \<Rightarrow> json" where
  "insert_id request_id value =
     (case value of JObj obj \<Rightarrow> JObj (obj_insert ''request_id'' (JStr request_id) obj) | _ \<Rightarrow> value)"

definition collect_body :: "http_response \<Rightarrow> byte list option" where
  "collect_body r = (case h_body r of Some bytes \<Rightarrow> if length bytes \<le> TO_BYTES_LIMIT then Some bytes else None | None \<Rightarrow> None)"

definition embed_id_in_json_body :: "(byte list \<Rightarrow> json option) \<Rightarrow> (json \<Rightarrow> byte list option)
    \<Rightarrow> (string \<Rightarrow> string option) \<Rightarrow> http_response \<Rightarrow> string \<Rightarrow> http_response" where
  "embed_id_in_json_body from_slice to_vec header_value r request_id =
     (case collect_body r of
        None \<Rightarrow> r\<lparr>h_headers := header_remove CONTENT_LENGTH (h_headers r), h_body := Some []\<rparr>
      | Some bytes \<Rightarrow>
          (case from_slice bytes of
             None \<Rightarrow> r\<lparr>h_headers := header_remove CONTENT_LENGTH (h_headers r), h_body := Some bytes\<rparr>
           | Some value \<Rightarrow>
               let new_body = (case to_vec (insert_id request_id value) of Some bs \<Rightarrow> bs | None \<Rightarrow> bytes)
               in r\<lparr>h_headers := (case header_value (show_nat (length new_body)) of
                        Some len \<Rightarrow> header_insert CONTENT_LENGTH len (h_headers r)
                      | None \<Rightarrow> h_headers r),
                    h_body := Some new_body\<rparr>))"

definition attach_request_id :: "(byte list \<Rightarrow> json option) \<Rightarrow> (json \<Rightarrow> byte list option)
    \<Rightarrow> (string \<Rightarrow> string option) \<Rightarrow> string \<Rightarrow> string option \<Rightarrow> http_response \<Rightarrow> http_response" where
  "attach_request_id from_slice to_vec header_value uuid incoming response =
     (let request_id = choose_id uuid incoming;
          tagged = (case header_value request_id of
                      Some v \<Rightarrow> response\<lparr>h_headers := header_insert HEADER v (h_headers response)\<rparr>
                    | None \<Rightarrow> response)
      in if 500 \<le> h_status tagged \<and> h_status tagged < 600
         then embed_id_in_json_body from_slice to_vec header_value tagged request_id
         else tagged)"

section \<open>What the http crate promises\<close>

text \<open>
  \<open>HeaderValue::from_str\<close> takes visible ASCII as it is.
\<close>

definition header_value_ok :: "(string \<Rightarrow> string option) \<Rightarrow> bool" where
  "header_value_ok header_value \<longleftrightarrow> (\<forall>s. list_all is_ascii_graphic s \<longrightarrow> header_value s = Some s)"

lemma header_names: "HEADER \<noteq> CONTENT_LENGTH"
  by (simp add: HEADER_def CONTENT_LENGTH_def)

lemma filter_header_insert [simp]:
  "filter (\<lambda>h. fst h = name) (header_insert name v hs) = [(name, v)]"
  "name \<noteq> name' \<Longrightarrow> filter (\<lambda>h. fst h = name) (header_insert name' v hs) = filter (\<lambda>h. fst h = name) hs"
  "name \<noteq> name' \<Longrightarrow> filter (\<lambda>h. fst h = name) (header_remove name' hs) = filter (\<lambda>h. fst h = name) hs"
  by (auto simp: header_insert_def header_remove_def filter_empty_conv intro!: filter_cong)

lemma choose_id_graphic: "list_all is_ascii_graphic uuid \<Longrightarrow> list_all is_ascii_graphic (choose_id uuid incoming)"
  by (auto simp: choose_id_def acceptable_id_def split: option.splits)

lemma map_of_obj_insert: "map_of (obj_insert k v obj) = (map_of obj)(k \<mapsto> v)"
proof
  fix x
  show "map_of (obj_insert k v obj) x = ((map_of obj)(k \<mapsto> v)) x"
    by (induction obj) (auto simp: obj_insert_def)
qed

lemma embed_header:
  assumes "name \<noteq> CONTENT_LENGTH"
  shows "filter (\<lambda>h. fst h = name) (h_headers (embed_id_in_json_body from_slice to_vec hv r rid))
    = filter (\<lambda>h. fst h = name) (h_headers r)"
  using assms by (auto simp: embed_id_in_json_body_def Let_def split: option.splits)

lemma embed_status: "h_status (embed_id_in_json_body from_slice to_vec hv r rid) = h_status r"
  by (auto simp: embed_id_in_json_body_def Let_def split: option.splits)

section \<open>Properties\<close>

text \<open>
  Every response is correlated: it carries exactly one \<open>x-request-id\<close>, the client's own id
  if that is one of at most 128 visible ASCII characters and the generated one otherwise, and
  keeps its status; a response that is no server error keeps its body; and a server error with a
  JSON object of up to 1 MiB as body gets that id as a field, with all its other fields kept.
\<close>

theorem every_response_is_correlated:
  assumes "header_value_ok header_value" "\<And>v. to_vec v \<noteq> None" "list_all is_ascii_graphic uuid"
  shows "let r' = attach_request_id from_slice to_vec header_value uuid incoming r;
             request_id = (case incoming of Some s \<Rightarrow> if acceptable_id s then s else uuid | None \<Rightarrow> uuid)
    in filter (\<lambda>h. fst h = HEADER) (h_headers r') = [(HEADER, request_id)]
     \<and> h_status r' = h_status r
     \<and> (h_status r \<notin> {500..<600} \<longrightarrow> h_body r' = h_body r)
     \<and> (h_status r \<in> {500..<600} \<longrightarrow> (\<forall>bytes obj. h_body r = Some bytes \<longrightarrow> length bytes \<le> 1024 * 1024
          \<longrightarrow> from_slice bytes = Some (JObj obj)
          \<longrightarrow> (\<exists>obj'. h_body r' = to_vec (JObj obj')
                \<and> map_of obj' = (map_of obj)(''request_id'' \<mapsto> JStr request_id))))"
proof -
  let ?id = "choose_id uuid incoming"
  let ?t = "r\<lparr>h_headers := header_insert HEADER ?id (h_headers r)\<rparr>"
  have id: "header_value ?id = Some ?id"
    using assms(1) choose_id_graphic[OF assms(3)] by (simp add: header_value_ok_def)
  have a: "attach_request_id from_slice to_vec header_value uuid incoming r =
      (if h_status r \<in> {500..<600} then embed_id_in_json_body from_slice to_vec header_value ?t ?id else ?t)"
    by (simp add: attach_request_id_def id Let_def)
  have body: "\<exists>obj'. h_body (embed_id_in_json_body from_slice to_vec header_value ?t ?id) = to_vec (JObj obj')
      \<and> map_of obj' = (map_of obj)(''request_id'' \<mapsto> JStr ?id)"
    if "h_body r = Some bytes" "length bytes \<le> 1024 * 1024" "from_slice bytes = Some (JObj obj)" for bytes obj
    using that assms(2)[of "JObj (obj_insert ''request_id'' (JStr ?id) obj)"]
    by (intro exI[of _ "obj_insert ''request_id'' (JStr ?id) obj"])
      (auto simp: embed_id_in_json_body_def collect_body_def TO_BYTES_LIMIT_def insert_id_def map_of_obj_insert Let_def)
  show ?thesis
    unfolding Let_def choose_id_def[symmetric] a
    using body by (auto simp: embed_header[OF header_names] embed_status)
qed

definition sample_failure :: http_response where
  "sample_failure = \<lparr>h_status = 500, h_headers = [(''x-request-id'', ''old'')], h_body = Some [1]\<rparr>"

definition sample_from_slice :: "byte list \<Rightarrow> json option" where
  "sample_from_slice bs = (if bs = [1] then Some (JObj [(''error'', JStr ''internal error'')]) else None)"

definition sample_to_vec :: "json \<Rightarrow> byte list option" where
  "sample_to_vec v = Some (if v = JObj [(''error'', JStr ''internal error'')] then [1] else [2])"

theorem every_response_is_correlated_witness:
  "let r' = attach_request_id sample_from_slice sample_to_vec Some ''u-1'' (Some ''trace-7'') sample_failure;
       request_id = (case Some ''trace-7'' of Some s \<Rightarrow> if acceptable_id s then s else ''u-1'' | None \<Rightarrow> ''u-1'')
    in filter (\<lambda>h. fst h = HEADER) (h_headers r') = [(HEADER, request_id)]
     \<and> h_status r' = h_status sample_failure
     \<and> (h_status sample_failure \<notin> {500..<600} \<longrightarrow> h_body r' = h_body sample_failure)
     \<and> (h_status sample_failure \<in> {500..<600} \<longrightarrow> (\<forall>bytes obj. h_body sample_failure = Some bytes
          \<longrightarrow> length bytes \<le> 1024 * 1024 \<longrightarrow> sample_from_slice bytes = Some (JObj obj)
          \<longrightarrow> (\<exists>obj'. h_body r' = sample_to_vec (JObj obj')
                \<and> map_of obj' = (map_of obj)(''request_id'' \<mapsto> JStr request_id))))"
  by (rule every_response_is_correlated)
     (simp_all add: header_value_ok_def sample_to_vec_def is_ascii_graphic_def)

text \<open>
  Where the comment promises that a body which is not JSON passes unchanged rather than being
  dropped: the body of a server error that is larger than 1 MiB is dropped.
\<close>

theorem oversized_error_body_is_dropped:
  assumes "h_status r = 500" "h_body r = Some bytes" "length bytes > 1024 * 1024"
  shows "h_body (attach_request_id from_slice to_vec header_value uuid incoming r) = Some []"
  using assms
  by (simp add: attach_request_id_def embed_id_in_json_body_def collect_body_def TO_BYTES_LIMIT_def Let_def
      split: option.splits)

end
