(* ===== verification/Stats.thy ===== *)
theory Stats
  imports Errors Schema "HOL-Library.Multiset"
begin

text \<open>
  Public statistics, \<open>crates/attesta-api/src/routes/stats.rs\<close>, with the result cache of the
  application state.  A request reads the cache, and on a miss computes and stores; other requests
  run between the two.  \<open>env k\<close> is what the \<open>k\<close>-th of the five queries meets: an error or none,
  and the database at its time.  Instants are nanoseconds of the process clock.
\<close>

section \<open>Computing\<close>

record pool_stats =
  ps_pool :: string
  ps_asset :: string
  ps_tvl :: string

record protocol_stats =
  st_pools :: "pool_stats list"
  st_total_commitments :: nat
  st_total_nullifiers :: nat
  st_active_issuers :: nat
  st_credentials_delivered :: nat

type_synonym stats_env = "nat \<Rightarrow> db_call \<times> db"

definition run_query :: "(db \<Rightarrow> 'a) \<Rightarrow> db_call \<times> db \<Rightarrow> api_error + 'a" where
  "run_query f q = (case fst q of Some e \<Rightarrow> Inl (of_sqlx e) | None \<Rightarrow> Inr (f (snd q)))"

definition and_then :: "'e + 'a \<Rightarrow> ('a \<Rightarrow> 'e + 'b) \<Rightarrow> 'e + 'b" where
  "and_then r f = (case r of Inl e \<Rightarrow> Inl e | Inr x \<Rightarrow> f x)"

definition pools_query :: "(string \<Rightarrow> 'k::linorder) \<Rightarrow> db \<Rightarrow> pool_stats list" where
  "pools_query collate d =
     map (\<lambda>t. \<lparr>ps_pool = t_pool t, ps_asset = t_asset t, ps_tvl = show_int (t_total_in t - t_total_out t)\<rparr>)
       (select_by (collate \<circ> t_pool) (\<lambda>_. True) (pool_totals d))"

definition compute_stats :: "(string \<Rightarrow> 'k::linorder) \<Rightarrow> stats_env \<Rightarrow> api_error + protocol_stats" where
  "compute_stats collate env =
     and_then (run_query (pools_query collate) (env 0)) (\<lambda>pools.
     and_then (run_query (\<lambda>d. length (commitments d)) (env 1)) (\<lambda>total_commitments.
     and_then (run_query (\<lambda>d. length (nullifiers d)) (env 2)) (\<lambda>total_nullifiers.
     and_then (run_query (\<lambda>d. length (filter (\<lambda>i. i_status i = ''active'') (issuers d))) (env 3)) (\<lambda>active_issuers.
     and_then (run_query (\<lambda>d. length (credential_deliveries d)) (env 4)) (\<lambda>credentials_delivered.
       Inr \<lparr>st_pools = pools, st_total_commitments = total_commitments, st_total_nullifiers = total_nullifiers,
         st_active_issuers = active_issuers, st_credentials_delivered = credentials_delivered\<rparr>)))))"

section \<open>Answering\<close>

definition stats_json :: "protocol_stats \<Rightarrow> json" where
  "stats_json s = JObj
     [(''pools'', JArr (map (\<lambda>p. JObj [(''pool'', JStr (ps_pool p)), (''asset'', JStr (ps_asset p)), (''tvl'', JStr (ps_tvl p))])
        (st_pools s))),
      (''total_commitments'', JInt (int (st_total_commitments s))),
      (''total_nullifiers'', JInt (int (st_total_nullifiers s))),
      (''active_issuers'', JInt (int (st_active_issuers s))),
      (''credentials_delivered'', JInt (int (st_credentials_delivered s)))]"

definition with_cache_header :: "protocol_stats \<Rightarrow> 32 word \<Rightarrow> response" where
  "with_cache_header s ttl =
     \<lparr>rs_status = OK,
      rs_headers = (if ttl = 0 then [] else [(''cache-control'', ''public, max-age='' @ show_nat (unat ttl))]),
      rs_body = JsonBody (stats_json s)\<rparr>"

type_synonym stats_cache = "(instant \<times> protocol_stats) option"

text \<open>The first half of \<open>get_stats\<close>: the answer of the cache, if it gives one.\<close>

definition stats_lookup :: "32 word \<Rightarrow> stats_cache \<Rightarrow> instant \<Rightarrow> protocol_stats option" where
  "stats_lookup ttl cache now =
     (if ttl > 0
      then (case cache of
              Some (computed_at, cached) \<Rightarrow>
                if as_secs (duration_since now computed_at) < unat ttl then Some cached else None
            | None \<Rightarrow> None)
      else None)"

text \<open>The second half: compute, store, answer.\<close>

definition stats_finish :: "(string \<Rightarrow> 'k::linorder) \<Rightarrow> 32 word \<Rightarrow> stats_env \<Rightarrow> instant \<Rightarrow> stats_cache
    \<Rightarrow> stats_cache \<times> (api_error + response)" where
  "stats_finish collate ttl env now cache =
     (case compute_stats collate env of
        Inl e \<Rightarrow> (cache, Inl e)
      | Inr s \<Rightarrow> (if ttl > 0 then Some (now, s) else cache, Inr (with_cache_header s ttl)))"

definition get_stats :: "(string \<Rightarrow> 'k::linorder) \<Rightarrow> 32 word \<Rightarrow> instant \<Rightarrow> stats_env \<Rightarrow> instant \<Rightarrow> stats_cache
    \<Rightarrow> stats_cache \<times> (api_error + response)" where
  "get_stats collate ttl now env stored_at cache =
     (case stats_lookup ttl cache now of
        Some cached \<Rightarrow> (cache, Inr (with_cache_header cached ttl))
      | None \<Rightarrow> stats_finish collate ttl env stored_at cache)"

text \<open>
  Concurrent requests, as the halves they run: a lookup that may end its request, or the rest of
  a request that missed.  An output is the answer to the request that the half ends, if it does.
\<close>

datatype stats_event = Lookup instant | Finish stats_env instant

fun stats_step :: "(string \<Rightarrow> 'k::linorder) \<Rightarrow> 32 word \<Rightarrow> stats_cache \<Rightarrow> stats_event
    \<Rightarrow> stats_cache \<times> (api_error + response) option" where
  "stats_step collate ttl cache (Lookup now) =
     (cache, map_option (\<lambda>s. Inr (with_cache_header s ttl)) (stats_lookup ttl cache now))"
| "stats_step collate ttl cache (Finish env now) =
     (case stats_finish collate ttl env now cache of (cache', r) \<Rightarrow> (cache', Some r))"

definition cache_after :: "(string \<Rightarrow> 'k::linorder) \<Rightarrow> 32 word \<Rightarrow> stats_event list \<Rightarrow> stats_cache" where
  "cache_after collate ttl evs = foldl (\<lambda>c ev. fst (stats_step collate ttl c ev)) None evs"

section \<open>What the cache holds\<close>

text \<open>The statistics computed so far, oldest first, with the times they were finished at.\<close>

fun computed :: "(string \<Rightarrow> 'k::linorder) \<Rightarrow> stats_event \<Rightarrow> (instant \<times> protocol_stats) list" where
  "computed collate (Lookup now) = []"
| "computed collate (Finish env now) =
     (case compute_stats collate env of Inl e \<Rightarrow> [] | Inr s \<Rightarrow> [(now, s)])"

definition last_opt :: "'a list \<Rightarrow> 'a option" where
  "last_opt xs = (if xs = [] then None else Some (last xs))"

lemma last_opt_append [simp]: "last_opt (xs @ [x]) = Some x" "last_opt [] = None"
  by (simp_all add: last_opt_def)

lemma cache_after_computed:
  assumes "0 < ttl"
  shows "cache_after collate ttl evs = last_opt (concat (map (computed collate) evs))"
proof (induction evs rule: rev_induct)
  case (snoc ev evs)
  then show ?case
    using assms by (cases ev) (auto simp: cache_after_def stats_finish_def split: sum.splits)
qed (simp add: cache_after_def)

lemma within_ttl:
  "as_secs (duration_since now t) < n \<longleftrightarrow> 0 < n \<and> nanos now < nanos t + n * 10 ^ 9"
proof -
  have "as_secs (duration_since now t) < n \<longleftrightarrow> nanos now - nanos t < n * 10 ^ 9"
    unfolding as_secs_def duration_since_def by (rule div_less_iff_less_mult) simp
  then show ?thesis by (cases "n = 0") (auto simp: less_diff_conv2)
qed

section \<open>Properties\<close>

text \<open>
  C29. The cache is fresh, whatever requests run concurrently: it answers a request exactly when
  some earlier one has computed statistics and the last of those to be stored were stored less
  than the configured number of seconds ago, and then with these; a time to live of zero switches
  it off; and a failed computation never replaces what is cached.
\<close>

theorem stats_are_fresh:
  "snd (stats_step collate ttl (cache_after collate ttl evs) (Lookup now)) =
     (case last_opt (concat (map (computed collate) evs)) of
        Some (t, s) \<Rightarrow> if ttl \<noteq> 0 \<and> nanos now < nanos t + unat ttl * 10 ^ 9
                       then Some (Inr (with_cache_header s ttl)) else None
      | None \<Rightarrow> None)"
proof (cases "ttl = 0")
  case False
  then have "0 < ttl" by (simp add: word_gt_0)
  then show ?thesis
    by (auto simp: stats_lookup_def cache_after_computed within_ttl word_less_nat_alt split: option.splits)
qed (auto simp: stats_lookup_def split: option.splits)

definition true_stats :: "db \<Rightarrow> protocol_stats \<Rightarrow> bool" where
  "true_stats d s \<longleftrightarrow>
     mset (map ps_pool (st_pools s)) = mset (map t_pool (pool_totals d))
     \<and> (\<forall>p \<in> set (st_pools s). \<exists>t \<in> set (pool_totals d).
          ps_pool p = t_pool t \<and> ps_asset p = t_asset t \<and> ps_tvl p = show_int (t_total_in t - t_total_out t))
     \<and> st_total_commitments s = length (commitments d) \<and> st_total_nullifiers s = length (nullifiers d)
     \<and> st_active_issuers s = length (filter (\<lambda>i. i_status i = ''active'') (issuers d))
     \<and> st_credentials_delivered s = length (credential_deliveries d)"

lemma pools_query_true:
  "mset (map ps_pool (pools_query collate d)) = mset (map t_pool (pool_totals d))"
  "sorted (map (collate \<circ> ps_pool) (pools_query collate d))"
  "\<forall>p \<in> set (pools_query collate d). \<exists>t \<in> set (pool_totals d).
      ps_pool p = t_pool t \<and> ps_asset p = t_asset t \<and> ps_tvl p = show_int (t_total_in t - t_total_out t)"
proof -
  have "map ps_pool (pools_query collate d) = map t_pool (select_by (collate \<circ> t_pool) (\<lambda>_. True) (pool_totals d))"
    by (simp add: pools_query_def)
  then show "mset (map ps_pool (pools_query collate d)) = mset (map t_pool (pool_totals d))"
    by (simp only: mset_map) (simp add: select_by_def)
qed (use sorted_select_by[of "collate \<circ> t_pool" "\<lambda>_. True" "pool_totals d"] in \<open>auto simp: pools_query_def comp_def\<close>)

text \<open>
  On a quiet database a computed answer is the true one: the five counts are those of the
  tables, and there is one entry per row of \<open>pool_totals\<close>, with its deposits less its
  withdrawals in decimal, in the order of the pools; a failing query makes the whole answer an
  internal error that hides its cause.
\<close>

theorem stats_are_true:
  assumes "\<And>k. snd (env k) = d"
  shows "case compute_stats collate env of
     Inl e \<Rightarrow> (\<exists>k<5. fst (env k) \<noteq> None) \<and> status e = INTERNAL_SERVER_ERROR \<and> message e = ''internal error''
   | Inr s \<Rightarrow> (\<forall>k<5. fst (env k) = None)
       \<and> true_stats d s \<and> sorted (map (collate \<circ> ps_pool) (st_pools s))"
proof -
  have all5: "(\<forall>k<5. P k) \<longleftrightarrow> P 0 \<and> P 1 \<and> P 2 \<and> P 3 \<and> P (4 :: nat)" for P
    by (auto simp: less_Suc_eq numeral_eq_Suc)
  have ex5: "(\<exists>k<5. P k) \<longleftrightarrow> P 0 \<or> P 1 \<or> P 2 \<or> P 3 \<or> P (4 :: nat)" for P
    by (auto simp: less_Suc_eq numeral_eq_Suc)
  show ?thesis
    unfolding all5 ex5 compute_stats_def
    using assms pools_query_true[of collate d]
    by (auto simp: run_query_def and_then_def of_sqlx_def true_stats_def split: option.splits)
qed

definition sample_totals :: db where
  "sample_totals = empty_db\<lparr>pool_totals := [\<lparr>t_pool = ''P'', t_asset = ''USDC'', t_total_in = 7, t_total_out = 5\<rparr>]\<rparr>"

theorem stats_are_true_witness:
  "case compute_stats length (\<lambda>k. (None, sample_totals)) of
     Inl e \<Rightarrow> (\<exists>k<5. fst ((\<lambda>k::nat. (None :: db_call, sample_totals)) k) \<noteq> None)
       \<and> status e = INTERNAL_SERVER_ERROR \<and> message e = ''internal error''
   | Inr s \<Rightarrow> (\<forall>k<5. fst ((\<lambda>k::nat. (None :: db_call, sample_totals)) k) = None)
       \<and> true_stats sample_totals s \<and> sorted (map (length \<circ> ps_pool) (st_pools s))"
  by (rule stats_are_true) simp

end
