(* ===== verification/Router.thy ===== *)
theory Router
  imports RateLimits Schema
begin

text \<open>
  The router of the API, \<open>crates/attesta-api/src/routes/mod.rs\<close>: its routes with the rate-limit
  budget each is under, and the health probes.  The model covers requests that match a route by
  path and method (HEAD is answered by the GET route); the 404 and 405 answers are axum's own.
\<close>

section \<open>Routes\<close>

datatype endpoint =
    GetPath string | GetRoot string | ListNotes | ListDeliveries | ListIssuers | GetStats
  | GetManifest string string | GetFile string string string
  | DeliverCredential | ClaimDelivery string
  | HealthLive | HealthReady | Metrics | StreamNotes

datatype http_method = GET | HEAD | POST | OtherMethod

datatype budget = Reads | Writes | Unlimited

text \<open>A route's path, \<open>None\<close> for a capture; a capture takes one non-empty segment.\<close>

type_synonym path_template = "string option list"

fun match_template :: "path_template \<Rightarrow> string list \<Rightarrow> string list option" where
  "match_template [] [] = Some []"
| "match_template (Some t # ts) (s # ss) = (if s = t then match_template ts ss else None)"
| "match_template (None # ts) (s # ss) = (if s = [] then None else map_option ((#) s) (match_template ts ss))"
| "match_template _ _ = None"

definition read_routes :: "(path_template \<times> (string list \<Rightarrow> endpoint)) list" where
  "read_routes =
     [([Some ''v1'', Some ''tree'', None, Some ''path''], \<lambda>c. GetPath (c ! 0)),
      ([Some ''v1'', Some ''tree'', None, Some ''root''], \<lambda>c. GetRoot (c ! 0)),
      ([Some ''v1'', Some ''notes''], \<lambda>_. ListNotes),
      ([Some ''v1'', Some ''credentials''], \<lambda>_. ListDeliveries),
      ([Some ''v1'', Some ''issuers''], \<lambda>_. ListIssuers),
      ([Some ''v1'', Some ''stats''], \<lambda>_. GetStats),
      ([Some ''v1'', Some ''artifacts'', None, None], \<lambda>c. GetManifest (c ! 0) (c ! 1)),
      ([Some ''v1'', Some ''artifacts'', None, None, None], \<lambda>c. GetFile (c ! 0) (c ! 1) (c ! 2))]"

definition write_routes :: "(path_template \<times> (string list \<Rightarrow> endpoint)) list" where
  "write_routes =
     [([Some ''v1'', Some ''issuer'', Some ''credentials''], \<lambda>_. DeliverCredential),
      ([Some ''v1'', Some ''credentials'', None, Some ''claim''], \<lambda>c. ClaimDelivery (c ! 0))]"

definition open_routes :: "(path_template \<times> (string list \<Rightarrow> endpoint)) list" where
  "open_routes =
     [([Some ''health''], \<lambda>_. HealthLive),
      ([Some ''health'', Some ''live''], \<lambda>_. HealthLive),
      ([Some ''health'', Some ''ready''], \<lambda>_. HealthReady),
      ([Some ''metrics''], \<lambda>_. Metrics),
      ([Some ''v1'', Some ''notes'', Some ''stream''], \<lambda>_. StreamNotes)]"

primrec find_route :: "(path_template \<times> (string list \<Rightarrow> endpoint)) list \<Rightarrow> string list \<Rightarrow> endpoint option" where
  "find_route [] p = None"
| "find_route (r # rs) p =
     (case match_template (fst r) p of Some c \<Rightarrow> Some (snd r c) | None \<Rightarrow> find_route rs p)"

definition route :: "http_method \<Rightarrow> string list \<Rightarrow> (budget \<times> endpoint) option" where
  "route m p =
     (if m = GET \<or> m = HEAD
      then (case find_route open_routes p of
              Some e \<Rightarrow> Some (Unlimited, e)
            | None \<Rightarrow> map_option (Pair Reads) (find_route read_routes p))
      else if m = POST then map_option (Pair Writes) (find_route write_routes p)
      else None)"

section \<open>Serving\<close>

record http_request =
  rq_method :: http_method
  rq_path :: "string list"
  rq_ip :: ip_addr
  rq_now :: instant

record app_buckets =
  read_buckets :: ip_buckets
  write_buckets :: ip_buckets

text \<open>One request through the limiter layer of its route; \<open>handler\<close> is what lies behind it.\<close>

definition serve :: "(endpoint \<Rightarrow> 'x http_request_scheme \<Rightarrow> 's \<Rightarrow> 's \<times> response) \<Rightarrow> 'x http_request_scheme
    \<Rightarrow> app_buckets \<times> 's \<Rightarrow> (app_buckets \<times> 's) \<times> response option" where
  "serve handler rq = (\<lambda>(app, s).
     case route (rq_method rq) (rq_path rq) of
       None \<Rightarrow> ((app, s), None)
     | Some (Reads, e) \<Rightarrow>
         (case limit_requests (rq_ip rq) (rq_now rq) (handler e rq) (read_buckets app) s of
            (bs, s', r) \<Rightarrow> ((app\<lparr>read_buckets := bs\<rparr>, s'), Some r))
     | Some (Writes, e) \<Rightarrow>
         (case limit_requests (rq_ip rq) (rq_now rq) (handler e rq) (write_buckets app) s of
            (bs, s', r) \<Rightarrow> ((app\<lparr>write_buckets := bs\<rparr>, s'), Some r))
     | Some (Unlimited, e) \<Rightarrow> (case handler e rq s of (s', r) \<Rightarrow> ((app, s'), Some r)))"

primrec serve_all :: "(endpoint \<Rightarrow> 'x http_request_scheme \<Rightarrow> 's \<Rightarrow> 's \<times> response) \<Rightarrow> 'x http_request_scheme list
    \<Rightarrow> app_buckets \<times> 's \<Rightarrow> ('x http_request_scheme \<times> response option) list" where
  "serve_all handler [] st = []"
| "serve_all handler (rq # rqs) st =
     (case serve handler rq st of (st', r) \<Rightarrow> (rq, r) # serve_all handler rqs st')"

section \<open>Health\<close>

definition health_live :: json where
  "health_live = JObj [(''status'', JStr ''ok''), (''service'', JStr ''attesta-api'')]"

text \<open>\<open>max(updated_at) > now() - interval\<close> over the cursors: NULL, here \<open>None\<close>, without rows.\<close>

definition staleness_query :: "int \<Rightarrow> nat \<Rightarrow> db \<Rightarrow> bool option" where
  "staleness_query now max_staleness d =
     (if indexer_cursors d = [] then None
      else Some (Max (set (map k_updated_at (indexer_cursors d))) > now - int max_staleness * 10 ^ 9))"

definition health_ready :: "db_call \<Rightarrow> db_call \<Rightarrow> 32 word \<Rightarrow> int \<Rightarrow> db \<Rightarrow> status_code \<times> json" where
  "health_ready probe call max_staleness now d =
     (case probe of
        Some e \<Rightarrow> (SERVICE_UNAVAILABLE, JObj [(''status'', JStr ''unavailable''), (''failing'', JStr ''database'')])
      | None \<Rightarrow>
          if max_staleness > 0
             \<and> (case call of Some e \<Rightarrow> Some False | None \<Rightarrow> staleness_query now (unat max_staleness) d) \<noteq> Some True
          then (SERVICE_UNAVAILABLE, JObj [(''status'', JStr ''unavailable''), (''failing'', JStr ''indexer_staleness'')])
          else (OK, JObj [(''status'', JStr ''ready'')]))"

section \<open>Budgets\<close>

definition budget_of :: "'x http_request_scheme \<Rightarrow> budget option" where
  "budget_of rq = map_option fst (route (rq_method rq) (rq_path rq))"

text \<open>The traffic that one budget sees, and what the clients of its requests can tell.\<close>

definition traffic :: "budget \<Rightarrow> 'x http_request_scheme list \<Rightarrow> (ip_addr \<times> instant) list" where
  "traffic b rqs = map (\<lambda>rq. (rq_ip rq, rq_now rq)) (filter (\<lambda>rq. budget_of rq = Some b) rqs)"

definition retry_after :: "response \<Rightarrow> string option" where
  "retry_after r = map_of (rs_headers r) ''retry-after''"

definition answers_under :: "budget \<Rightarrow> ('x http_request_scheme \<times> response option) list \<Rightarrow> string option option list" where
  "answers_under b out = map (\<lambda>x. map_option retry_after (snd x)) (filter (\<lambda>x. budget_of (fst x) = Some b) out)"

definition verdict :: "nat + unit \<Rightarrow> string option option" where
  "verdict v = Some (case v of Inl n \<Rightarrow> Some (show_nat n) | Inr _ \<Rightarrow> None)"

lemma retry_after_refused: "retry_after (too_many_requests_response n) = Some (show_nat n)"
  by (simp add: retry_after_def too_many_requests_response_def)

lemma limit_requests_verdict:
  assumes "\<And>s. retry_after (snd (next s)) = None" "limit_requests ip now next bs s = (bs', s', r)"
  shows "bs' = fst (bucket_try_acquire ip now bs)"
    "Some (retry_after r) = verdict (snd (bucket_try_acquire ip now bs))"
proof -
  have r: "retry_after r' = None" if "next s = (s'', r')" for s'' r'
    using assms(1)[of s] that by simp
  show "bs' = fst (bucket_try_acquire ip now bs)"
    "Some (retry_after r) = verdict (snd (bucket_try_acquire ip now bs))"
    using assms(2) r
    by (auto simp: limit_requests_def verdict_def retry_after_refused split: prod.splits sum.splits)
qed

definition buckets_of :: "budget \<Rightarrow> app_buckets \<Rightarrow> ip_buckets" where
  "buckets_of b app = (if b = Reads then read_buckets app else write_buckets app)"

lemma stream_is_unlimited: "route m p = Some (b, StreamNotes) \<Longrightarrow> b = Unlimited"
  by (auto simp: route_def read_routes_def write_routes_def split: if_splits option.splits)

lemma serve_buckets:
  assumes h: "\<And>e rq s. e \<noteq> StreamNotes \<Longrightarrow> retry_after (snd (handler e rq s)) = None"
    and s: "serve handler rq (app, s) = ((app', s'), r)" and b: "b \<noteq> Unlimited"
  shows "budget_of rq = Some b \<Longrightarrow> buckets_of b app' = fst (bucket_try_acquire (rq_ip rq) (rq_now rq) (buckets_of b app))
      \<and> map_option retry_after r = verdict (snd (bucket_try_acquire (rq_ip rq) (rq_now rq) (buckets_of b app)))"
    "budget_of rq \<noteq> Some b \<Longrightarrow> buckets_of b app' = buckets_of b app"
proof -
  have l: "bs' = fst (bucket_try_acquire (rq_ip rq) (rq_now rq) bs)
      \<and> Some (retry_after r') = verdict (snd (bucket_try_acquire (rq_ip rq) (rq_now rq) bs))"
    if "limit_requests (rq_ip rq) (rq_now rq) (handler e rq) bs s = (bs', s'', r')" "e \<noteq> StreamNotes" for e bs bs' s'' r'
    using limit_requests_verdict[OF h[OF that(2)] that(1)] by simp
  show "buckets_of b app' = fst (bucket_try_acquire (rq_ip rq) (rq_now rq) (buckets_of b app))
      \<and> map_option retry_after r = verdict (snd (bucket_try_acquire (rq_ip rq) (rq_now rq) (buckets_of b app)))"
    if m: "budget_of rq = Some b"
  proof -
    obtain e where e: "route (rq_method rq) (rq_path rq) = Some (b, e)"
      using m by (auto simp: budget_of_def)
    then have "e \<noteq> StreamNotes" using stream_is_unlimited b by blast
    moreover obtain bs' s'' r' where
      "limit_requests (rq_ip rq) (rq_now rq) (handler e rq) (buckets_of b app) s = (bs', s'', r')" by (metis prod_cases3)
    ultimately show ?thesis
      using s b l[of e "buckets_of b app" bs' s'' r'] e by (cases b) (auto simp: serve_def buckets_of_def)
  qed
  show "budget_of rq \<noteq> Some b \<Longrightarrow> buckets_of b app' = buckets_of b app"
    using s b
    by (cases b) (auto simp: serve_def budget_of_def buckets_of_def split: option.splits prod.splits budget.splits)
qed

lemma serve_all_answers:
  assumes "\<And>e rq s. e \<noteq> StreamNotes \<Longrightarrow> retry_after (snd (handler e rq s)) = None" "b \<noteq> Unlimited"
  shows "answers_under b (serve_all handler rqs (app, s))
    = map verdict (snd (acquire_all (traffic b rqs) (buckets_of b app)))"
proof (induction rqs arbitrary: app s)
  case (Cons rq rqs)
  obtain app' s' r where st: "serve handler rq (app, s) = ((app', s'), r)" by (metis prod.collapse)
  note sv = serve_buckets[OF assms(1) st assms(2)]
  show ?case
  proof (cases "budget_of rq = Some b")
    case True
    with sv(1) Cons[of app' s'] st show ?thesis
      by (auto simp: answers_under_def traffic_def split: prod.splits)
  next
    case False
    with sv(2) Cons[of app' s'] st show ?thesis
      by (auto simp: answers_under_def traffic_def)
  qed
qed (simp add: answers_under_def traffic_def)

section \<open>Properties\<close>

text \<open>
  Reads and writes have separate budgets: in any mix of requests, to whatever handlers, the
  clients' read (write) requests are refused, with the \<open>Retry-After\<close> they see, exactly as the read
  (write) limiter would refuse the reads (writes) alone; a throttled writer cannot starve reads,
  nor the other way round, and the health probes, the metrics and the stream spend neither budget.
  The handlers under a budget are assumed to send no \<open>Retry-After\<close> of their own, as the program's do.
\<close>

theorem budgets_are_separate:
  assumes "\<And>e rq s. e \<noteq> StreamNotes \<Longrightarrow> retry_after (snd (handler e rq s)) = None" "b \<in> {Reads, Writes}"
  shows "answers_under b (serve_all handler rqs (\<lparr>read_buckets = rb, write_buckets = wb\<rparr>, s))
    = map verdict (snd (acquire_all (traffic b rqs) (if b = Reads then rb else wb)))"
  using serve_all_answers[of handler b rqs "\<lparr>read_buckets = rb, write_buckets = wb\<rparr>" s, OF assms(1)] assms(2)
  by (auto simp: buckets_of_def)

definition sample_handler :: "endpoint \<Rightarrow> http_request \<Rightarrow> unit \<Rightarrow> unit \<times> response" where
  "sample_handler e rq s = (s, \<lparr>rs_status = OK, rs_headers = [], rs_body = JsonBody JNull\<rparr>)"

definition sample_requests :: "http_request list" where
  "sample_requests =
     [\<lparr>rq_method = POST, rq_path = [''v1'', ''issuer'', ''credentials''], rq_ip = V4 1, rq_now = Instant 0\<rparr>,
      \<lparr>rq_method = POST, rq_path = [''v1'', ''issuer'', ''credentials''], rq_ip = V4 1, rq_now = Instant 1\<rparr>,
      \<lparr>rq_method = GET, rq_path = [''v1'', ''tree'', ''P'', ''root''], rq_ip = V4 1, rq_now = Instant 2\<rparr>]"

theorem budgets_are_separate_witness:
  "answers_under Reads (serve_all sample_handler sample_requests
       (\<lparr>read_buckets = new_buckets 1 1, write_buckets = new_buckets 1 1\<rparr>, ()))
    = map verdict (snd (acquire_all (traffic Reads sample_requests)
        (if Reads = Reads then new_buckets 1 1 else new_buckets 1 1)))"
  by (rule budgets_are_separate) (simp_all add: sample_handler_def retry_after_def)

text \<open>
  Ready means ready: the probe answers 200 exactly when the database answers and, if a
  staleness bound is configured, the cursors can be read and one of them moved within that many
  seconds; otherwise 503.
\<close>

theorem ready_iff:
  "fst (health_ready probe call max_staleness now d) =
     (if probe = None \<and> (max_staleness = 0 \<or> call = None
          \<and> (\<exists>k \<in> set (indexer_cursors d). now - int (unat max_staleness) * 10 ^ 9 < k_updated_at k))
      then OK else SERVICE_UNAVAILABLE)"
proof -
  have "staleness_query now n d = Some True \<longleftrightarrow>
      (\<exists>k \<in> set (indexer_cursors d). now - int n * 10 ^ 9 < k_updated_at k)" for n
    by (auto simp: staleness_query_def Max_gr_iff)
  then show ?thesis by (auto simp: health_ready_def word_gt_0 split: option.splits)
qed

end
