(* ===== verification/Disclosure.thy ===== *)
theory Disclosure
  imports TreeService Notes
begin

text \<open>
  The disclosure tool, \<open>crates/attesta-disclosure/src/main.rs\<close>: a client of the API that generates a
  report for an auditor and verifies it later.  The client is modelled over any service that
  answers its requests with JSON; \<open>backend\<close> is that service made of this development's models of
  the API, so that the properties are about client and server together.  Files, the clock and the
  command line are arguments.
\<close>

section \<open>JSON as the client reads it\<close>

definition jget :: "json \<Rightarrow> string \<Rightarrow> json" where
  "jget j k = (case j of JObj fs \<Rightarrow> (case map_of fs k of Some v \<Rightarrow> v | None \<Rightarrow> JNull) | _ \<Rightarrow> JNull)"

definition as_str :: "json \<Rightarrow> string option" where
  "as_str j = (case j of JStr s \<Rightarrow> Some s | _ \<Rightarrow> None)"

definition as_i64 :: "json \<Rightarrow> int option" where
  "as_i64 j = (case j of JInt x \<Rightarrow> if in_i64 x then Some x else None | _ \<Rightarrow> None)"

definition as_array :: "json \<Rightarrow> json list option" where
  "as_array j = (case j of JArr xs \<Rightarrow> Some xs | _ \<Rightarrow> None)"

section \<open>The client\<close>

text \<open>
  \<open>GET /v1/tree/{pool}/root\<close> with an optional \<open>at_ledger\<close>, and \<open>GET /v1/notes\<close> for a pool with an
  optional \<open>since_cursor\<close>.  A service takes its state along; an error is a transport failure, an
  error status or a body that is not JSON.
\<close>

datatype api_request = RootRequest string "int option" | NotesRequest string "int option"

type_synonym 's service = "'s \<Rightarrow> api_request \<Rightarrow> 's \<times> (string + json)"

record report =
  rep_version :: nat
  rep_pool :: string
  rep_generated_at :: string
  rep_tree_root :: string
  rep_anchored_ledger :: int
  rep_entries :: "json list"
  rep_total_notes_scanned :: nat

definition report_json :: "report \<Rightarrow> json" where
  "report_json r = JObj
     [(''version'', JInt (int (rep_version r))), (''pool'', JStr (rep_pool r)),
      (''generated_at'', JStr (rep_generated_at r)), (''tree_root'', JStr (rep_tree_root r)),
      (''anchored_ledger'', JInt (rep_anchored_ledger r)), (''entries'', JArr (rep_entries r)),
      (''total_notes_scanned'', JInt (int (rep_total_notes_scanned r)))]"

text \<open>The paging loop, with fuel: \<open>None\<close> when the pages did not end within it.\<close>

primrec scan_notes :: "nat \<Rightarrow> 's service \<Rightarrow> string \<Rightarrow> int option \<Rightarrow> json list \<Rightarrow> 's
    \<Rightarrow> ('s \<times> (string + json list)) option" where
  "scan_notes 0 fetch pool cursor notes s = None"
| "scan_notes (Suc n) fetch pool cursor notes s =
     (case fetch s (NotesRequest pool cursor) of
        (s', Inl e) \<Rightarrow> Some (s', Inl e)
      | (s', Inr page) \<Rightarrow>
          let notes' = notes @ (case as_array (jget page ''notes'') of Some items \<Rightarrow> items | None \<Rightarrow> [])
          in (case as_i64 (jget page ''next_cursor'') of
                Some c \<Rightarrow> scan_notes n fetch pool (Some c) notes' s'
              | None \<Rightarrow> Some (s', Inr notes')))"

text \<open>\<open>key\<close> is the outcome of reading the viewing key; the report is what the tool writes.\<close>

definition generate :: "nat \<Rightarrow> byte list option \<Rightarrow> 's service \<Rightarrow> string \<Rightarrow> string \<Rightarrow> 's
    \<Rightarrow> ('s \<times> (string + report)) option" where
  "generate fuel key fetch pool now s =
     (case key of
        None \<Rightarrow> Some (s, Inl ''reading viewing key'')
      | Some _ \<Rightarrow>
          (case fetch s (RootRequest pool None) of
             (s1, Inl e) \<Rightarrow> Some (s1, Inl e)
           | (s1, Inr latest) \<Rightarrow>
               (case scan_notes fuel fetch pool None [] s1 of
                  None \<Rightarrow> None
                | Some (s2, Inl e) \<Rightarrow> Some (s2, Inl e)
                | Some (s2, Inr notes) \<Rightarrow> Some (s2, Inr
                    \<lparr>rep_version = 1, rep_pool = pool, rep_generated_at = now,
                     rep_tree_root = (case as_str (jget latest ''root'') of Some x \<Rightarrow> x | None \<Rightarrow> []),
                     rep_anchored_ledger = (case as_i64 (jget latest ''anchored_ledger'') of Some l \<Rightarrow> l | None \<Rightarrow> 0),
                     rep_entries = [], rep_total_notes_scanned = length notes\<rparr>))))"

text \<open>\<open>verify\<close> on the JSON of a report file: what it prints.\<close>

definition verify :: "'s service \<Rightarrow> json \<Rightarrow> 's \<Rightarrow> 's \<times> (string + json)" where
  "verify fetch rep s =
     (case as_str (jget rep ''pool'') of
        None \<Rightarrow> (s, Inl ''report missing pool'')
      | Some pool \<Rightarrow>
          (case as_i64 (jget rep ''anchored_ledger'') of
             None \<Rightarrow> (s, Inl ''report missing anchored_ledger'')
           | Some anchored \<Rightarrow>
               (case fetch s (RootRequest pool (Some anchored)) of
                  (s', Inl e) \<Rightarrow> (s', Inl e)
                | (s', Inr historical) \<Rightarrow> (s', Inr (JObj
                    [(''report_root'', jget rep ''tree_root''), (''anchored_ledger'', JInt anchored),
                     (''historical_root'', jget historical ''root''),
                     (''roots_match'', JBool (jget historical ''root'' = jget rep ''tree_root''))])))))"

text \<open>
  \<open>main\<close>: the two commands over the files of the machine.  \<open>fetch_of\<close> is the service behind a URL;
  \<open>to_vec_pretty\<close> and \<open>from_slice\<close> are serde\_json's, and \<open>write_error\<close> says whether writing the report
  fails and what it leaves of the file.  The result is what
  \<open>verify\<close> prints, or nothing.
\<close>

type_synonym files = "string \<rightharpoonup> byte list"

datatype command = Generate string string string string | Verify string string

primrec disclosure_main :: "nat \<Rightarrow> (string \<Rightarrow> 's service) \<Rightarrow> (json \<Rightarrow> byte list option) \<Rightarrow> (byte list \<Rightarrow> json option)
    \<Rightarrow> (byte list option \<times> string) option \<Rightarrow> string \<Rightarrow> files \<Rightarrow> 's \<Rightarrow> command \<Rightarrow> (files \<times> 's \<times> (string + json option)) option" where
  "disclosure_main fuel fetch_of to_vec_pretty from_slice write_error now files s (Generate api_url pool viewing_key out) =
     (case generate fuel (files viewing_key) (fetch_of api_url) pool now s of
        None \<Rightarrow> None
      | Some (s', Inl e) \<Rightarrow> Some (files, s', Inl e)
      | Some (s', Inr rep) \<Rightarrow>
          (case to_vec_pretty (report_json rep) of
             None \<Rightarrow> Some (files, s', Inl ''serializing the report'')
           | Some bytes \<Rightarrow>
               (case write_error of
                  Some (left, e) \<Rightarrow> Some (files(out := left), s', Inl e)
                | None \<Rightarrow> Some (files(out \<mapsto> bytes), s', Inr None))))"
| "disclosure_main fuel fetch_of to_vec_pretty from_slice write_error now files s (Verify api_url report_path) =
     (case files report_path of
        None \<Rightarrow> Some (files, s, Inl (''reading '' @ report_path))
      | Some bytes \<Rightarrow>
          (case from_slice bytes of
             None \<Rightarrow> Some (files, s, Inl ''parsing the report'')
           | Some rep \<Rightarrow>
               (case verify (fetch_of api_url) rep s of
                  (s', Inl e) \<Rightarrow> Some (files, s', Inl e)
                | (s', Inr printed) \<Rightarrow> Some (files, s', Inr (Some printed)))))"

section \<open>The service\<close>

text \<open>The API over its database and tree cache; a panic closes the connection.\<close>

definition backend :: "(byte list \<Rightarrow> string) \<Rightarrow> tree_hasher \<Rightarrow> (db \<times> trees) service" where
  "backend hex_encode h = (\<lambda>(d, trees) request.
     case request of
       RootRequest pool l \<Rightarrow>
         (case get_root hex_encode h None None None pool \<lparr>at_ledger = l, at_leaf_count = None\<rparr> d trees of
            None \<Rightarrow> ((d, trees), Inl ''connection closed'')
          | Some (d', trees', Inl e) \<Rightarrow> ((d', trees'), Inl (message e))
          | Some (d', trees', Inr r) \<Rightarrow> ((d', trees'), Inr (root_response_json r)))
     | NotesRequest pool c \<Rightarrow>
         (case list_notes c (Some pool) None d of
            Inl e \<Rightarrow> ((d, trees), Inl (message e))
          | Inr p \<Rightarrow> ((d, trees), Inr (notes_page_json hex_encode p))))"

section \<open>Scanning the backend\<close>

lemma jget_simps [simp]: "jget (JObj fs) k = (case map_of fs k of Some v \<Rightarrow> v | None \<Rightarrow> JNull)"
  by (simp add: jget_def)

definition ids_fit :: "db \<Rightarrow> bool" where
  "ids_fit d \<longleftrightarrow> (\<forall>n \<in> set (encrypted_notes d). 0 < e_id n \<and> in_i64 (e_id n))"

lemma notes_page_fits:
  assumes "ids_fit d" "list_notes c pool None d = Inr p" "np_next_cursor p = Some x"
  shows "in_i64 x"
proof -
  have p: "np_notes p = query_after PAGE_SIZE e_id (pool_is pool) (case c of Some c \<Rightarrow> c | None \<Rightarrow> 0) (encrypted_notes d)"
    "np_next_cursor p = next_cursor_of PAGE_SIZE e_id (np_notes p)"
    using assms(2) by (auto simp: list_notes_def Let_def)
  then have x: "np_notes p \<noteq> []" "x = e_id (last (np_notes p))"
    using assms(3) by (auto simp: next_cursor_of_def split: if_splits)
  have "set (np_notes p) \<subseteq> set (encrypted_notes d)"
    unfolding p(1) query_after_def using set_take_subset by fastforce
  then have "last (np_notes p) \<in> set (encrypted_notes d)" using last_in_set[OF x(1)] by blast
  then show ?thesis using assms(1) x(2) by (simp add: ids_fit_def)
qed

lemma scan_notes_pages:
  assumes "ids_fit d"
  shows "scan_notes n (backend hex_encode h) pool c acc (d, trees)
    = map_option (\<lambda>rows. ((d, trees), Inr (acc @ map (note_json hex_encode) rows)))
        (follow_pages (notes_request (Some pool)) (replicate n d) (case c of Some c \<Rightarrow> c | None \<Rightarrow> 0))"
proof (induction n arbitrary: c acc)
  case (Suc n)
  obtain p where p: "list_notes c (Some pool) None d = Inr p" by (simp add: list_notes_def Let_def)
  have r: "notes_request (Some pool) d (case c of Some c \<Rightarrow> c | None \<Rightarrow> 0) = (np_notes p, np_next_cursor p)"
    using p by (auto simp: notes_request_def list_notes_def Let_def)
  show ?case
  proof (cases "np_next_cursor p")
    case None
    then show ?thesis using p r by (simp add: backend_def notes_page_json_def as_array_def as_i64_def)
  next
    case (Some x)
    then have "in_i64 x" by (rule notes_page_fits[OF assms p])
    then have step: "scan_notes (Suc n) (backend hex_encode h) pool c acc (d, trees)
        = scan_notes n (backend hex_encode h) pool (Some x) (acc @ map (note_json hex_encode) (np_notes p)) (d, trees)"
      using p Some by (simp add: backend_def notes_page_json_def as_array_def as_i64_def)
    show ?thesis unfolding step Suc.IH using r Some by (simp add: option.map_comp comp_def)
  qed
qed simp

section \<open>Reports of the backend\<close>

text \<open>The ledger that a tree of these leaves is anchored to.\<close>

definition anchor :: "leaf list \<Rightarrow> int" where
  "anchor rows = fold max (map leaf_ledger rows) 0"

lemma anchor_upper: "r \<in> set rows \<Longrightarrow> leaf_ledger r \<le> anchor rows"
proof -
  have "anchor rows = Max (set (0 # map leaf_ledger rows))"
    unfolding anchor_def by (rule Max.set_eq_fold[symmetric])
  then show "r \<in> set rows \<Longrightarrow> leaf_ledger r \<le> anchor rows" by (simp add: Max_ge)
qed

lemma get_root_latest:
  assumes "tree_inv h d trees" "mirror d pool \<noteq> []" "\<not> stops_corrupt 0 (leaf_query d pool 0)"
  shows "\<exists>d' trees'. get_root hex_encode h None None None pool \<lparr>at_ledger = None, at_leaf_count = None\<rparr> d trees
      = Some (d', trees', Inr \<lparr>rr_pool = pool, rr_root = hex0x hex_encode (naive_root h (leaf_nodes (mirror d pool))),
          rr_leaf_count = int (length (mirror d pool)), rr_anchored_ledger = anchor (mirror d pool)\<rparr>)
    \<and> encrypted_notes d' = encrypted_notes d"
proof -
  obtain pt where "sync_pool_tree h None None pool d trees
      = Some (insert_roots pool (history h (mirror d pool) (cached_len trees pool)) d, trees(pool \<mapsto> pt), Inr pt)"
    "pool_tree_ok h (mirror d pool) pt"
    by (rule sync_ok[OF assms])
  then show ?thesis
    by (auto simp: get_root_def pool_tree_ok_def anchor_def naive_root_eq insert_roots_def
        dest: tree_root_repr tree_len_repr)
qed

definition report_of :: "(byte list \<Rightarrow> string) \<Rightarrow> tree_hasher \<Rightarrow> string \<Rightarrow> string \<Rightarrow> db \<Rightarrow> report" where
  "report_of hex_encode h pool now d =
     \<lparr>rep_version = 1, rep_pool = pool, rep_generated_at = now,
      rep_tree_root = hex0x hex_encode (naive_root h (leaf_nodes (mirror d pool))),
      rep_anchored_ledger = anchor (mirror d pool), rep_entries = [],
      rep_total_notes_scanned = length (filter (\<lambda>n. e_pool n = pool) (encrypted_notes d))\<rparr>"

lemma generate_backend:
  assumes t: "tree_inv h d trees" "mirror d pool \<noteq> []" "\<not> stops_corrupt 0 (leaf_query d pool 0)"
    and n: "notes_ok d" "ids_fit d" "length (filter (\<lambda>n. e_pool n = pool) (encrypted_notes d)) < fuel * 500"
    and l: "in_i64 (anchor (mirror d pool))"
  shows "\<exists>s'. generate fuel (Some key) (backend hex_encode h) pool now (d, trees)
    = Some (s', Inr (report_of hex_encode h pool now d))"
proof -
  obtain d' trees' where r: "get_root hex_encode h None None None pool \<lparr>at_ledger = None, at_leaf_count = None\<rparr> d trees
      = Some (d', trees', Inr \<lparr>rr_pool = pool, rr_root = hex0x hex_encode (naive_root h (leaf_nodes (mirror d pool))),
          rr_leaf_count = int (length (mirror d pool)), rr_anchored_ledger = anchor (mirror d pool)\<rparr>)"
    "encrypted_notes d' = encrypted_notes d"
    using get_root_latest[OF t] by blast
  have n': "notes_ok d'" "ids_fit d'" using n(1,2) r(2) by (simp_all add: notes_ok_def ids_fit_def)
  have a: "notes_feed.after (Some pool) d' 0 = filter (\<lambda>n. e_pool n = pool) (encrypted_notes d)"
    using n(2) r(2) by (auto simp: notes_feed.after_def pool_is_def ids_fit_def intro: filter_cong)
  have "follow_pages (notes_request (Some pool)) (replicate fuel d') 0
      = Some (filter (\<lambda>n. e_pool n = pool) (encrypted_notes d))"
    using notes_feed.follow_static[OF n'(1), of "Some pool" 0 fuel] n(3) unfolding a by (simp add: PAGE_SIZE_def)
  then show ?thesis
    using r(1) l scan_notes_pages[OF n'(2), of fuel hex_encode h pool None "[]" trees']
    by (simp add: generate_def backend_def root_response_json_def report_of_def as_str_def as_i64_def)
qed

lemma generate_report:
  assumes "tree_inv h d trees" "in_i64 (anchor (mirror d pool))"
    and g: "generate fuel key (backend hex_encode h) pool now (d, trees) = Some (s', Inr rep)"
  shows "rep_pool rep = pool \<and> rep_tree_root rep = hex0x hex_encode (naive_root h (leaf_nodes (mirror d pool)))
    \<and> rep_anchored_ledger rep = anchor (mirror d pool) \<and> mirror d pool \<noteq> []"
proof -
  obtain s1 latest where f: "backend hex_encode h (d, trees) (RootRequest pool None) = (s1, Inr latest)"
    using g by (auto simp: generate_def split: option.splits prod.splits sum.splits)
  then obtain d' trees' r where "get_root hex_encode h None None None pool \<lparr>at_ledger = None, at_leaf_count = None\<rparr> d trees
      = Some (d', trees', Inr r)" and l: "latest = root_response_json r"
    by (auto simp: backend_def split: option.splits prod.splits sum.splits)
  then obtain pt where s: "sync_pool_tree h None None pool d trees = Some (d', trees', Inr pt)"
    and r: "rr_root r = hex0x hex_encode (tree_root (pt_tree pt))" "rr_anchored_ledger r = anchored_ledger pt"
    by (auto simp: get_root_def split: bind_splits prod.splits sum.splits)
  note m = sync_ok_mirror[OF assms(1) s]
  have "tree_root (pt_tree pt) = naive_root h (leaf_nodes (mirror d pool))" "anchored_ledger pt = anchor (mirror d pool)"
    using m(4) by (auto simp: pool_tree_ok_def naive_root_eq anchor_def dest: tree_root_repr)
  then show ?thesis
    using g f l r m(5) assms(2)
    by (auto simp: generate_def root_response_json_def as_str_def as_i64_def split: option.splits prod.splits sum.splits)
qed

text \<open>
  What \<open>verify\<close> compares the report with: the root after all leaves up to the anchored ledger,
  those included that came after the report was written.
\<close>

lemma verify_backend:
  assumes t: "tree_inv h d trees" "history_complete d trees" "hasher_ok h" "\<not> stops_corrupt 0 (leaf_query d pool 0)"
    and m: "mirror d pool = old @ same @ later" "old \<noteq> []"
    and r: "rep_pool rep = pool" "rep_anchored_ledger rep = anchor old" "in_i64 (anchor old)"
    and l: "\<forall>x \<in> set same. leaf_ledger x \<le> anchor old" "\<forall>x \<in> set later. anchor old < leaf_ledger x"
  shows "\<exists>s'. verify (backend hex_encode h) (report_json rep) (d, trees) = (s', Inr (JObj
    [(''report_root'', JStr (rep_tree_root rep)), (''anchored_ledger'', JInt (anchor old)),
     (''historical_root'', JStr (hex0x hex_encode (naive_root h (leaf_nodes (old @ same))))),
     (''roots_match'', JBool (hex0x hex_encode (naive_root h (leaf_nodes (old @ same))) = rep_tree_root rep))]))"
proof -
  let ?n = "length (old @ same)"
  have take: "take ?n (mirror d pool) = old @ same" using m(1) by simp
  have last: "leaf_ledger (mirror d pool ! (?n - 1)) \<le> anchor old"
  proof -
    have "mirror d pool ! (?n - 1) \<in> set (old @ same)"
      unfolding m(1) append_assoc[symmetric] using m(2) by (subst nth_append) (auto intro: nth_mem simp del: set_append)
    then show ?thesis using anchor_upper[of _ old] l(1) unfolding set_append by blast
  qed
  have "\<exists>d' trees'. get_root hex_encode h None None None pool \<lparr>at_ledger = Some (anchor old), at_leaf_count = None\<rparr> d trees
      = Some (d', trees', Inr \<lparr>rr_pool = pool, rr_root = hex0x hex_encode (naive_root h (leaf_nodes (take ?n (mirror d pool)))),
          rr_leaf_count = int ?n, rr_anchored_ledger = leaf_ledger (mirror d pool ! (?n - 1))\<rparr>)"
  proof (rule get_root_history[OF t(1,2,3) _ t(4),
        where P = "\<lambda>r. r_pool r = pool \<and> r_ledger r \<le> anchor old" and Q = "\<lambda>m l. l \<le> anchor old"])
    fix k assume k: "?n < k" "k \<le> length (mirror d pool)"
    then have "mirror d pool ! (k - 1) = later ! (k - 1 - ?n)" "k - 1 - ?n < length later"
      unfolding m(1) append_assoc[symmetric] by (auto simp: nth_append)
    then show "\<not> leaf_ledger (mirror d pool ! (k - 1)) \<le> anchor old" using l(2) by (simp add: not_le)
  qed (use m last in \<open>auto simp: history_lookup_def Suc_le_eq\<close>)
  then show ?thesis
    unfolding take using r
    by (auto simp: verify_def backend_def report_json_def root_response_json_def as_str_def as_i64_def)
qed

section \<open>Properties\<close>

text \<open>
  C32. A report covers the pool: generated from a backend whose tables are well formed, in as many
  requests as the pages need, it names the root and the anchor ledger of all indexed leaves of the
  pool and counts every note of the pool exactly once; it ends, and it contains no entry.
\<close>

theorem report_covers_the_pool:
  assumes "tree_inv h d trees" "mirror d pool \<noteq> []" "\<not> stops_corrupt 0 (leaf_query d pool 0)"
    and "notes_ok d" "ids_fit d" "length (filter (\<lambda>n. e_pool n = pool) (encrypted_notes d)) < fuel * 500"
    and "in_i64 (anchor (mirror d pool))"
  shows "\<exists>s'. generate fuel (Some key) (backend hex_encode h) pool now (d, trees) = Some (s', Inr
     \<lparr>rep_version = 1, rep_pool = pool, rep_generated_at = now,
      rep_tree_root = hex0x hex_encode (naive_root h (leaf_nodes (mirror d pool))),
      rep_anchored_ledger = anchor (mirror d pool), rep_entries = [],
      rep_total_notes_scanned = length (filter (\<lambda>n. e_pool n = pool) (encrypted_notes d))\<rparr>)"
  using generate_backend[OF assms] by (simp add: report_of_def)

lemma sample_db_facts:
  "mirror sample_db ''P'' \<noteq> []" "notes_ok sample_db" "ids_fit sample_db" "encrypted_notes sample_db = []"
  "in_i64 (anchor (mirror sample_db ''P''))"
  by (simp_all add: sample_db_mirror notes_ok_def ids_fit_def anchor_def leaf_ledger_def in_i64_def)
     (simp_all add: sample_db_def empty_db_def)

theorem report_covers_the_pool_witness:
  "\<exists>s'. generate 1 (Some [7]) (backend sample_hex_encode sample_hasher) ''P'' ''now'' (sample_db, Map.empty) = Some (s', Inr
     \<lparr>rep_version = 1, rep_pool = ''P'', rep_generated_at = ''now'',
      rep_tree_root = hex0x sample_hex_encode (naive_root sample_hasher (leaf_nodes (mirror sample_db ''P''))),
      rep_anchored_ledger = anchor (mirror sample_db ''P''), rep_entries = [],
      rep_total_notes_scanned = length (filter (\<lambda>n. e_pool n = ''P'') (encrypted_notes sample_db))\<rparr>)"
  by (rule report_covers_the_pool[OF sample_tree_inv sample_db_facts(1) sample_db_clean sample_db_facts(2,3)])
     (simp_all add: sample_db_facts)

text \<open>
  An auditor confirms a true report, however the pool has grown: if all leaves indexed after
  the report was generated belong to later ledgers, and the history is complete, \<open>verify\<close> finds
  the historical root equal to the report's.
\<close>

theorem true_report_is_confirmed:
  assumes "tree_inv h d trees" "in_i64 (anchor (mirror d pool))"
    and "generate fuel key (backend hex_encode h) pool now (d, trees) = Some (s', Inr rep)"
    and "tree_inv h d2 trees2" "history_complete d2 trees2" "hasher_ok h" "\<not> stops_corrupt 0 (leaf_query d2 pool 0)"
    and "mirror d2 pool = mirror d pool @ later" "\<forall>x \<in> set later. rep_anchored_ledger rep < leaf_ledger x"
  shows "\<exists>s2. verify (backend hex_encode h) (report_json rep) (d2, trees2) = (s2, Inr (JObj
    [(''report_root'', JStr (rep_tree_root rep)), (''anchored_ledger'', JInt (rep_anchored_ledger rep)),
     (''historical_root'', JStr (rep_tree_root rep)), (''roots_match'', JBool True)]))"
proof -
  note g = generate_report[OF assms(1-3)]
  show ?thesis
    using verify_backend[OF assms(4-7), of "mirror d pool" "[]" later rep hex_encode] g assms(2,8,9) by simp
qed

theorem true_report_is_confirmed_witness:
  "\<exists>rep s2. verify (backend sample_hex_encode sample_hasher) (report_json rep) (sample_db, Map.empty) = (s2, Inr (JObj
    [(''report_root'', JStr (rep_tree_root rep)), (''anchored_ledger'', JInt (rep_anchored_ledger rep)),
     (''historical_root'', JStr (rep_tree_root rep)), (''roots_match'', JBool True)]))"
proof -
  obtain s' where g: "generate 1 (Some [7]) (backend sample_hex_encode sample_hasher) ''P'' ''now'' (sample_db, Map.empty)
      = Some (s', Inr (report_of sample_hex_encode sample_hasher ''P'' ''now'' sample_db))"
    using generate_backend[OF sample_tree_inv sample_db_facts(1) sample_db_clean sample_db_facts(2,3), of 1 "[7]"
        sample_hex_encode sample_hasher "''now''"] sample_db_facts(4,5) by fastforce
  from true_report_is_confirmed[OF sample_tree_inv sample_db_facts(5) g sample_tree_inv history_complete_empty
      sample_hasher_ok sample_db_clean, of "[]"]
  show ?thesis by auto
qed


text \<open>The witness: serde restricted to the one report that is written.\<close>

definition sample_report_json :: json where
  "sample_report_json = report_json (report_of sample_hex_encode sample_hasher ''P'' ''now'' sample_db)"

definition sample_pretty :: "json \<Rightarrow> byte list option" where
  "sample_pretty v = (if v = sample_report_json then Some [1] else None)"


text \<open>
  A report taken in the middle of a ledger is refused later: when further leaves of the
  anchored ledger were indexed after it was generated, \<open>verify\<close> compares it with the root after
  those leaves and prints a match only if the two roots have the same hexadecimal form.
\<close>

theorem report_within_a_ledger_is_refused:
  assumes "tree_inv h d trees" "in_i64 (anchor (mirror d pool))"
    and "generate fuel key (backend hex_encode h) pool now (d, trees) = Some (s', Inr rep)"
    and "tree_inv h d2 trees2" "history_complete d2 trees2" "hasher_ok h" "\<not> stops_corrupt 0 (leaf_query d2 pool 0)"
    and "mirror d2 pool = mirror d pool @ same @ later"
    and "\<forall>x \<in> set same. leaf_ledger x = rep_anchored_ledger rep" "\<forall>x \<in> set later. rep_anchored_ledger rep < leaf_ledger x"
    and "hex_codec_ok hex_decode hex_encode"
    and "naive_root h (leaf_nodes (mirror d pool @ same)) \<noteq> naive_root h (leaf_nodes (mirror d pool))"
  shows "\<exists>s2 fields. verify (backend hex_encode h) (report_json rep) (d2, trees2) = (s2, Inr (JObj fields))
    \<and> map_of fields ''roots_match'' = Some (JBool False)"
proof -
  note g = generate_report[OF assms(1-3)]
  have "hex0x hex_encode (naive_root h (leaf_nodes (mirror d pool @ same))) \<noteq> rep_tree_root rep"
    using assms(11,12) g by (auto simp: hex0x_def hex_codec_ok_def) (metis option.inject)
  then show ?thesis
    using verify_backend[OF assms(4-7), of "mirror d pool" same later rep hex_encode] g assms(2,8,9,10) by auto
qed

end
