(* ===== verification/Boot.thy ===== *)
theory Boot
  imports Startup TreeService RateLimits Stats
begin

text \<open>
  The API process: \<open>main\<close> of \<open>crates/attesta-api/src/main.rs\<close> up to the state it serves from, which is
  \<open>AppState\<close> of \<open>state.rs\<close>, and the request counters of \<open>telemetry.rs\<close>.  Installing the Prometheus
  recorder and binding the listener are known by their outcomes; the tasks that are spawned are
  modelled in \<open>Notes\<close> and \<open>Retention\<close>.
\<close>

section \<open>The application state\<close>

record app_state =
  as_config :: config
  as_read_buckets :: ip_buckets
  as_write_buckets :: ip_buckets
  as_sse_slots :: sse_slots
  as_trees :: trees
  as_stats_cache :: stats_cache

definition init_state :: "config \<Rightarrow> app_state" where
  "init_state c =
     (let rl = rate_limits c
      in \<lparr>as_config = c,
          as_read_buckets = new_buckets (unat (read_per_sec rl)) (unat (read_burst rl)),
          as_write_buckets = new_buckets (unat (write_per_sec rl)) (unat (write_burst rl)),
          as_sse_slots = new_slots (unat (sse_per_ip rl)) (unat (rate_limit_settings.sse_global rl)),
          as_trees = Map.empty,
          as_stats_cache = None\<rparr>)"

text \<open>
  The ways \<open>main\<close> fails before it serves.  \<open>attempt_result\<close>, \<open>migrated\<close>, \<open>recorder\<close> and \<open>bound\<close> are
  what the connection attempts, the migrations, the recorder and the listener meet; the outer
  option is the panic layer.
\<close>

datatype boot_error = BadConfig string | BadDatabase core_error | BadRecorder string | BadCors string | BadAddress string

definition boot :: "environment \<Rightarrow> (nat \<Rightarrow> sqlx_error + 'pool) \<Rightarrow> core_error option \<Rightarrow> string option \<Rightarrow> (string \<Rightarrow> bool)
    \<Rightarrow> (string \<Rightarrow> string option) \<Rightarrow> (boot_error + app_state \<times> allow_origin option) option" where
  "boot env attempt_result migrated recorder parse_origin bound =
     (case from_env env of
        Inl e \<Rightarrow> Some (Inl (BadConfig e))
      | Inr c \<Rightarrow>
          (case connect attempt_result of
             None \<Rightarrow> None
           | Some (Inl e, slept) \<Rightarrow> Some (Inl (BadDatabase e))
           | Some (Inr pool, slept) \<Rightarrow>
               (case migrated of
                  Some e \<Rightarrow> Some (Inl (BadDatabase e))
                | None \<Rightarrow>
                    (case recorder of
                       Some e \<Rightarrow> Some (Inl (BadRecorder e))
                     | None \<Rightarrow>
                         (case cors_layer parse_origin (cors_allowed_origins c) of
                            Inl e \<Rightarrow> Some (Inl (BadCors e))
                          | Inr cors \<Rightarrow>
                              (case bound (bind_addr c) of
                                 Some e \<Rightarrow> Some (Inl (BadAddress e))
                               | None \<Rightarrow> Some (Inr (init_state c, cors))))))))"

section \<open>Telemetry\<close>

text \<open>The label set of a request, and the counter: one series per label set that occurred.\<close>

definition request_labels :: "string option \<Rightarrow> string \<Rightarrow> nat \<Rightarrow> (string \<times> string) list" where
  "request_labels matched_path http_verb code =
     [(''route'', case matched_path of Some p \<Rightarrow> p | None \<Rightarrow> ''unmatched''),
      (''method'', http_verb), (''status'', show_nat code)]"

type_synonym series = "(string \<times> string) list \<Rightarrow> nat option"

definition track_requests :: "string option \<times> string \<times> nat \<Rightarrow> series \<Rightarrow> series" where
  "track_requests rq counter =
     (case rq of (matched_path, http_verb, code) \<Rightarrow>
        let labels = request_labels matched_path http_verb code
        in counter(labels \<mapsto> (case counter labels of Some n \<Rightarrow> n + 1 | None \<Rightarrow> 1)))"

definition labels_of :: "string option \<times> string \<times> nat \<Rightarrow> (string \<times> string) list" where
  "labels_of rq = request_labels (fst rq) (fst (snd rq)) (snd (snd rq))"

lemma dom_track_one: "dom (track_requests rq counter) = insert (labels_of rq) (dom counter)"
  by (cases rq) (simp add: track_requests_def labels_of_def Let_def)

lemma dom_track: "dom (fold track_requests rqs counter) = dom counter \<union> labels_of ` set rqs"
  by (induction rqs arbitrary: counter) (auto simp: dom_track_one)

text \<open>
  The number of series is bounded by the route patterns, the status codes and the methods that
  occur, whatever the URLs are.
\<close>

theorem series_are_bounded:
  assumes "set rqs \<subseteq> insert None (Some ` R) \<times> M \<times> S" "finite R" "finite M" "finite S"
  shows "card (dom (fold track_requests rqs Map.empty)) \<le> (card R + 1) * card M * card S"
proof -
  let ?P = "insert None (Some ` R)"
  have f: "finite (?P \<times> M \<times> S)" using assms(2-4) by simp
  have "card (labels_of ` set rqs) \<le> card (set rqs)" by (rule card_image_le) simp
  also have "\<dots> \<le> card (?P \<times> M \<times> S)" by (rule card_mono[OF f assms(1)])
  also have "\<dots> = (card R + 1) * card M * card S"
    using assms(2) by (simp add: card_cartesian_product card_image image_iff algebra_simps)
  finally show ?thesis by (simp add: dom_track)
qed

text \<open>
  But the method is whatever token the client sends, also for requests that match no route: \<open>n\<close>
  requests with different methods make \<open>n\<close> series, against the comment's bounded cardinality.
\<close>

theorem every_method_is_a_series:
  assumes "distinct verbs"
  shows "card (dom (fold track_requests (map (\<lambda>m. (None, m, 404)) verbs) Map.empty)) = length verbs"
proof -
  have "dom (fold track_requests (map (\<lambda>m. (None, m, 404)) verbs) Map.empty)
      = (\<lambda>m. labels_of (None, m, 404)) ` set verbs"
    by (simp add: dom_track image_image)
  moreover have "inj (\<lambda>m. labels_of (None, m, 404))" by (rule injI) (simp add: labels_of_def request_labels_def)
  ultimately show ?thesis using assms by (simp add: card_image inj_on_subset distinct_card)
qed

section \<open>A process starts well formed\<close>

text \<open>
  Start-up never panics; if it gets as far as serving, the state is the initial one of the
  configuration in the environment, and every component's invariant holds of it, with the limits
  in the range the limiter's properties ask for.
\<close>

theorem boot_starts_well_formed:
  "case boot env attempt_result migrated recorder parse_origin bound of
     None \<Rightarrow> False
   | Some (Inl e) \<Rightarrow> True
   | Some (Inr (st, cors)) \<Rightarrow>
       from_env env = Inr (as_config st) \<and> buckets_ok (as_read_buckets st) \<and> buckets_ok (as_write_buckets st)
       \<and> sse_inv \<lparr>slots = as_sse_slots st, conns = []\<rparr> \<and> cache_ok h d (as_trees st)
       \<and> stats_lookup ttl (as_stats_cache st) now = None"
proof -
  have never: "connect attempt_result \<noteq> None"
    using connect_loop_ends[of 1 10 attempt_result "[]"] connect_start[of attempt_result]
    unfolding CONNECT_MAX_ATTEMPTS_def append_Nil by auto
  have "buckets_ok (as_read_buckets (init_state c))" "buckets_ok (as_write_buckets (init_state c))"
    "sse_inv \<lparr>slots = as_sse_slots (init_state c), conns = []\<rparr>" "cache_ok h d (as_trees (init_state c))"
    "as_config (init_state c) = c" "stats_lookup ttl (as_stats_cache (init_state c)) now = None" for c
    using sse_inv_init[of "unat (sse_per_ip (rate_limits c))" "unat (rate_limit_settings.sse_global (rate_limits c))" "[]"]
      unat_u32
    by (simp_all add: init_state_def Let_def buckets_ok_new cache_ok_empty sse_init_def stats_lookup_def)
  with never show ?thesis
    by (auto simp: boot_def split: option.splits sum.splits)
qed

end
