(* ===== verification/System.thy ===== *)
theory System
  imports Ingest Retention
begin

text \<open>
  The programs together: what holds of the database and of the API's tree cache under everything
  that writes them.
\<close>

section \<open>Steps\<close>

text \<open>
  The database and, for every replica \<open>i\<close> of the API, its tree cache and the tree request that
  holds the cache's lock, if one stands between its SELECT and its INSERT with root rows to
  persist.  They change under everything that writes them: the indexer's events and cursors, the
  statements of the tree requests, the INSERT of a delivery, the UPDATE of a claim, the DELETEs of
  the retention sweeper, and restarts of a replica.  A tree request can also end in the middle, when its client
  disconnects and the server drops it.  One step is one indexed event or one statement; any number
  of indexers, API replicas and sweepers is any sequence of steps.
\<close>

record system =
  sys_db :: db
  sys_trees :: "nat \<Rightarrow> trees"
  sys_pending :: "nat \<Rightarrow> (string \<times> pool_tree \<times> root_entry list) option"

definition initial_system :: system where
  "initial_system = \<lparr>sys_db = empty_db, sys_trees = (\<lambda>_. Map.empty), sys_pending = (\<lambda>_. None)\<rparr>"

inductive system_step :: "event_lib \<Rightarrow> tree_hasher \<Rightarrow> system \<Rightarrow> system \<Rightarrow> bool"
  for lib :: event_lib and h :: tree_hasher where
  index_event: "decode lib raw = Some ev \<Longrightarrow> system_step lib h s
     (s\<lparr>sys_db := fst (store_event calls contract ledger tx ev (sys_db s))\<rparr>)"
| index_cursor: "system_step lib h s (s\<lparr>sys_db := save_cursor now contract l c (sys_db s)\<rparr>)"
| tree_select: "sys_pending s i = None \<Longrightarrow> sync_select h call pool (sys_db s) (sys_trees s i) = Some (trees', res) \<Longrightarrow>
     system_step lib h s (s\<lparr>sys_trees := (sys_trees s)(i := trees'),
       sys_pending := (sys_pending s)(i := case res of Inl e \<Rightarrow> None | Inr synced \<Rightarrow> Some (pool, synced))\<rparr>)"
| tree_insert: "sys_pending s i = Some (pool, synced) \<Longrightarrow>
     system_step lib h s (s\<lparr>sys_db := fst (sync_insert call pool synced (sys_db s)),
       sys_pending := (sys_pending s)(i := None)\<rparr>)"
| tree_drop: "system_step lib h s (s\<lparr>sys_pending := (sys_pending s)(i := None)\<rparr>)"
| deliver: "system_step lib h s (s\<lparr>sys_db := fst (deliver_insert call now uuid req chk (sys_db s))\<rparr>)"
| claim: "system_step lib h s (s\<lparr>sys_db := fst (claim_update call now did (sys_db s))\<rparr>)"
| sweep: "delete_batch e predicate days (sys_db s) = Inr (d', n) \<Longrightarrow> system_step lib h s (s\<lparr>sys_db := d'\<rparr>)"
| restart: "system_step lib h s
     (s\<lparr>sys_trees := (sys_trees s)(i := Map.empty), sys_pending := (sys_pending s)(i := None)\<rparr>)"

definition pending_ok :: "tree_hasher \<Rightarrow> system \<Rightarrow> bool" where
  "pending_ok h s \<longleftrightarrow> (\<forall>i pool pt es. sys_pending s i = Some (pool, pt, es) \<longrightarrow> entries_ok h (sys_db s) pool es)"

definition system_ok :: "tree_hasher \<Rightarrow> system \<Rightarrow> bool" where
  "system_ok h s \<longleftrightarrow> tables_ok (sys_db s) \<and> mailbox_ok (sys_db s)
     \<and> (\<forall>i. tree_inv h (sys_db s) (sys_trees s i)) \<and> pending_ok h s"

text \<open>What a step keeps of the mirrored leaves.\<close>

definition leaves_grow :: "system \<Rightarrow> system \<Rightarrow> bool" where
  "leaves_grow s s' \<longleftrightarrow> (\<forall>pool. \<exists>more. mirror (sys_db s') pool = mirror (sys_db s) pool @ more)"

lemma leaves_grow_refl [simp]: "leaves_grow s s"
  by (simp add: leaves_grow_def)

lemma leaves_grow_trans: "leaves_grow s s' \<Longrightarrow> leaves_grow s' s'' \<Longrightarrow> leaves_grow s s''"
  unfolding leaves_grow_def by (metis append_assoc)

text \<open>The API changes other columns than the indexer does.\<close>

lemma tables_ok_api [simp]:
  "tables_ok (d\<lparr>tree_roots := x\<rparr>) = tables_ok d"
  "tables_ok (d\<lparr>credential_deliveries := y\<rparr>) = tables_ok d"
  "tables_ok (d\<lparr>delivery_serial := z\<rparr>) = tables_ok d"
  by (simp_all add: tables_ok_def unique_leaves_def notes_ok_def)

lemma mailbox_ok_roots [simp]: "mailbox_ok (d\<lparr>tree_roots := x\<rparr>) = mailbox_ok d"
  by (simp add: mailbox_ok_def)

lemma mirror_mailbox [simp]:
  "mirror (d\<lparr>credential_deliveries := y\<rparr>) = mirror d" "mirror (d\<lparr>delivery_serial := z\<rparr>) = mirror d"
  by (simp_all add: mirror_def leaf_query_def fun_eq_iff)

lemma tree_inv_mailbox [simp]:
  "tree_inv h (d\<lparr>credential_deliveries := y\<rparr>) t = tree_inv h d t"
  "tree_inv h (d\<lparr>delivery_serial := z\<rparr>) t = tree_inv h d t"
  by (simp_all add: tree_inv_def unique_leaves_def unique_roots_def roots_ok_def cache_ok_def)

definition only_roots :: "db \<Rightarrow> db \<Rightarrow> bool" where
  "only_roots d d' \<longleftrightarrow> (\<exists>rs. d' = d\<lparr>tree_roots := rs\<rparr>)"

lemma only_roots_refl [simp]: "only_roots d d"
  unfolding only_roots_def by (rule exI[of _ "tree_roots d"]) simp

lemma only_roots_insert [simp]: "only_roots d (insert_roots pool es d)"
  unfolding only_roots_def insert_roots_def by blast

lemma sync_insert_db: "only_roots d (fst (sync_insert call pool synced d))"
  by (auto simp: sync_insert_def split: option.splits prod.splits)

lemma entries_ok_grows:
  assumes "entries_ok h d pool es" "mirror d' pool = mirror d pool @ extra"
  shows "entries_ok h d' pool es"
  unfolding entries_ok_def assms(2)
proof
  fix e
  assume "e \<in> set es"
  then obtain n where n: "1 \<le> n" "n \<le> length (mirror d pool)" "e = history_entry h (mirror d pool) n"
    using assms(1) by (auto simp: entries_ok_def)
  moreover have "n - 1 < length (mirror d pool)" using n by linarith
  ultimately have "e = history_entry h (mirror d pool @ extra) n" by (simp add: history_entry_def nth_append)
  then show "\<exists>n\<ge>1. n \<le> length (mirror d pool @ extra) \<and> e = history_entry h (mirror d pool @ extra) n"
    using n by (intro exI[of _ n]) simp
qed

text \<open>What the mailbox operations touch.\<close>

definition only_mailbox :: "db \<Rightarrow> db \<Rightarrow> bool" where
  "only_mailbox d d' \<longleftrightarrow> (\<exists>rows n. d' = d\<lparr>credential_deliveries := rows, delivery_serial := n\<rparr>) \<and> (mailbox_ok d \<longrightarrow> mailbox_ok d')"

lemma only_mailboxI:
  "mailbox_ok d \<Longrightarrow> mailbox_ok d' \<Longrightarrow> d' = d\<lparr>credential_deliveries := rows, delivery_serial := n\<rparr> \<Longrightarrow> only_mailbox d d'"
  unfolding only_mailbox_def by blast

lemma only_mailbox_refl [simp]: "only_mailbox d d"
  unfolding only_mailbox_def by (intro conjI exI[of _ "credential_deliveries d"] exI[of _ "delivery_serial d"]) simp_all

lemma only_mailbox_rows:
  assumes "mailbox_ok d \<Longrightarrow> mailbox_ok (d\<lparr>credential_deliveries := rows\<rparr>)"
  shows "only_mailbox d (d\<lparr>credential_deliveries := rows\<rparr>)"
  unfolding only_mailbox_def
  using assms by (intro conjI exI[of _ rows] exI[of _ "delivery_serial d"]) simp_all

lemma insert_delivery_only: "insert_delivery r d = Inr d' \<Longrightarrow> only_mailbox d d'"
  unfolding only_mailbox_def using insert_delivery_ok(1)[of d r d']
  by (auto simp: insert_delivery_def split: if_splits)

lemma deliver_only: "only_mailbox d (fst (deliver_insert call now uuid req chk d))"
  unfolding deliver_insert_def
  by (auto split: option.splits sum.splits intro: insert_delivery_only)

lemma claim_only: "only_mailbox d (fst (claim_update call now did d))"
proof (cases call)
  case None
  have "mailbox_ok (d\<lparr>credential_deliveries :=
      update_where (open_claim did) (\<lambda>r. r\<lparr>d_claimed_at := Some now\<rparr>) (credential_deliveries d)\<rparr>)" if "mailbox_ok d"
  proof -
    define f where "f = (\<lambda>r. if open_claim did r then r\<lparr>d_claimed_at := Some now\<rparr> else r)"
    have f: "d_delivery_id \<circ> f = d_delivery_id" "d_seq \<circ> f = d_seq" by (auto simp: f_def)
    then have "d_seq (f r) = d_seq r" for r by (metis comp_apply)
    with f show ?thesis
      using that unfolding update_where_def f_def[symmetric] by (simp add: mailbox_ok_def unique_key_def)
  qed
  with None show ?thesis by (simp add: claim_update_def only_mailbox_rows)
qed (simp add: claim_update_def)

lemma sweep_only: "delete_batch e predicate days d = Inr (d', n) \<Longrightarrow> only_mailbox d d'"
  by (auto simp: delete_batch_def Let_def mailbox_ok_def unique_key_filter split: option.splits sum.splits
      intro!: only_mailbox_rows)

section \<open>The system invariant\<close>

lemma step_ok_mailbox:
  assumes "system_ok h s" "only_mailbox (sys_db s) d'"
  shows "system_ok h (s\<lparr>sys_db := d'\<rparr>) \<and> leaves_grow s (s\<lparr>sys_db := d'\<rparr>)"
  using assms by (auto simp: system_ok_def only_mailbox_def leaves_grow_def pending_ok_def entries_ok_def)

lemma step_ok_index:
  assumes "system_ok h s" "run_keeps (sys_db s) d'" "mailbox_ok d'"
  shows "system_ok h (s\<lparr>sys_db := d'\<rparr>) \<and> leaves_grow s (s\<lparr>sys_db := d'\<rparr>)"
proof -
  have d': "tables_ok d'" "db_grows (sys_db s) d'" using assms by (auto simp: system_ok_def run_keeps_def)
  then have u: "unique_leaves d'" by (simp add: tables_ok_def)
  note grows = mirror_grows[OF d'(2) u]
  have "pending_ok h (s\<lparr>sys_db := d'\<rparr>)"
    using assms(1) grows entries_ok_grows unfolding pending_ok_def system_ok_def by simp metis
  then show ?thesis
    using assms(1,3) d'(1) tree_inv_grows[OF _ d'(2) u] grows
    by (auto simp: system_ok_def leaves_grow_def)
qed

lemma step_ok_select:
  assumes "system_ok h s" "sync_select h call pool (sys_db s) (sys_trees s i) = Some (trees', res)"
  shows "system_ok h (s\<lparr>sys_trees := (sys_trees s)(i := trees'),
       sys_pending := (sys_pending s)(i := case res of Inl e \<Rightarrow> None | Inr synced \<Rightarrow> Some (pool, synced))\<rparr>)"
proof -
  have "tree_inv h (sys_db s) (sys_trees s i)" using assms(1) by (simp add: system_ok_def)
  then have "tree_inv h (sys_db s) trees'" "res = Inr (pt, es) \<Longrightarrow> entries_ok h (sys_db s) pool es" for pt es
    using sync_selectE[of h "sys_db s" "sys_trees s i" call pool] assms(2) by (metis option.inject prod.inject)+
  then show ?thesis
    using assms(1) by (auto simp: system_ok_def pending_ok_def split: sum.splits if_splits)
qed

lemma step_ok_insert:
  assumes "system_ok h s" "sys_pending s i = Some (pool, synced)"
  shows "system_ok h (s\<lparr>sys_db := fst (sync_insert call pool synced (sys_db s)), sys_pending := (sys_pending s)(i := None)\<rparr>)
    \<and> mirror (fst (sync_insert call pool synced (sys_db s))) = mirror (sys_db s)"
proof -
  obtain pt es where s: "synced = (pt, es)" by (cases synced)
  have e: "entries_ok h (sys_db s) pool es" using assms s by (auto simp: system_ok_def pending_ok_def)
  have db: "fst (sync_insert call pool synced (sys_db s)) \<in> {sys_db s, insert_roots pool es (sys_db s)}"
    by (auto simp: sync_insert_def s split: option.splits)
  define d' where "d' = fst (sync_insert call pool synced (sys_db s))"
  have same: "mirror d' = mirror (sys_db s)" using db by (auto simp: d'_def)
  have "tree_inv h d' t" if "tree_inv h (sys_db s) t" for t
    using db that tree_inv_insert_roots[OF that e] by (auto simp: d'_def)
  moreover have "only_roots (sys_db s) d'" unfolding d'_def by (rule sync_insert_db)
  ultimately have "system_ok h (s\<lparr>sys_db := d', sys_pending := (sys_pending s)(i := None)\<rparr>)"
    using assms(1) same by (auto simp: system_ok_def only_roots_def pending_ok_def entries_ok_def)
  with same show ?thesis by (simp add: d'_def)
qed

lemma index_mailbox:
  "credential_deliveries (fst (store_event calls contract ledger tx ev d)) = credential_deliveries d"
  "delivery_serial (fst (store_event calls contract ledger tx ev d)) = delivery_serial d"
  by (cases "(calls, contract, ledger, tx, ev, d)" rule: store_event.cases;
      auto simp: add_pool_total_def Let_def exec_stmt_def insert_commitment_def insert_nullifier_def insert_note_def
        upsert_issuer_def split: option.splits prod.splits sum.splits)+

lemma system_step_ok:
  assumes "lib_ok lib" "system_step lib h s s'" "system_ok h s"
  shows "system_ok h s' \<and> leaves_grow s s'"
  using assms(2,3)
proof (induction rule: system_step.induct)
  case (index_event raw ev s calls contract ledger tx)
  have "run_keeps (sys_db s) (fst (store_event calls contract ledger tx ev (sys_db s)))"
    by (rule store_event_keeps) (rule decode_event_ok[OF assms(1) index_event(1)])
  then show ?case
    by (rule step_ok_index[OF index_event(2)])
       (use index_event(2) in \<open>simp add: system_ok_def mailbox_ok_def index_mailbox\<close>)
next
  case (index_cursor s now contract l c)
  show ?case
    by (rule step_ok_index[OF index_cursor])
       (use index_cursor keeps_cursor[of now contract l c "sys_db s"] in
         \<open>simp_all add: system_ok_def keeps_def run_keeps_def mailbox_ok_def save_cursor_def\<close>)
next
  case (tree_select s i call pool trees' res)
  then show ?case using step_ok_select by (simp add: leaves_grow_def)
next
  case (tree_insert s i pool synced call)
  then show ?case using step_ok_insert[of h s i pool synced call] by (simp add: leaves_grow_def)
next
  case (tree_drop s i)
  then show ?case by (auto simp: system_ok_def pending_ok_def leaves_grow_def)
next
  case (restart s i)
  then show ?case by (auto simp: system_ok_def tree_inv_def cache_ok_empty leaves_grow_def pending_ok_def)
next
  case (deliver s call now uuid req chk)
  show ?case by (rule step_ok_mailbox[OF deliver deliver_only])
next
  case (claim s call now did)
  show ?case by (rule step_ok_mailbox[OF claim claim_only])
next
  case (sweep e predicate days s d' n)
  show ?case by (rule step_ok_mailbox[OF sweep(2) sweep_only[OF sweep(1)]])
qed

interpretation system: step_invariant "system_step lib h" "\<lambda>s. lib_ok lib \<and> system_ok h s" leaves_grow for lib h
  by unfold_locales (use leaves_grow_trans system_step_ok in \<open>auto\<close>)

lemma initial_ok: "system_ok h initial_system"
proof -
  have "tree_inv h empty_db Map.empty"
    by (simp add: tree_inv_def cache_ok_empty unique_leaves_def unique_roots_def roots_ok_def empty_db_def)
  then show ?thesis by (simp add: system_ok_def initial_system_def pending_ok_def wf_intros)
qed

section \<open>Whole requests\<close>

text \<open>
  The handlers of the components, which run their statements without a pause, are runs of the
  steps: what holds under all interleavings holds of them.
\<close>

abbreviation leads_to :: "event_lib \<Rightarrow> tree_hasher \<Rightarrow> nat \<Rightarrow> system \<Rightarrow> db \<Rightarrow> trees \<Rightarrow> bool" where
  "leads_to lib h i s d' trees' \<equiv> reachable (system_step lib h) s (s\<lparr>sys_db := d', sys_trees := (sys_trees s)(i := trees')\<rparr>)"

lemma one_step: "system_step lib h s s' \<Longrightarrow> reachable (system_step lib h) s s'"
  by (rule reachable.next_step[where step = "system_step lib h"]) (rule reachable.start)

lemma no_step: "leads_to lib h i s (sys_db s) (sys_trees s i)"
  using reachable.start[of "system_step lib h" s] by simp

lemma sync_pool_tree_run:
  assumes "sys_pending s i = None" "sync_pool_tree h c1 c2 pool (sys_db s) (sys_trees s i) = Some (d', trees', r)"
  shows "leads_to lib h i s d' trees'"
proof -
  obtain res where sel: "sync_select h c1 pool (sys_db s) (sys_trees s i) = Some (trees', res)"
    and ins: "case res of Inl e \<Rightarrow> d' = sys_db s | Inr synced \<Rightarrow> d' = fst (sync_insert c2 pool synced (sys_db s))"
    using assms(2) by (auto simp: sync_pool_tree_def split: bind_splits sum.splits prod.splits)
  have p: "(sys_pending s)(i := None) = sys_pending s" using assms(1) by auto
  note select = system_step.tree_select[of s i h c1 pool trees' res lib, OF assms(1) sel]
  show ?thesis
  proof (cases res)
    case (Inl e)
    have "s\<lparr>sys_trees := (sys_trees s)(i := trees'), sys_pending := sys_pending s\<rparr>
        = s\<lparr>sys_db := d', sys_trees := (sys_trees s)(i := trees')\<rparr>" using Inl ins by simp
    then show ?thesis using one_step[OF select] p by (simp add: Inl)
  next
    case (Inr synced)
    let ?s = "s\<lparr>sys_trees := (sys_trees s)(i := trees'), sys_pending := (sys_pending s)(i := Some (pool, synced))\<rparr>"
    let ?s' = "?s\<lparr>sys_db := fst (sync_insert c2 pool synced (sys_db ?s)), sys_pending := (sys_pending ?s)(i := None)\<rparr>"
    have "reachable (system_step lib h) s ?s" using one_step[OF select] by (simp only: Inr sum.case)
    moreover have "system_step lib h ?s ?s'" by (rule system_step.tree_insert) simp
    ultimately have "reachable (system_step lib h) s ?s'" by (rule reachable.next_step)
    moreover have "?s' = s\<lparr>sys_db := d', sys_trees := (sys_trees s)(i := trees')\<rparr>"
      using Inr ins p by simp
    ultimately show ?thesis by simp
  qed
qed

lemma get_path_run:
  assumes "sys_pending s i = None"
    and "get_path hex_decode hex_encode h c1 c2 pool q (sys_db s) (sys_trees s i) = Some (d', trees', resp)"
  shows "leads_to lib h i s d' trees'"
  using assms(2) no_step[of lib h s i]
  by (auto simp: get_path_def split: sum.splits option.splits bind_splits prod.splits intro: sync_pool_tree_run[OF assms(1)])

lemma get_root_run:
  assumes "sys_pending s i = None"
    and "get_root hex_encode h c1 c2 c3 pool q (sys_db s) (sys_trees s i) = Some (d', trees', resp)"
  shows "leads_to lib h i s d' trees'"
  using assms(2) no_step[of lib h s i]
  by (auto simp: get_root_def Let_def split: sum.splits option.splits bind_splits prod.splits if_splits
      intro: sync_pool_tree_run[OF assms(1)])

lemma db_step: "system_step lib h s (s\<lparr>sys_db := d'\<rparr>) \<Longrightarrow> leads_to lib h i s d' (sys_trees s i)"
  using one_step[of lib h s] by simp

lemma deliver_run: "leads_to lib h i s (fst (deliver_credential b64_decode quota calls clocks uuid req (sys_db s))) (sys_trees s i)"
  using no_step[of lib h s i] db_step[OF system_step.deliver]
  by (simp add: deliver_credential_def split: sum.splits)

lemma claim_run: "leads_to lib h i s (fst (claim_delivery b64_decode sha calls now did tok (sys_db s))) (sys_trees s i)"
  using no_step[of lib h s i] db_step[OF system_step.claim]
  by (simp add: claim_delivery_def split: sum.splits)

section \<open>Proving membership\<close>

lemma clean_rows: "\<forall>(i, b, l) \<in> set rows. length b = 32 \<Longrightarrow> \<not> stops_corrupt k rows"
  by (induction k rows rule: stops_corrupt.induct) auto

lemma clean_leaves: "tables_ok d \<Longrightarrow> \<not> stops_corrupt k (leaf_query d pool n)"
  by (rule clean_rows) (auto simp: leaf_query_def tables_ok_def)

lemma leaf_index_unique:
  assumes "tables_ok d" "i < length (mirror d pool)" "j < length (mirror d pool)"
    and "leaf_nodes (mirror d pool) ! i = leaf_nodes (mirror d pool) ! j"
  shows "i = j"
proof -
  obtain r where r: "r \<in> set (commitments d)" "c_pool r = pool" "c_leaf_index r = int i"
      "mirror d pool ! i = (int i, c_commitment r, c_ledger r)"
    using mirror_from_db[OF assms(2)] by blast
  obtain r' where r': "r' \<in> set (commitments d)" "c_pool r' = pool" "c_leaf_index r' = int j"
      "mirror d pool ! j = (int j, c_commitment r', c_ledger r')"
    using mirror_from_db[OF assms(3)] by blast
  have "c_commitment r = c_commitment r'" using assms(2-4) r(4) r'(4) by simp
  then have "r = r'"
    using unique_key_eq[of "\<lambda>r. (c_pool r, c_commitment r)" "commitments d" r r'] assms(1) r r' by (simp add: tables_ok_def)
  then show ?thesis using r(3) r'(3) by simp
qed

lemma index_ok_None: "index_ok m ls \<Longrightarrow> c \<in> set ls \<Longrightarrow> \<exists>i. m c = Some i"
  unfolding index_ok_def by (drule spec[of _ c]) (auto split: option.splits)

lemma get_path_of_leaf:
  assumes ok: "tables_ok d" "tree_inv h d trees" "hex_codec_ok hex_decode hex_encode"
    and i: "i < length (mirror d pool)" "i < 2 ^ TREE_DEPTH"
  shows "\<exists>d' trees' resp els root. get_path hex_decode hex_encode h None None pool
       (hex0x hex_encode (leaf_nodes (mirror d pool) ! i)) d trees = Some (d', trees', Inr resp)
     \<and> pr_leaf_index resp = int i \<and> client_path hex_decode (pr_path resp) = Some els
     \<and> hex_decode (trim_0x (pr_root resp)) = Some root \<and> length els = TREE_DEPTH
     \<and> fold_path h (leaf_nodes (mirror d pool) ! i) els = root"
proof -
  let ?ls = "leaf_nodes (mirror d pool)" and ?c = "leaf_nodes (mirror d pool) ! i"
  have "mirror d pool \<noteq> []" using i(1) by auto
  then obtain d' pt where s: "sync_pool_tree h None None pool d trees = Some (d', trees(pool \<mapsto> pt), Inr pt)"
    and pt: "pool_tree_ok h (mirror d pool) pt"
    using sync_ok[OF ok(2) _ clean_leaves[OF ok(1)]] by metis
  then have rep: "tree_repr (pt_tree pt) ?ls" and h: "hasher (pt_tree pt) = h"
    and idx: "index_ok (index_by_commitment pt) ?ls" by (simp_all add: pool_tree_ok_def)
  have il: "i < length ?ls" using i(1) by simp
  obtain j where j: "index_by_commitment pt ?c = Some j"
    using index_ok_None[OF idx] nth_mem[OF il] by blast
  have jl: "j < length (mirror d pool)" "?ls ! j = ?c" using index_okD[OF idx j] by simp_all
  have "i = j" by (rule leaf_index_unique[OF ok(1) i(1) jl(1) jl(2)[symmetric]])
  with j have j: "index_by_commitment pt ?c = Some i" by simp
  obtain a b l where m: "mirror d pool ! i = (a, b, l)" by (metis prod_cases3)
  have "(a, b, l) \<in> set (mirror d pool)" using nth_mem[OF i(1)] unfolding m .
  then have "length b = 32" by (rule mirror_bytes)
  then have "length ?c = 32" using m i(1) by simp
  then have q: "parse_node hex_decode (hex0x hex_encode ?c) = Inr ?c"
    using hex_codec_0x[OF ok(3)] by (simp add: parse_node_def hex0x_def)
  have p: "tree_path (pt_tree pt) i = Some (Some (spec_path h ?ls i TREE_DEPTH))"
    using tree_path_repr[OF rep, of i] il by (simp add: h)
  have fold: "fold_path h ?c (spec_path h ?ls i TREE_DEPTH) = tree_root (pt_tree pt)"
    using verify_spec_path[OF rep il i(2)] by (simp add: h)
  have root: "hex_decode (trim_0x (hex0x hex_encode (tree_root (pt_tree pt)))) = Some (tree_root (pt_tree pt))"
    unfolding hex0x_def by (rule hex_codec_0x[OF ok(3)])
  have len: "length (spec_path h ?ls i TREE_DEPTH) = TREE_DEPTH" by (simp add: spec_path_def)
  let ?resp = "\<lparr>pr_pool = pool, pr_leaf_index = int i, pr_root = hex0x hex_encode (tree_root (pt_tree pt)),
      pr_leaf_count = int (tree_len (pt_tree pt)), pr_anchored_ledger = anchored_ledger pt,
      pr_path = map (\<lambda>el. \<lparr>pj_sibling = hex0x hex_encode (sibling el),
                           pj_sibling_on_right = sibling_on_right el\<rparr>) (spec_path h ?ls i TREE_DEPTH)\<rparr>"
  have "get_path hex_decode hex_encode h None None pool (hex0x hex_encode ?c) d trees
      = Some (d', trees(pool \<mapsto> pt), Inr ?resp)"
    unfolding get_path_def q by (simp only: sum.case s bind.bind_lunit prod.case option.case j p)
  moreover have "pr_leaf_index ?resp = int i" "client_path hex_decode (pr_path ?resp) = Some (spec_path h ?ls i TREE_DEPTH)"
    "hex_decode (trim_0x (pr_root ?resp)) = Some (tree_root (pt_tree pt))"
    using root client_path_encode[OF ok(3)] by simp_all
  ultimately show ?thesis using len fold by blast
qed

section \<open>Properties of the system\<close>

text \<open>
  C6. The system invariant: from an empty database and empty caches, under every interleaving of
  indexed events, saved cursors, tree requests, deliveries, claims, sweeps and restarts, with any
  statement failing at any time, the tables of the indexer, the mailbox, and the tree cache of every
  replica with the root history are well formed.
\<close>

theorem system_invariant:
  assumes "lib_ok lib" "reachable (system_step lib h) initial_system s"
  shows "tables_ok (sys_db s) \<and> mailbox_ok (sys_db s) \<and> (\<forall>i. tree_inv h (sys_db s) (sys_trees s i))"
  using system.reachable_ok[OF assms(2)] assms(1) initial_ok by (simp add: system_ok_def)

text \<open>The witnesses: one commitment is indexed, then the API restarts.\<close>

definition commit_lib :: event_lib where
  "commit_lib = sample_lib\<lparr>xdr_base64 := (\<lambda>s. if s = ''T'' then Some (ScSymbol ''new_commitment'')
     else Some (ScMap (Some [(ScSymbol ''commitment'', ScBytes (replicate 32 7)), (ScSymbol ''leaf_index'', ScU32 0)])))\<rparr>"

definition sample_system :: system where
  "sample_system = initial_system\<lparr>sys_db := fst (store_event (None, None) ''C'' 42 ''t''
     (NewCommitment (replicate 32 7) 0 None None) empty_db)\<rparr>"

lemma commit_lib_ok: "lib_ok commit_lib"
  by (simp add: lib_ok_def commit_lib_def sample_lib_def)

lemma commit_decodes: "decode commit_lib sample_raw = Some (NewCommitment (replicate 32 7) 0 None None)"
  by (simp add: decode_def event_name_def decode_new_commitment_def value_map_def int64_def
      scval_b64_def sc_readers commit_lib_def sample_raw_def)

lemma sample_system_steps: "reachable (system_step commit_lib h) initial_system sample_system"
  using one_step[OF system_step.index_event[OF commit_decodes, of h initial_system "(None, None)" "''C''" 42 "''t''"]]
  by (simp add: sample_system_def initial_system_def)

lemma sample_system_mirror: "mirror (sys_db sample_system) ''C'' = [(0, replicate 32 7, 42)]"
  by (simp add: sample_system_def initial_system_def exec_stmt_def insert_commitment_def insert_new_def empty_db_def
      mirror_def leaf_query_def select_by_def)

theorem system_invariant_witness:
  "tables_ok (sys_db sample_system) \<and> mailbox_ok (sys_db sample_system)
   \<and> (\<forall>i. tree_inv sample_hasher (sys_db sample_system) (sys_trees sample_system i))"
  by (rule system_invariant[OF commit_lib_ok sample_system_steps])

text \<open>
  C5. What is indexed stays provable: once leaf \<open>i\<close> of a pool is in the gap-free run of leaves, then
  after any further steps of the system a path request for its commitment to any replica, whose
  statements do not fail, answers with leaf index \<open>i\<close> and with a path that the client can decode and that verifies
  the commitment against the root in the same answer.
\<close>

theorem indexed_leaves_stay_provable:
  assumes "lib_ok lib" "hex_codec_ok hex_decode hex_encode"
    and "reachable (system_step lib h) initial_system s" "reachable (system_step lib h) s s'"
    and "i < length (mirror (sys_db s) pool)" "i < 2 ^ TREE_DEPTH"
  shows "\<exists>d' trees' resp els root. get_path hex_decode hex_encode h None None pool
       (hex0x hex_encode (leaf_nodes (mirror (sys_db s) pool) ! i)) (sys_db s') (sys_trees s' replica) = Some (d', trees', Inr resp)
     \<and> pr_leaf_index resp = int i \<and> client_path hex_decode (pr_path resp) = Some els
     \<and> hex_decode (trim_0x (pr_root resp)) = Some root \<and> length els = TREE_DEPTH
     \<and> fold_path h (leaf_nodes (mirror (sys_db s) pool) ! i) els = root"
proof -
  note s = system.reachable_ok[OF assms(3) conjI[OF assms(1) initial_ok]]
  note s' = system.reachable_keeps[OF assms(4) s]
  then obtain more where m: "mirror (sys_db s') pool = mirror (sys_db s) pool @ more"
    unfolding leaves_grow_def by blast
  have "leaf_nodes (mirror (sys_db s') pool) ! i = leaf_nodes (mirror (sys_db s) pool) ! i"
    "i < length (mirror (sys_db s') pool)"
    using assms(5) m by (simp_all add: nth_append)
  with get_path_of_leaf[of "sys_db s'" h "sys_trees s' replica" hex_decode hex_encode i pool] s' assms(2,6)
  show ?thesis by (simp add: system_ok_def)
qed

theorem indexed_leaves_stay_provable_witness:
  "\<exists>d' trees' resp els root. get_path sample_hex_decode sample_hex_encode sample_hasher None None ''C''
       (hex0x sample_hex_encode (replicate 32 7)) (sys_db sample_system) Map.empty = Some (d', trees', Inr resp)
     \<and> pr_leaf_index resp = 0 \<and> client_path sample_hex_decode (pr_path resp) = Some els
     \<and> sample_hex_decode (trim_0x (pr_root resp)) = Some root \<and> length els = TREE_DEPTH
     \<and> fold_path sample_hasher (replicate 32 7) els = root"
proof -
  have st: "reachable (system_step commit_lib sample_hasher) sample_system
      (sample_system\<lparr>sys_trees := (sys_trees sample_system)(3 := Map.empty), sys_pending := (sys_pending sample_system)(3 := None)\<rparr>)"
    by (rule one_step[OF system_step.restart])
  have i: "0 < length (mirror (sys_db sample_system) ''C'')" "(0 :: nat) < 2 ^ TREE_DEPTH"
    by (simp_all add: sample_system_mirror)
  from indexed_leaves_stay_provable[OF commit_lib_ok sample_hex_ok sample_system_steps st i, where replica = 3]
  show ?thesis by (simp add: sample_system_mirror)
qed

end
