(* ===== verification/Api.thy ===== *)
theory Api
  imports System Router Artifacts Stats Startup
begin

text \<open>
  The API as a whole: the handlers of \<open>crates/attesta-api/src/routes\<close> behind one dispatcher, with
  the responses that axum makes of their results, over the state they share.  Query strings,
  bodies and path segments reach a handler as the typed arguments of its extractors; codecs, the
  file system and the renderings of UUIDs and times are parameters.
\<close>

section \<open>Answers\<close>

definition delivery_json :: "(byte list \<Rightarrow> string) \<Rightarrow> (nat \<Rightarrow> string) \<Rightarrow> (int \<Rightarrow> string) \<Rightarrow> delivery_row \<Rightarrow> json" where
  "delivery_json hex_encode uuid_str rfc3339 r = JObj
     [(''seq'', JInt (d_seq r)), (''delivery_id'', JStr (uuid_str (d_delivery_id r))),
      (''issuer_id'', JStr (d_issuer_id r)), (''recipient_hint'', JStr (d_recipient_hint r)),
      (''ciphertext'', hex_bytes_serialize hex_encode (d_ciphertext r)),
      (''issuer_signature'', hex_bytes_serialize hex_encode (d_issuer_signature r)),
      (''created_at'', JStr (rfc3339 (d_created_at r)))]"

definition deliveries_page_json :: "(byte list \<Rightarrow> string) \<Rightarrow> (nat \<Rightarrow> string) \<Rightarrow> (int \<Rightarrow> string) \<Rightarrow> deliveries_page \<Rightarrow> json" where
  "deliveries_page_json hex_encode uuid_str rfc3339 p = JObj
     [(''deliveries'', JArr (map (delivery_json hex_encode uuid_str rfc3339) (dp_deliveries p))),
      (''next_cursor'', case dp_next_cursor p of None \<Rightarrow> JNull | Some c \<Rightarrow> JInt c)]"

definition issuer_json :: "(byte list \<Rightarrow> string) \<Rightarrow> issuer_row \<Rightarrow> json" where
  "issuer_json hex_encode r = JObj
     [(''issuer_id'', JStr (i_issuer_id r)), (''name'', JStr (i_name r)),
      (''public_key'', hex_bytes_serialize hex_encode (i_public_key r)),
      (''claim_types'', JArr (map JStr (i_claim_types r))), (''status'', JStr (i_status r)),
      (''registered_ledger'', JInt (i_registered_ledger r))]"

definition deliver_response_json :: "(nat \<Rightarrow> string) \<Rightarrow> nat \<Rightarrow> json" where
  "deliver_response_json uuid_str delivery_id = JObj [(''delivery_id'', JStr (uuid_str delivery_id))]"

text \<open>
  \<open>into_response\<close> of \<open>Json\<close>, of a pair with a status, of a file, and of a handler's result.  Headers
  that axum sets by itself are not listed.
\<close>

definition json_answer :: "status_code \<Rightarrow> json \<Rightarrow> response" where
  "json_answer code body = \<lparr>rs_status = code, rs_headers = [], rs_body = JsonBody body\<rparr>"

definition status_answer :: "status_code \<Rightarrow> response" where
  "status_answer code = \<lparr>rs_status = code, rs_headers = [], rs_body = NoBody\<rparr>"

definition file_answer :: "file_response \<Rightarrow> response" where
  "file_answer f = \<lparr>rs_status = fr_status f, rs_headers = fr_headers f, rs_body = RawBody (fr_body f)\<rparr>"

definition answer_of :: "('a \<Rightarrow> response) \<Rightarrow> api_error + 'a \<Rightarrow> response" where
  "answer_of f result = (case result of Inl e \<Rightarrow> api_error_response e | Inr x \<Rightarrow> f x)"

section \<open>The dispatcher\<close>

text \<open>
  The code the handlers call outside this repository; what one request meets: the outcomes of its
  statements, the database clock, the process clock, a fresh UUID, the rendered metrics; and the
  shared state.
\<close>

record 'k api_lib =
  al_hex_decode :: "string \<Rightarrow> byte list option"
  al_hex_encode :: "byte list \<Rightarrow> string"
  al_base64 :: "string \<Rightarrow> byte list option"
  al_sha256 :: "byte list \<Rightarrow> byte list"
  al_hasher :: tree_hasher
  al_fs_read :: "string \<Rightarrow> byte list option"
  al_from_slice :: "byte list \<Rightarrow> json option"
  al_uuid_str :: "nat \<Rightarrow> string"
  al_rfc3339 :: "int \<Rightarrow> string"
  al_collate :: "string \<Rightarrow> 'k"

record api_world =
  aw_calls :: "nat \<Rightarrow> db_call"
  aw_db_now :: "int \<times> int"
  aw_now :: "instant \<times> instant"
  aw_uuid :: nat
  aw_metrics :: "byte list"

record api_state =
  ap_db :: db
  ap_trees :: trees
  ap_stats_cache :: stats_cache
  ap_slots :: sse_slots

text \<open>A handler with its extracted arguments; those of \<open>stream_notes\<close> include the peer address.\<close>

datatype api_call =
    CallPath string string
  | CallRoot string root_query
  | CallNotes "int option" "string option"
  | CallDeliveries string "int option"
  | CallIssuers
  | CallStats
  | CallManifest string string
  | CallFile string string string
  | CallDeliver deliver_request
  | CallClaim nat string
  | CallLive
  | CallReady
  | CallMetrics
  | CallStream ip_addr "string option" "int option" "string option"

definition tree_answer :: "api_state \<Rightarrow> ('a \<Rightarrow> json) \<Rightarrow> (db \<times> trees \<times> (api_error + 'a)) option \<Rightarrow> (api_state \<times> response) option" where
  "tree_answer st f outcome =
     (case outcome of
        None \<Rightarrow> None
      | Some (d', trees', res) \<Rightarrow>
          Some (st\<lparr>ap_db := d', ap_trees := trees'\<rparr>, answer_of (json_answer OK \<circ> f) res))"

text \<open>\<open>None\<close> is a panic.\<close>

primrec handle :: "'k::linorder api_lib \<Rightarrow> config \<Rightarrow> api_world \<Rightarrow> api_state \<Rightarrow> api_call \<Rightarrow> (api_state \<times> response) option" where
  "handle lib cfg w st (CallPath pool commitment) =
     tree_answer st path_response_json
       (get_path (al_hex_decode lib) (al_hex_encode lib) (al_hasher lib) (aw_calls w 0) (aw_calls w 1) pool commitment
          (ap_db st) (ap_trees st))"
| "handle lib cfg w st (CallRoot pool q) =
     tree_answer st root_response_json
       (get_root (al_hex_encode lib) (al_hasher lib) (aw_calls w 0) (aw_calls w 1) (aw_calls w 2) pool q
          (ap_db st) (ap_trees st))"
| "handle lib cfg w st (CallNotes since_cursor pool) =
     Some (st, answer_of (json_answer OK \<circ> notes_page_json (al_hex_encode lib))
       (list_notes since_cursor pool (aw_calls w 0) (ap_db st)))"
| "handle lib cfg w st (CallDeliveries hint since_cursor) =
     Some (st, answer_of (json_answer OK \<circ> deliveries_page_json (al_hex_encode lib) (al_uuid_str lib) (al_rfc3339 lib))
       (list_deliveries hint since_cursor (aw_calls w 0) (ap_db st)))"
| "handle lib cfg w st CallIssuers =
     Some (st, answer_of (\<lambda>rows. json_answer OK (JArr (map (issuer_json (al_hex_encode lib)) rows)))
       (list_issuers (al_collate lib) (aw_calls w 0) (ap_db st)))"
| "handle lib cfg w st CallStats =
     (case get_stats (al_collate lib) (stats_cache_ttl_secs cfg) (fst (aw_now w)) (\<lambda>k. (aw_calls w k, ap_db st))
             (snd (aw_now w)) (ap_stats_cache st) of
        (cache, res) \<Rightarrow> Some (st\<lparr>ap_stats_cache := cache\<rparr>, answer_of (\<lambda>r. r) res))"
| "handle lib cfg w st (CallManifest circuit version) =
     Some (st, answer_of (json_answer OK)
       (get_manifest (al_fs_read lib) (al_from_slice lib) (artifacts_dir cfg) circuit version))"
| "handle lib cfg w st (CallFile circuit version file) =
     Some (st, answer_of file_answer
       (get_file (al_fs_read lib) (al_sha256 lib) (al_hex_encode lib) (artifacts_dir cfg) circuit version file))"
| "handle lib cfg w st (CallDeliver req) =
     (case deliver_credential (al_base64 lib) (unat (issuer_deliveries_per_hour (rate_limits cfg)))
             (aw_calls w 0, aw_calls w 1, aw_calls w 2) (aw_db_now w) (aw_uuid w) req (ap_db st) of
        (d', res) \<Rightarrow> Some (st\<lparr>ap_db := d'\<rparr>,
          answer_of (\<lambda>(code, did). json_answer code (deliver_response_json (al_uuid_str lib) did)) res))"
| "handle lib cfg w st (CallClaim did claim_token) =
     (case claim_delivery (al_base64 lib) (al_sha256 lib) (aw_calls w 0, aw_calls w 1) (fst (aw_db_now w)) did claim_token
             (ap_db st) of
        (d', res) \<Rightarrow> Some (st\<lparr>ap_db := d'\<rparr>, answer_of status_answer res))"
| "handle lib cfg w st CallLive = Some (st, json_answer OK health_live)"
| "handle lib cfg w st CallReady =
     (case health_ready (aw_calls w 0) (aw_calls w 1) (ready_max_indexer_staleness_secs cfg) (fst (aw_db_now w)) (ap_db st) of
        (code, body) \<Rightarrow> Some (st, json_answer code body))"
| "handle lib cfg w st CallMetrics = Some (st, \<lparr>rs_status = OK, rs_headers = [], rs_body = RawBody (aw_metrics w)\<rparr>)"
| "handle lib cfg w st (CallStream ip last_event_id since_cursor pool) =
     (case stream_notes (al_hex_encode lib) ip last_event_id since_cursor pool (aw_calls w 0) (ap_db st) (ap_slots st) of
        (sl', res) \<Rightarrow> Some (st\<lparr>ap_slots := sl'\<rparr>,
          case res of Inl r \<Rightarrow> r | Inr _ \<Rightarrow> \<lparr>rs_status = OK, rs_headers = [], rs_body = EventStream\<rparr>))"

section \<open>Behind the router\<close>

text \<open>
  The handler that the router runs for an endpoint.  Its extractors, which are axum's, either
  refuse the request or yield the call; \<open>serves\<close> says which calls an endpoint can lead to.  The
  state is \<open>None\<close> after a panic.
\<close>

primrec serves :: "endpoint \<Rightarrow> api_call \<Rightarrow> bool" where
  "serves e (CallPath pool c) = (e = GetPath pool)"
| "serves e (CallRoot pool q) = (e = GetRoot pool)"
| "serves e (CallNotes c p) = (e = ListNotes)"
| "serves e (CallDeliveries hint c) = (e = ListDeliveries)"
| "serves e CallIssuers = (e = ListIssuers)"
| "serves e CallStats = (e = GetStats)"
| "serves e (CallManifest c v) = (e = GetManifest c v)"
| "serves e (CallFile c v f) = (e = GetFile c v f)"
| "serves e (CallDeliver req) = (e = DeliverCredential)"
| "serves e (CallClaim did tok) = (case e of ClaimDelivery s \<Rightarrow> True | _ \<Rightarrow> False)"
| "serves e CallLive = (e = HealthLive)"
| "serves e CallReady = (e = HealthReady)"
| "serves e CallMetrics = (e = Metrics)"
| "serves e (CallStream ip l c p) = (e = StreamNotes)"

type_synonym 'x extractor = "endpoint \<Rightarrow> 'x http_request_scheme \<Rightarrow> response + api_call"

text \<open>axum's rejections are client errors without a \<open>Retry-After\<close>.\<close>

definition extractor_ok :: "'x extractor \<Rightarrow> bool" where
  "extractor_ok extract \<longleftrightarrow> (\<forall>e rq. case extract e rq of
     Inl r \<Rightarrow> \<not> is_server_error (rs_status r) \<and> retry_after r = None
   | Inr call \<Rightarrow> serves e call)"

lemma extractor_okD:
  assumes "extractor_ok extract"
  shows "extract e rq = Inl r \<Longrightarrow> \<not> is_server_error (rs_status r) \<and> retry_after r = None"
    "extract e rq = Inr call \<Longrightarrow> serves e call"
  using assms[unfolded extractor_ok_def, rule_format, of e rq] by simp_all

definition aborted :: response where
  "aborted = \<lparr>rs_status = INTERNAL_SERVER_ERROR, rs_headers = [], rs_body = NoBody\<rparr>"

definition api_handler :: "'k::linorder api_lib \<Rightarrow> config \<Rightarrow> 'x extractor \<Rightarrow> ('x http_request_scheme \<Rightarrow> api_world)
    \<Rightarrow> endpoint \<Rightarrow> 'x http_request_scheme \<Rightarrow> api_state option \<Rightarrow> api_state option \<times> response" where
  "api_handler lib cfg extract world e rq state =
     (case state of
        None \<Rightarrow> (None, aborted)
      | Some st \<Rightarrow>
          (case extract e rq of
             Inl rejection \<Rightarrow> (Some st, rejection)
           | Inr call \<Rightarrow>
               (case handle lib cfg (world rq) st call of
                  None \<Rightarrow> (None, aborted)
                | Some (st', r) \<Rightarrow> (Some st', r))))"

section \<open>What every handler keeps\<close>

definition api_ok :: "'k api_lib \<Rightarrow> api_state \<Rightarrow> bool" where
  "api_ok lib st \<longleftrightarrow> tables_ok (ap_db st) \<and> mailbox_ok (ap_db st) \<and> tree_inv (al_hasher lib) (ap_db st) (ap_trees st)"

definition tells_nothing :: "response \<Rightarrow> bool" where
  "tells_nothing r \<longleftrightarrow> rs_body r \<in> {JsonBody (JObj [(''error'', JStr ''internal error'')]),
     JsonBody (JObj [(''status'', JStr ''unavailable''), (''failing'', JStr ''database'')]),
     JsonBody (JObj [(''status'', JStr ''unavailable''), (''failing'', JStr ''indexer_staleness'')])}"

definition opaque :: "response \<Rightarrow> bool" where
  "opaque r \<longleftrightarrow> (is_server_error (rs_status r) \<longrightarrow> tells_nothing r)"

definition opaque_error :: "api_error \<Rightarrow> bool" where
  "opaque_error e \<longleftrightarrow> (is_server_error (status e) \<longrightarrow> message e = ''internal error'')"

lemma opaque_errors [simp]:
  "opaque_error (of_sqlx e)" "opaque_error (bad_request m)" "opaque_error (not_found m)" "opaque_error (forbidden m)"
  "opaque_error (conflict m)" "opaque_error (too_many_requests m)"
  by (simp_all add: opaque_error_def api_error_defs is_server_error_def)

lemma opaque_ok [simp]: "\<not> is_server_error OK" "\<not> is_server_error CREATED" "\<not> is_server_error NO_CONTENT"
  "\<not> is_server_error TOO_MANY_REQUESTS"
  by (simp_all add: is_server_error_def)

lemma opaque_answer_of:
  assumes "\<And>e. res = Inl e \<Longrightarrow> opaque_error e" "\<And>x. res = Inr x \<Longrightarrow> \<not> is_server_error (rs_status (f x))"
  shows "opaque (answer_of f res)"
  using assms by (auto simp: opaque_def tells_nothing_def answer_of_def opaque_error_def api_error_response_def split: sum.splits)

subsection \<open>Failures\<close>

lemma parse_node_opaque: "parse_node hex_decode s = Inl e \<Longrightarrow> opaque_error e"
  by (auto simp: parse_node_def split: option.splits if_splits)

lemma top_up_opaque: "top_up rows pt es = Some (Some e, pt', es') \<Longrightarrow> opaque_error e"
proof (induction rows pt es rule: top_up.induct)
  case (2 leaf_index bytes ledger rows pt es)
  then show ?case by (cases "append_leaf (pt_tree pt) bytes") (auto split: if_splits)
qed simp

lemma sync_opaque: "sync_pool_tree h c1 c2 pool d trees = Some (d', trees', Inl e) \<Longrightarrow> opaque_error e"
  by (auto simp: sync_defs Let_def split: option.splits bind_splits prod.splits if_splits dest: top_up_opaque)

lemma get_path_opaque: "get_path hdec henc h c1 c2 pool q d trees = Some (d', trees', Inl e) \<Longrightarrow> opaque_error e"
  by (auto simp: get_path_def split: sum.splits option.splits bind_splits prod.splits dest: parse_node_opaque sync_opaque)

lemma get_root_opaque: "get_root henc h c1 c2 c3 pool q d trees = Some (d', trees', Inl e) \<Longrightarrow> opaque_error e"
  by (auto simp: get_root_def Let_def split: sum.splits option.splits bind_splits prod.splits if_splits dest: sync_opaque)

lemma tree_answer_opaque:
  "tree_answer st f outcome = Some (st', r) \<Longrightarrow> (\<And>d' trees' e. outcome = Some (d', trees', Inl e) \<Longrightarrow> opaque_error e) \<Longrightarrow> opaque r"
  by (auto simp: tree_answer_def json_answer_def split: option.splits intro!: opaque_answer_of)

lemma run_query_opaque: "run_query f q = Inl e \<Longrightarrow> opaque_error e"
  by (auto simp: run_query_def split: option.splits)

lemma and_then_Inl: "and_then r f = Inl e \<longleftrightarrow> r = Inl e \<or> (\<exists>x. r = Inr x \<and> f x = Inl e)"
  by (auto simp: and_then_def split: sum.splits)

lemma get_stats_opaque: "get_stats collate ttl now env stored_at cache = (cache', Inl e) \<Longrightarrow> opaque_error e"
  by (auto simp: get_stats_def stats_finish_def compute_stats_def and_then_Inl split: option.splits sum.splits
      dest: run_query_opaque)

lemma get_stats_fine:
  "get_stats collate ttl now env stored_at cache = (cache', Inr r) \<Longrightarrow> rs_status r = OK"
  by (auto simp: get_stats_def stats_finish_def with_cache_header_def split: option.splits sum.splits)

lemma artifact_path_opaque: "artifact_path dir c v f = Inl e \<Longrightarrow> opaque_error e"
  by (auto simp: artifact_path_def split: if_splits)

lemma deliver_opaque: "deliver_credential b64 quota calls clocks uuid req d = (d', Inl e) \<Longrightarrow> opaque_error e"
  by (auto simp: deliver_credential_def deliver_check_def deliver_insert_def decode_token_hash_def
      split: option.splits sum.splits if_splits)

lemma deliver_fine: "deliver_credential b64 quota calls clocks uuid req d = (d', Inr (code, did)) \<Longrightarrow> code = CREATED"
  by (auto simp: deliver_credential_def deliver_insert_def split: option.splits sum.splits)

lemma claim_opaque: "claim_delivery b64 sha calls now did tok d = (d', Inl e) \<Longrightarrow> opaque_error e"
  by (auto simp: claim_delivery_def claim_check_def claim_update_def split: option.splits sum.splits if_splits)

lemma claim_fine: "claim_delivery b64 sha calls now did tok d = (d', Inr code) \<Longrightarrow> code = NO_CONTENT"
  by (auto simp: claim_delivery_def claim_update_def split: option.splits sum.splits if_splits)

lemma stream_opaque: "stream_notes henc ip l c p call d sl = (sl', Inl r) \<Longrightarrow> opaque r"
  by (auto simp: stream_notes_def Let_def opaque_def tells_nothing_def api_error_response_def too_many_requests_response_def
      of_sqlx_def split: prod.splits bool.splits option.splits)

lemma ready_opaque: "health_ready c1 c2 ms now d = (code, body) \<Longrightarrow> opaque (json_answer code body)"
  by (auto simp: health_ready_def json_answer_def opaque_def tells_nothing_def split: option.splits if_splits)

lemma handle_opaque:
  assumes "handle lib cfg w st call = Some (st', r)"
  shows "opaque r"
proof (cases call)
  case (CallPath pool c)
  then show ?thesis using assms by (auto intro: tree_answer_opaque get_path_opaque)
next
  case (CallRoot pool q)
  then show ?thesis using assms by (auto intro: tree_answer_opaque get_root_opaque)
next
  case CallStats
  then show ?thesis using assms
    by (auto split: prod.splits intro!: opaque_answer_of dest: get_stats_opaque get_stats_fine)
next
  case (CallDeliver req)
  then show ?thesis using assms
    by (auto simp: json_answer_def split: prod.splits intro!: opaque_answer_of dest: deliver_opaque deliver_fine)
next
  case (CallClaim did tok)
  then show ?thesis using assms
    by (auto simp: status_answer_def split: prod.splits intro!: opaque_answer_of dest: claim_opaque claim_fine)
next
  case (CallStream ip l c p)
  then show ?thesis using assms
    by (auto simp: opaque_def[of "\<lparr>rs_status = OK, rs_headers = [], rs_body = EventStream\<rparr>"]
        split: prod.splits sum.splits dest: stream_opaque)
next
  case CallReady
  then show ?thesis using assms by (auto split: prod.splits dest: ready_opaque)
qed (use assms in \<open>auto simp: json_answer_def file_answer_def get_file_def get_manifest_def list_notes_def list_deliveries_def
    list_issuers_def Let_def opaque_def[of "\<lparr>rs_status = OK, rs_headers = hs, rs_body = b\<rparr>" for hs b]
    split: option.splits sum.splits intro!: opaque_answer_of dest: artifact_path_opaque\<close>)

subsection \<open>State\<close>

text \<open>A request that nothing interrupts is a run of the system's steps on its replica.\<close>

lemma handle_run:
  assumes "handle lib cfg w st call = Some (st', r)"
    and "sys_pending s i = None" "sys_db s = ap_db st" "sys_trees s i = ap_trees st"
  shows "leads_to evlib (al_hasher lib) i s (ap_db st') (ap_trees st')"
proof -
  note get_path_run[OF assms(2), unfolded assms(3,4), intro] get_root_run[OF assms(2), unfolded assms(3,4), intro]
  note same = no_step[of evlib "al_hasher lib" s i, unfolded assms(3,4)]
  have mail: "leads_to evlib (al_hasher lib) i s d' (ap_trees st)"
    if "deliver_credential b64 quota calls clocks uuid req (ap_db st) = (d', res)" for b64 quota calls clocks uuid req d' res
    using deliver_run[where lib = evlib and h = "al_hasher lib" and i = i and s = s and ?b64_decode = b64 and quota = quota
        and calls = calls and clocks = clocks and uuid = uuid and req = req, unfolded assms(3,4)] that by simp
  have claim: "leads_to evlib (al_hasher lib) i s d' (ap_trees st)"
    if "claim_delivery b64 sha calls now did tok (ap_db st) = (d', res)" for b64 sha calls now did tok d' res
    using claim_run[where lib = evlib and h = "al_hasher lib" and i = i and s = s and ?b64_decode = b64 and sha = sha
        and calls = calls and now = now and did = did and tok = tok, unfolded assms(3,4)] that by simp
  show ?thesis
    using assms(1) same by (cases call) (auto simp: tree_answer_def split: option.splits prod.splits dest: mail claim)
qed

lemma handle_total:
  assumes "api_ok lib st"
  shows "\<exists>st' r. handle lib cfg w st call = Some (st', r)"
proof -
  have inv: "tree_inv (al_hasher lib) (ap_db st) (ap_trees st)" using assms by (simp add: api_ok_def)
  have "\<exists>x. get_path (al_hex_decode lib) (al_hex_encode lib) (al_hasher lib) c1 c2 pool c (ap_db st) (ap_trees st) = Some x"
    for c1 c2 pool c by (rule get_pathE[OF inv]) blast
  moreover have "\<exists>x. get_root (al_hex_encode lib) (al_hasher lib) c1 c2 c3 pool q (ap_db st) (ap_trees st) = Some x"
    for c1 c2 c3 pool q by (rule get_rootE[OF inv]) blast
  ultimately show ?thesis by (cases call) (auto simp: tree_answer_def split: option.splits prod.splits)
qed

lemma handle_keeps:
  assumes "handle lib cfg w st call = Some (st', r)" "api_ok lib st"
  shows "api_ok lib st'"
proof -
  define s where "s = \<lparr>sys_db = ap_db st, sys_trees = (\<lambda>_. ap_trees st), sys_pending = (\<lambda>_. None)\<rparr>"
  have "leads_to sample_lib (al_hasher lib) 0 s (ap_db st') (ap_trees st')"
    by (rule handle_run[OF assms(1)]) (simp_all add: s_def)
  moreover have "lib_ok sample_lib \<and> system_ok (al_hasher lib) s"
    using assms(2) sample_lib_ok by (simp add: s_def api_ok_def system_ok_def pending_ok_def)
  ultimately have "system_ok (al_hasher lib) (s\<lparr>sys_db := ap_db st', sys_trees := (sys_trees s)(0 := ap_trees st')\<rparr>)"
    using system.reachable_ok by blast
  then have "tables_ok (ap_db st')" "mailbox_ok (ap_db st')" "tree_inv (al_hasher lib) (ap_db st') (((sys_trees s)(0 := ap_trees st')) 0)"
    unfolding system_ok_def by (simp_all del: fun_upd_apply)
  then show ?thesis by (simp add: api_ok_def)
qed

subsection \<open>What requests write\<close>

definition is_write :: "api_call \<Rightarrow> bool" where
  "is_write call = (case call of CallDeliver _ \<Rightarrow> True | CallClaim _ _ \<Rightarrow> True | _ \<Rightarrow> False)"

definition roots_added :: "db \<Rightarrow> db \<Rightarrow> bool" where
  "roots_added d d' \<longleftrightarrow> (\<exists>rs. d' = d\<lparr>tree_roots := rs\<rparr> \<and> set (tree_roots d) \<subseteq> set rs)"

lemma roots_added_refl [simp]: "roots_added d d"
  unfolding roots_added_def by (intro exI[of _ "tree_roots d"]) simp

lemma roots_added_insert [simp]: "roots_added d (insert_roots pool es d)"
  unfolding roots_added_def insert_roots_def
  by (rule exI[of _ "fold (\<lambda>e. insert_new same_root_slot (root_row pool e)) es (tree_roots d)"]) (simp add: fold_insert_new_set(2))

lemma sync_roots: "sync_pool_tree h c1 c2 pool d trees = Some (d', trees', res) \<Longrightarrow> roots_added d d'"
  by (auto simp: sync_defs Let_def split: option.splits bind_splits prod.splits sum.splits if_splits)

lemma get_path_roots: "get_path hdec henc h c1 c2 pool q d trees = Some (d', trees', res) \<Longrightarrow> roots_added d d'"
  by (auto simp: get_path_def split: sum.splits option.splits bind_splits prod.splits dest: sync_roots)

lemma get_root_roots: "get_root henc h c1 c2 c3 pool q d trees = Some (d', trees', res) \<Longrightarrow> roots_added d d'"
  by (auto simp: get_root_def Let_def split: sum.splits option.splits bind_splits prod.splits if_splits dest: sync_roots)

lemma handle_reads:
  "handle lib cfg w st call = Some (st', r) \<Longrightarrow> \<not> is_write call \<Longrightarrow> roots_added (ap_db st) (ap_db st')"
  by (cases call) (auto simp: is_write_def tree_answer_def split: option.splits prod.splits dest: get_path_roots get_root_roots)

lemma reads_do_not_route_to_writes:
  "route m p = Some (b, e) \<Longrightarrow> m \<noteq> POST \<Longrightarrow> serves e call \<Longrightarrow> \<not> is_write call"
  by (cases call) (auto simp: is_write_def route_def open_routes_def read_routes_def split: if_splits option.splits endpoint.splits)

lemma json_no_retry [simp]:
  "retry_after (json_answer code body) = None" "retry_after (status_answer code) = None"
  "retry_after (api_error_response e) = None"
  by (simp_all add: retry_after_def json_answer_def status_answer_def api_error_response_def)

lemma stats_no_retry: "get_stats collate ttl now env stored_at cache = (cache', Inr r) \<Longrightarrow> retry_after r = None"
  by (auto simp: get_stats_def stats_finish_def with_cache_header_def retry_after_def split: option.splits sum.splits)

lemma file_no_retry: "get_file fs sha henc dir c v f = Inr r \<Longrightarrow> retry_after (file_answer r) = None"
  by (auto simp: get_file_def file_answer_def retry_after_def split: sum.splits option.splits)

lemma handle_no_retry:
  assumes "handle lib cfg w st call = Some (st', r)" "serves e call" "e \<noteq> StreamNotes"
  shows "retry_after r = None"
  using assms
  by (cases call) (auto simp: tree_answer_def answer_of_def retry_after_def[of "\<lparr>rs_status = OK, rs_headers = [], rs_body = b\<rparr>" for b]
      split: option.splits prod.splits sum.splits dest: stats_no_retry file_no_retry)

lemma api_handler_no_retry:
  assumes "extractor_ok extract" "e \<noteq> StreamNotes"
  shows "retry_after (snd (api_handler lib cfg extract world e rq state)) = None"
proof -
  note extractor_okD[OF assms(1), of e rq]
  moreover have "retry_after aborted = None" by (simp add: aborted_def retry_after_def)
  ultimately show ?thesis
    using assms(2) by (auto simp: api_handler_def split: option.splits sum.splits dest: handle_no_retry)
qed

lemma api_handler_keeps:
  assumes "extractor_ok extract" "api_ok lib st" "route (rq_method rq) (rq_path rq) = Some (b, e)"
    and "api_handler lib cfg extract world e rq (Some st) = (state', r)"
  shows "\<exists>st'. state' = Some st' \<and> api_ok lib st' \<and> opaque r \<and> (rq_method rq \<noteq> POST \<longrightarrow> roots_added (ap_db st) (ap_db st'))"
proof (cases "extract e rq")
  case (Inl rejection)
  then have "\<not> is_server_error (rs_status rejection)"
    using extractor_okD(1)[OF assms(1)] by blast
  then show ?thesis using assms(2,4) Inl by (auto simp: api_handler_def opaque_def)
next
  case (Inr call)
  then have call: "serves e call" using extractor_okD(2)[OF assms(1)] by blast
  obtain st' r' where h: "handle lib cfg (world rq) st call = Some (st', r')" using handle_total[OF assms(2)] by blast
  then have "state' = Some st'" "r = r'" using assms(4) Inr by (simp_all add: api_handler_def)
  then show ?thesis
    using handle_keeps[OF h assms(2)] handle_opaque[OF h] handle_reads[OF h] reads_do_not_route_to_writes[OF assms(3) _ call]
    by blast
qed

lemma api_serves:
  assumes "extractor_ok extract" "api_ok lib st" "route (rq_method rq) (rq_path rq) \<noteq> None"
  shows "\<exists>app' st' r. serve (api_handler lib cfg extract world) rq (app, Some st) = ((app', Some st'), Some r)
    \<and> api_ok lib st' \<and> (is_server_error (rs_status r) \<longrightarrow> tells_nothing r)
    \<and> (rq_method rq \<noteq> POST \<longrightarrow> (\<exists>rs. ap_db st' = (ap_db st)\<lparr>tree_roots := rs\<rparr> \<and> set (tree_roots (ap_db st)) \<subseteq> set rs))"
proof -
  obtain b e where e: "route (rq_method rq) (rq_path rq) = Some (b, e)" using assms(3) by auto
  obtain state' r where h: "api_handler lib cfg extract world e rq (Some st) = (state', r)" by (metis prod.collapse)
  note k = api_handler_keeps[OF assms(1,2) e h]
  have refused: "opaque (too_many_requests_response n)" for n by (simp add: opaque_def too_many_requests_response_def)
  have limited: "\<exists>bs' st' r. limit_requests ip now (api_handler lib cfg extract world e rq) bs (Some st) = (bs', Some st', r)
      \<and> api_ok lib st' \<and> opaque r \<and> (rq_method rq \<noteq> POST \<longrightarrow> roots_added (ap_db st) (ap_db st'))" for ip now bs
    using k h assms(2) refused by (auto simp: limit_requests_def split: prod.splits sum.splits)
  show ?thesis
  proof (cases b)
    case Reads
    then show ?thesis
      using limited[of "rq_ip rq" "rq_now rq" "read_buckets app"] e by (auto simp: serve_def opaque_def roots_added_def)
  next
    case Writes
    then show ?thesis
      using limited[of "rq_ip rq" "rq_now rq" "write_buckets app"] e by (auto simp: serve_def opaque_def roots_added_def)
  next
    case Unlimited
    then show ?thesis using k h e by (auto simp: serve_def opaque_def roots_added_def)
  qed
qed

section \<open>Properties of the API\<close>

text \<open>
  C10. Every request that is routed is answered: no handler panics, whatever its statements meet,
  tables, mailbox, tree cache and root history stay well formed, a server error tells the client nothing
  but that it is one (no text of a database error), and a request other than a POST writes nothing
  but rows of the root history, which only grows.
\<close>

theorem api_serves_every_request:
  assumes "extractor_ok extract" "api_ok lib st" "route (rq_method rq) (rq_path rq) \<noteq> None"
  shows "\<exists>app' st' r. serve (api_handler lib cfg extract world) rq (app, Some st) = ((app', Some st'), Some r)
    \<and> api_ok lib st' \<and> (is_server_error (rs_status r) \<longrightarrow> tells_nothing r)
    \<and> (rq_method rq \<noteq> POST \<longrightarrow> (\<exists>rs. ap_db st' = (ap_db st)\<lparr>tree_roots := rs\<rparr> \<and> set (tree_roots (ap_db st)) \<subseteq> set rs))"
  by (rule api_serves[OF assms])


text \<open>
  The API implements the system: a request to any handler that nothing interrupts is a run of
  the system's steps on its replica, from any state in which no other tree request of the replica is under way,
  so what holds of the system under all interleavings holds of every request.
\<close>

theorem requests_refine_system:
  assumes "handle lib cfg w st call = Some (st', r)"
    and "sys_pending s i = None" "sys_db s = ap_db st" "sys_trees s i = ap_trees st"
  shows "reachable (system_step evlib (al_hasher lib)) s
    (s\<lparr>sys_db := ap_db st', sys_trees := (sys_trees s)(i := ap_trees st')\<rparr>)"
  by (rule handle_run[OF assms])

section \<open>Witnesses\<close>

primrec sample_call :: "endpoint \<Rightarrow> api_call" where
  "sample_call (GetPath pool) = CallPath pool (hex0x sample_hex_encode (replicate 32 7))"
| "sample_call (GetRoot pool) = CallRoot pool \<lparr>at_ledger = None, at_leaf_count = None\<rparr>"
| "sample_call ListNotes = CallNotes None None"
| "sample_call ListDeliveries = CallDeliveries ''h'' None"
| "sample_call ListIssuers = CallIssuers"
| "sample_call GetStats = CallStats"
| "sample_call (GetManifest c v) = CallManifest c v"
| "sample_call (GetFile c v f) = CallFile c v f"
| "sample_call DeliverCredential = CallDeliver sample_deliver"
| "sample_call (ClaimDelivery s) = CallClaim 7 ''tok''"
| "sample_call HealthLive = CallLive"
| "sample_call HealthReady = CallReady"
| "sample_call Metrics = CallMetrics"
| "sample_call StreamNotes = CallStream (V4 1) None None None"

definition sample_extract :: "'x extractor" where
  "sample_extract e rq = Inr (sample_call e)"

definition sample_api_lib :: "nat api_lib" where
  "sample_api_lib = \<lparr>al_hex_decode = sample_hex_decode, al_hex_encode = sample_hex_encode, al_base64 = (\<lambda>_. Some [1, 2]),
     al_sha256 = (\<lambda>_. [9]), al_hasher = sample_hasher, al_fs_read = (\<lambda>_. None), al_from_slice = (\<lambda>_. None),
     al_uuid_str = show_nat, al_rfc3339 = show_int, al_collate = length\<rparr>"

definition sample_world :: api_world where
  "sample_world = \<lparr>aw_calls = (\<lambda>_. None), aw_db_now = (0, 0), aw_now = (Instant 0, Instant 0), aw_uuid = 7, aw_metrics = []\<rparr>"

definition sample_api_state :: api_state where
  "sample_api_state = \<lparr>ap_db = sys_db sample_system, ap_trees = Map.empty, ap_stats_cache = None, ap_slots = new_slots 1 1\<rparr>"

lemma sample_extract_ok: "extractor_ok sample_extract"
proof -
  have "serves e (sample_call e)" for e by (cases e) simp_all
  then show ?thesis by (simp add: extractor_ok_def sample_extract_def)
qed

lemma sample_api_ok: "api_ok sample_api_lib sample_api_state"
  using system.reachable_ok[OF sample_system_steps conjI[OF commit_lib_ok initial_ok], where h = sample_hasher]
  by (simp add: api_ok_def system_ok_def sample_api_state_def sample_api_lib_def sample_system_def initial_system_def)

definition sample_get :: http_request where
  "sample_get = \<lparr>rq_method = GET, rq_path = [''v1'', ''tree'', ''C'', ''path''], rq_ip = V4 1, rq_now = Instant 2\<rparr>"

theorem api_serves_every_request_witness:
  "\<exists>app' st' r. serve (api_handler sample_api_lib sample_config sample_extract (\<lambda>_. sample_world)) sample_get
      (\<lparr>read_buckets = new_buckets 1 1, write_buckets = new_buckets 1 1\<rparr>, Some sample_api_state) = ((app', Some st'), Some r)
    \<and> api_ok sample_api_lib st' \<and> commitments (ap_db st') = commitments (sys_db sample_system)"
proof -
  have "route (rq_method sample_get) (rq_path sample_get) \<noteq> None" "rq_method sample_get \<noteq> POST"
    by (simp_all add: sample_get_def route_def open_routes_def read_routes_def)
  from api_serves_every_request[OF sample_extract_ok sample_api_ok this(1),
      where cfg = sample_config and world = "\<lambda>_. sample_world" and app = "\<lparr>read_buckets = new_buckets 1 1, write_buckets = new_buckets 1 1\<rparr>"]
    this(2)
  show ?thesis by (fastforce simp: sample_api_state_def)
qed


text \<open>A delivery that is accepted, on a replica of the system.\<close>

definition mail_system :: system where
  "mail_system = \<lparr>sys_db = issuer_db, sys_trees = (\<lambda>_. Map.empty), sys_pending = (\<lambda>_. None)\<rparr>"

lemma sample_delivery_answer:
  "handle sample_api_lib sample_config sample_world (sample_api_state\<lparr>ap_db := issuer_db\<rparr>) (CallDeliver sample_deliver)
    = Some (sample_api_state\<lparr>ap_db := with_delivery 7 issuer_db\<rparr>, json_answer CREATED (JObj [(''delivery_id'', JStr (show_nat 7))]))"
  by (simp add: sample_api_lib_def sample_config_def sample_world_def deliver_credential_def deliver_check_def deliver_insert_def
      with_delivery_def sample_deliver_def sample_checked_def issuer_db_def decode_token_hash_def active_issuer_def insert_delivery_def
      delivered_last_hour_def sample_issuer_def MAX_CIPHERTEXT_BYTES_def empty_db_def answer_of_def deliver_response_json_def)

theorem requests_refine_system_witness:
  "reachable (system_step commit_lib sample_hasher) mail_system
     (mail_system\<lparr>sys_db := with_delivery 7 issuer_db, sys_trees := (sys_trees mail_system)(0 := Map.empty)\<rparr>)"
proof -
  have s: "sys_pending mail_system 0 = None" "sys_db mail_system = ap_db (sample_api_state\<lparr>ap_db := issuer_db\<rparr>)"
    "sys_trees mail_system 0 = ap_trees (sample_api_state\<lparr>ap_db := issuer_db\<rparr>)"
    by (simp_all add: mail_system_def sample_api_state_def)
  from requests_refine_system[OF sample_delivery_answer s, of commit_lib] show ?thesis
    by (simp add: sample_api_lib_def sample_api_state_def)
qed

end
