(* ===== verification/Stack.thy ===== *)
theory Stack
  imports Api RequestId Boot
begin

text \<open>
  The HTTP stack of the API, from \<open>main\<close> of \<open>crates/attesta-api/src/main.rs\<close>: the router wrapped in
  the request counters, the body limit, tracing, the request ids, and the CORS layer where origins
  are configured.  Three of the layers are tower-http's and are parameters with the behaviour its
  documentation states; the others and the handlers inside are the models of this development.
\<close>

section \<open>Layers\<close>

record web_request = http_request +
  wr_verb :: string
  wr_request_id :: "string option"   \<comment> \<open>the header as a string\<close>
  wr_content_length :: "nat option"
  wr_uuid :: string                  \<comment> \<open>what \<open>Uuid::new_v4\<close> yields for it\<close>

type_synonym ('x, 's) web_service = "'x web_request_scheme \<Rightarrow> 's \<Rightarrow> 's \<times> http_response"

type_synonym ('x, 's) web_layer = "('x, 's) web_service \<Rightarrow> ('x, 's) web_service"

text \<open>A response on the wire; the stream is a body that cannot be collected.\<close>

definition body_bytes :: "(json \<Rightarrow> byte list option) \<Rightarrow> body \<Rightarrow> byte list option" where
  "body_bytes to_vec b =
     (case b of
        NoBody \<Rightarrow> Some []
      | JsonBody j \<Rightarrow> Some (case to_vec j of Some bytes \<Rightarrow> bytes | None \<Rightarrow> [])
      | RawBody bytes \<Rightarrow> Some bytes
      | EventStream \<Rightarrow> None)"

definition to_http :: "(json \<Rightarrow> byte list option) \<Rightarrow> response \<Rightarrow> http_response" where
  "to_http to_vec r = \<lparr>h_status = as_u16 (rs_status r), h_headers = rs_headers r, h_body = body_bytes to_vec (rs_body r)\<rparr>"

text \<open>The pattern that axum's \<open>MatchedPath\<close> reports: it depends on the path alone.\<close>

primrec path_pattern :: "endpoint \<Rightarrow> string" where
  "path_pattern (GetPath pool) = ''/v1/tree/{pool}/path''"
| "path_pattern (GetRoot pool) = ''/v1/tree/{pool}/root''"
| "path_pattern ListNotes = ''/v1/notes''"
| "path_pattern ListDeliveries = ''/v1/credentials''"
| "path_pattern ListIssuers = ''/v1/issuers''"
| "path_pattern GetStats = ''/v1/stats''"
| "path_pattern (GetManifest c v) = ''/v1/artifacts/{circuit}/{version}''"
| "path_pattern (GetFile c v f) = ''/v1/artifacts/{circuit}/{version}/{file}''"
| "path_pattern DeliverCredential = ''/v1/issuer/credentials''"
| "path_pattern (ClaimDelivery did) = ''/v1/credentials/{delivery_id}/claim''"
| "path_pattern HealthLive = ''/health''"
| "path_pattern HealthReady = ''/health/ready''"
| "path_pattern Metrics = ''/metrics''"
| "path_pattern StreamNotes = ''/v1/notes/stream''"

definition matched_path :: "string list \<Rightarrow> string option" where
  "matched_path p =
     (if p = [''health'', ''live''] then Some ''/health/live''
      else map_option path_pattern (find_route (open_routes @ read_routes @ write_routes) p))"

text \<open>The router as a service; \<open>fallback\<close> is axum's answer to a request that no route takes.\<close>

definition router_service :: "(json \<Rightarrow> byte list option) \<Rightarrow> ('x web_request_scheme \<Rightarrow> http_response)
    \<Rightarrow> (endpoint \<Rightarrow> 'x web_request_scheme \<Rightarrow> 's \<Rightarrow> 's \<times> response) \<Rightarrow> ('x, app_buckets \<times> 's) web_service" where
  "router_service to_vec fallback handler rq st =
     (case serve handler rq st of
        (st', Some r) \<Rightarrow> (st', to_http to_vec r)
      | (st', None) \<Rightarrow> (st', fallback rq))"

definition track_layer :: "('x, 's) web_service \<Rightarrow> ('x, 's \<times> series) web_service" where
  "track_layer next rq = (\<lambda>(s, counter).
     case next rq s of (s', r) \<Rightarrow>
       ((s', track_requests (matched_path (rq_path rq), wr_verb rq, h_status r) counter), r))"

definition request_id_layer :: "(byte list \<Rightarrow> json option) \<Rightarrow> (json \<Rightarrow> byte list option) \<Rightarrow> (string \<Rightarrow> string option)
    \<Rightarrow> ('x, 's) web_layer" where
  "request_id_layer from_slice to_vec header_value next rq s =
     (case next rq s of (s', r) \<Rightarrow>
        (s', attach_request_id from_slice to_vec header_value (wr_uuid rq) (wr_request_id rq) r))"

definition BODY_LIMIT :: nat where
  "BODY_LIMIT = 256 * 1024"

text \<open>\<open>layer\<close> wraps what was built before it, so the last layer is the outermost.\<close>

definition app_stack :: "(byte list \<Rightarrow> json option) \<Rightarrow> (json \<Rightarrow> byte list option) \<Rightarrow> (string \<Rightarrow> string option)
    \<Rightarrow> (nat \<Rightarrow> ('x, 's \<times> series) web_layer) \<Rightarrow> ('x, 's \<times> series) web_layer \<Rightarrow> (allow_origin \<Rightarrow> ('x, 's \<times> series) web_layer)
    \<Rightarrow> allow_origin option \<Rightarrow> ('x, 's) web_service \<Rightarrow> ('x, 's \<times> series) web_service" where
  "app_stack from_slice to_vec header_value body_limit trace cors policy router =
     (let app = request_id_layer from_slice to_vec header_value (trace (body_limit BODY_LIMIT (track_layer router)))
      in case policy of None \<Rightarrow> app | Some p \<Rightarrow> cors p app)"

section \<open>What tower-http and serde\_json document\<close>

text \<open>
  \<open>TraceLayer\<close> passes requests and responses on.  \<open>RequestBodyLimitLayer\<close> answers 413 itself when the
  declared length is above the limit and passes the request on otherwise.  \<open>CorsLayer\<close> answers
  \<open>OPTIONS\<close> requests itself; to other responses it adds headers of its own.
\<close>

definition limit_ok :: "(nat \<Rightarrow> ('x, 's) web_layer) \<Rightarrow> bool" where
  "limit_ok body_limit \<longleftrightarrow> (\<forall>n next rq s.
     case wr_content_length rq of
       Some l \<Rightarrow> if l > n then fst (body_limit n next rq s) = s \<and> h_status (snd (body_limit n next rq s)) = 413
                 else body_limit n next rq s = next rq s
     | None \<Rightarrow> body_limit n next rq s = next rq s)"

definition trace_ok :: "('x, 's) web_layer \<Rightarrow> bool" where
  "trace_ok trace \<longleftrightarrow> (\<forall>next. trace next = next)"

definition cors_ok :: "(allow_origin \<Rightarrow> ('x, 's) web_layer) \<Rightarrow> bool" where
  "cors_ok cors \<longleftrightarrow>
     (\<forall>p next rq s. wr_verb rq = ''OPTIONS'' \<longrightarrow> fst (cors p next rq s) = s)
     \<and> (\<forall>p next rq s. wr_verb rq \<noteq> ''OPTIONS'' \<longrightarrow>
        (\<exists>extra. HEADER \<notin> fst ` set extra \<and>
          cors p next rq s = (fst (next rq s), (snd (next rq s))\<lparr>h_headers := h_headers (snd (next rq s)) @ extra\<rparr>)))"

lemma limit_okD:
  assumes "limit_ok body_limit"
  shows "\<exists>l. wr_content_length rq = Some l \<and> l > n \<Longrightarrow>
      fst (body_limit n inner rq s) = s \<and> h_status (snd (body_limit n inner rq s)) = 413"
    "\<nexists>l. wr_content_length rq = Some l \<and> l > n \<Longrightarrow> body_limit n inner rq s = inner rq s"
proof -
  have "case wr_content_length rq of
       Some l \<Rightarrow> if l > n then fst (body_limit n inner rq s) = s \<and> h_status (snd (body_limit n inner rq s)) = 413
                 else body_limit n inner rq s = inner rq s
     | None \<Rightarrow> body_limit n inner rq s = inner rq s"
    using assms unfolding limit_ok_def by blast
  then show "\<exists>l. wr_content_length rq = Some l \<and> l > n \<Longrightarrow>
      fst (body_limit n inner rq s) = s \<and> h_status (snd (body_limit n inner rq s)) = 413"
    "\<nexists>l. wr_content_length rq = Some l \<and> l > n \<Longrightarrow> body_limit n inner rq s = inner rq s"
    by (auto split: option.splits if_splits)
qed

text \<open>Serializing succeeds, and the three fixed failure bodies are short and are parsed back.\<close>

definition serde_ok :: "(byte list \<Rightarrow> json option) \<Rightarrow> (json \<Rightarrow> byte list option) \<Rightarrow> bool" where
  "serde_ok from_slice to_vec \<longleftrightarrow>
     (\<forall>v. to_vec v \<noteq> None)
     \<and> (\<forall>r v bytes. tells_nothing r \<longrightarrow> rs_body r = JsonBody v \<longrightarrow> to_vec v = Some bytes \<longrightarrow>
          from_slice bytes = Some v \<and> length bytes \<le> 1024 * 1024)"

section \<open>Properties of the stack\<close>

lemma server_error_range: "is_server_error c \<longleftrightarrow> as_u16 c \<in> {500..<600}"
  by (simp add: is_server_error_def)

lemma tells_nothing_object:
  assumes "tells_nothing r"
  obtains obj where "rs_body r = JsonBody (JObj obj)" "map_of obj ''error'' \<in> {None, Some (JStr ''internal error'')}"
  using assms by (auto simp: tells_nothing_def)

lemma body_bytes_json:
  assumes "serde_ok from_slice to_vec" "tells_nothing r" "rs_body r = JsonBody v"
  shows "\<exists>bytes. body_bytes to_vec (rs_body r) = Some bytes \<and> length bytes \<le> 1024 * 1024 \<and> from_slice bytes = Some v"
proof -
  obtain bytes where b: "to_vec v = Some bytes" using assms(1) unfolding serde_ok_def by blast
  then have "from_slice bytes = Some v \<and> length bytes \<le> 1024 * 1024"
    using assms unfolding serde_ok_def by blast
  then show ?thesis using b assms(3) by (simp add: body_bytes_def)
qed

text \<open>What the request-id layer makes of a response of the API.\<close>

lemma attached:
  fixes r :: response and from_slice to_vec header_value uuid incoming
  defines "out \<equiv> attach_request_id from_slice to_vec header_value uuid incoming (to_http to_vec r)"
  assumes "header_value_ok header_value" "serde_ok from_slice to_vec" "list_all is_ascii_graphic uuid"
    and "is_server_error (rs_status r) \<longrightarrow> tells_nothing r"
  shows "filter (\<lambda>h. fst h = HEADER) (h_headers out) = [(HEADER, choose_id uuid incoming)]"
    "h_status out = as_u16 (rs_status r)"
    "is_server_error (rs_status r) \<Longrightarrow> \<exists>obj. h_body out = to_vec (JObj obj)
       \<and> map_of obj ''request_id'' = Some (JStr (choose_id uuid incoming))
       \<and> map_of obj ''error'' \<in> {None, Some (JStr ''internal error'')}"
proof -
  have tv: "to_vec v \<noteq> None" for v using assms(3) by (simp add: serde_ok_def)
  note c = every_response_is_correlated[where from_slice = from_slice and to_vec = to_vec and incoming = incoming
      and r = "to_http to_vec r", OF assms(2) tv assms(4), unfolded Let_def, folded out_def, folded choose_id_def]
  show "filter (\<lambda>h. fst h = HEADER) (h_headers out) = [(HEADER, choose_id uuid incoming)]"
    "h_status out = as_u16 (rs_status r)"
    using c by (simp_all add: to_http_def)
  assume e: "is_server_error (rs_status r)"
  obtain obj where obj: "rs_body r = JsonBody (JObj obj)" "map_of obj ''error'' \<in> {None, Some (JStr ''internal error'')}"
    using tells_nothing_object assms(5) e by blast
  obtain bytes where "h_body (to_http to_vec r) = Some bytes" "length bytes \<le> 1024 * 1024" "from_slice bytes = Some (JObj obj)"
    using body_bytes_json[OF assms(3) _ obj(1)] assms(5) e by (auto simp: to_http_def)
  moreover have "h_status (to_http to_vec r) \<in> {500..<600}" using e by (simp add: to_http_def server_error_range)
  ultimately obtain obj' where "h_body out = to_vec (JObj obj')" "map_of obj' = (map_of obj)(''request_id'' \<mapsto> JStr (choose_id uuid incoming))"
    using c by blast
  then show "\<exists>obj. h_body out = to_vec (JObj obj)
       \<and> map_of obj ''request_id'' = Some (JStr (choose_id uuid incoming))
       \<and> map_of obj ''error'' \<in> {None, Some (JStr ''internal error'')}"
    using obj(2) by (intro exI[of _ obj']) auto
qed

lemma cors_keeps_id:
  "HEADER \<notin> fst ` set extra \<Longrightarrow> filter (\<lambda>h. fst h = HEADER) extra = []"
  by (force simp: filter_empty_conv)

text \<open>The stack on a request that the CORS layer does not answer itself, from inside out.\<close>

lemma app_stack_inner:
  assumes "cors_ok cors" "policy = None \<or> wr_verb rq \<noteq> ''OPTIONS''"
    and "trace_ok trace"
    and "body_limit BODY_LIMIT (track_layer router) rq s = (s', r)"
  obtains extra where "HEADER \<notin> fst ` set extra"
    "app_stack from_slice to_vec header_value body_limit trace cors policy router rq s
      = (let out = attach_request_id from_slice to_vec header_value (wr_uuid rq) (wr_request_id rq) r
         in (s', out\<lparr>h_headers := h_headers out @ extra\<rparr>))"
proof (cases policy)
  case None
  then show thesis using assms by (intro that[of "[]"]) (simp_all add: app_stack_def request_id_layer_def trace_ok_def Let_def)
next
  case (Some p)
  let ?app = "request_id_layer from_slice to_vec header_value (body_limit BODY_LIMIT (track_layer router))"
  have app: "?app rq s = (s', attach_request_id from_slice to_vec header_value (wr_uuid rq) (wr_request_id rq) r)"
    using assms(4) by (simp add: request_id_layer_def)
  have "wr_verb rq \<noteq> ''OPTIONS''" using assms(2) Some by simp
  then obtain extra where "HEADER \<notin> fst ` set extra"
      "cors p ?app rq s = (fst (?app rq s), (snd (?app rq s))\<lparr>h_headers := h_headers (snd (?app rq s)) @ extra\<rparr>)"
    using assms(1) unfolding cors_ok_def by blast
  then show thesis using Some assms(3) by (intro that[of extra]) (simp_all add: app_stack_def trace_ok_def app Let_def)
qed

text \<open>
  One request through the whole stack, whatever the database does, unless it is a CORS preflight: exactly
  one \<open>x-request-id\<close>, the request's own if acceptable; the body of a server error is a JSON object that
  carries this id and nothing about the failure; a body declared above 256 KiB is refused with 413
  and changes no state; and the state stays well formed.
\<close>

lemma stack_answers:
  assumes "header_value_ok header_value" "serde_ok from_slice to_vec" "list_all is_ascii_graphic (wr_uuid rq)"
    and "limit_ok body_limit" "cors_ok cors" "trace_ok trace"
    and "policy = None \<or> wr_verb rq \<noteq> ''OPTIONS''"
    and "extractor_ok extract" "api_ok lib st"
  shows "\<exists>app' st' counter' out. app_stack from_slice to_vec header_value body_limit trace cors policy
      (router_service to_vec fallback (api_handler lib cfg extract world)) rq ((app, Some st), counter)
        = (((app', Some st'), counter'), out)
    \<and> api_ok lib st' \<and> filter (\<lambda>h. fst h = HEADER) (h_headers out) = [(HEADER, choose_id (wr_uuid rq) (wr_request_id rq))]
    \<and> (route (rq_method rq) (rq_path rq) \<noteq> None \<longrightarrow> h_status out \<in> {500..<600} \<longrightarrow> (\<exists>obj. h_body out = to_vec (JObj obj)
          \<and> map_of obj ''request_id'' = Some (JStr (choose_id (wr_uuid rq) (wr_request_id rq)))
          \<and> map_of obj ''error'' \<in> {None, Some (JStr ''internal error'')}))
    \<and> ((\<exists>l. wr_content_length rq = Some l \<and> l > 262144) \<longrightarrow> h_status out = 413 \<and> app' = app \<and> st' = st)"
proof -
  let ?router = "router_service to_vec fallback (api_handler lib cfg extract world)"
  let ?s = "((app, Some st), counter)" and ?id = "choose_id (wr_uuid rq) (wr_request_id rq)"
  obtain s' r where b: "body_limit BODY_LIMIT (track_layer ?router) rq ?s = (s', r)" by (metis prod.collapse)
  obtain extra where x: "HEADER \<notin> fst ` set extra"
    "app_stack from_slice to_vec header_value body_limit trace cors policy ?router rq ?s
      = (let out = attach_request_id from_slice to_vec header_value (wr_uuid rq) (wr_request_id rq) r
         in (s', out\<lparr>h_headers := h_headers out @ extra\<rparr>))"
    by (rule app_stack_inner[where trace = trace and router = ?router and rq = rq and s = ?s and body_limit = body_limit,
          OF assms(5,7,6) b]) blast
  show ?thesis
  proof (cases "\<exists>l. wr_content_length rq = Some l \<and> l > 262144")
    case True
    then have "s' = ?s" "h_status r = 413"
      using limit_okD(1)[OF assms(4), where n = BODY_LIMIT and rq = rq and inner = "track_layer ?router" and s = ?s] b
      by (auto simp: BODY_LIMIT_def)
    moreover have tv: "to_vec v \<noteq> None" for v using assms(2) by (simp add: serde_ok_def)
    note c = every_response_is_correlated[where from_slice = from_slice and to_vec = to_vec and incoming = "wr_request_id rq" and r = r,
        OF assms(1) tv assms(3)]
    ultimately show ?thesis
      unfolding x(2) using x(1) assms(9) c by (simp add: Let_def choose_id_def cors_keeps_id)
  next
    case False
    then have inner: "track_layer ?router rq ?s = (s', r)"
      using limit_okD(2)[OF assms(4), where n = BODY_LIMIT and rq = rq and inner = "track_layer ?router" and s = ?s] b
      by (auto simp: BODY_LIMIT_def)
    have tv: "to_vec v \<noteq> None" for v using assms(2) by (simp add: serde_ok_def)
    show ?thesis
    proof (cases "route (rq_method rq) (rq_path rq)")
      case None
      then have "serve (api_handler lib cfg extract world) rq (app, Some st) = ((app, Some st), None)" by (simp add: serve_def)
      with inner obtain counter' where s': "s' = ((app, Some st), counter')" "r = fallback rq"
        by (auto simp: track_layer_def router_service_def)
      note c = every_response_is_correlated[where from_slice = from_slice and to_vec = to_vec and incoming = "wr_request_id rq" and r = r,
          OF assms(1) tv assms(3)]
      show ?thesis
        unfolding x(2) s'(1) using None False x(1) assms(9) c by (simp add: Let_def choose_id_def cors_keeps_id) blast
    next
      case (Some be)
      then obtain app' st' r0 where sv: "serve (api_handler lib cfg extract world) rq (app, Some st) = ((app', Some st'), Some r0)"
        and ok: "api_ok lib st'" "is_server_error (rs_status r0) \<longrightarrow> tells_nothing r0"
        using api_serves[OF assms(8,9), of rq cfg world app] by auto
      with inner obtain counter' where s': "s' = ((app', Some st'), counter')" "r = to_http to_vec r0"
        by (auto simp: track_layer_def router_service_def)
      note a = attached[OF assms(1-3) ok(2), where incoming = "wr_request_id rq"]
      show ?thesis
        unfolding x(2) s' using False ok(1) a x(1) by (auto simp: Let_def cors_keeps_id server_error_range)
    qed
  qed
qed

text \<open>For the witnesses: a database that is down, minimal layers.\<close>

definition failing_world :: api_world where
  "failing_world = sample_world\<lparr>aw_calls := (\<lambda>_. Some (SqlxOther ''password authentication failed''))\<rparr>"

definition failure_bodies :: "json list" where
  "failure_bodies = [JObj [(''error'', JStr ''internal error'')],
     JObj [(''status'', JStr ''unavailable''), (''failing'', JStr ''database'')],
     JObj [(''status'', JStr ''unavailable''), (''failing'', JStr ''indexer_staleness'')]]"

definition code_failure :: "json \<Rightarrow> byte list option" where
  "code_failure v = Some (if v = failure_bodies ! 0 then [1] else if v = failure_bodies ! 1 then [2]
     else if v = failure_bodies ! 2 then [3] else [0])"

definition parse_failure :: "byte list \<Rightarrow> json option" where
  "parse_failure bs = (if bs = [1] then Some (failure_bodies ! 0) else if bs = [2] then Some (failure_bodies ! 1)
     else if bs = [3] then Some (failure_bodies ! 2) else None)"

definition plain_limit :: "nat \<Rightarrow> ('x, 's) web_layer" where
  "plain_limit n inner rq s =
     (case wr_content_length rq of
        Some l \<Rightarrow> if l > n then (s, \<lparr>h_status = 413, h_headers = [], h_body = Some []\<rparr>) else inner rq s
      | None \<Rightarrow> inner rq s)"

definition sample_web_request :: web_request where
  "sample_web_request = \<lparr>rq_method = GET, rq_path = [''v1'', ''tree'', ''C'', ''path''], rq_ip = V4 1, rq_now = Instant 2,
     wr_verb = ''GET'', wr_request_id = Some ''trace-7'', wr_content_length = None, wr_uuid = ''u-1''\<rparr>"

definition plain_cors :: "allow_origin \<Rightarrow> ('x, 's) web_layer" where
  "plain_cors p inner rq s =
     (if wr_verb rq = ''OPTIONS'' then (s, \<lparr>h_status = 200, h_headers = [], h_body = Some []\<rparr>) else inner rq s)"

lemma sample_layers_ok: "limit_ok plain_limit" "cors_ok plain_cors" "trace_ok (\<lambda>inner. inner)"
  by (auto simp: limit_ok_def plain_limit_def cors_ok_def plain_cors_def trace_ok_def intro!: exI[of _ "[]"] split: option.splits)

lemma sample_serde_ok: "serde_ok parse_failure code_failure"
  by (auto simp: serde_ok_def tells_nothing_def parse_failure_def code_failure_def failure_bodies_def)

end
