(* ===== verification/IndexerMain.thy ===== *)
theory IndexerMain
  imports Ingest Startup
begin

text \<open>
  The indexer process, \<open>crates/attesta-indexer/src/main.rs\<close>: configuration, the optional metrics
  listener, the database, the probe of the RPC node, and then the ingest loop over the configured
  contracts.
\<close>

section \<open>Start-up\<close>

datatype indexer_exit = NoConfig string | NoMetrics string | NoDatabase core_error

definition latest_ledger :: "string + 'a rpc_response \<Rightarrow> ingest_error + 'a" where
  "latest_ledger reply = rpc_call ''getLatestLedger'' reply"

text \<open>
  \<open>parse_addr\<close> is \<open>SocketAddr::from_str\<close> and \<open>install\<close> the outcome of installing the listener.
\<close>

definition metrics_listener :: "environment \<Rightarrow> (string \<Rightarrow> string + 'addr) \<Rightarrow> ('addr \<Rightarrow> string option) \<Rightarrow> indexer_exit option" where
  "metrics_listener env parse_addr install =
     (case env ''INDEXER_METRICS_ADDR'' of
        None \<Rightarrow> None
      | Some addr \<Rightarrow>
          (case parse_addr addr of
             Inl e \<Rightarrow> Some (NoMetrics (''invalid INDEXER_METRICS_ADDR: '' @ e))
           | Inr a \<Rightarrow> map_option NoMetrics (install a)))"

text \<open>What the process logs before it starts to ingest.\<close>

record indexer_start =
  ix_config :: config
  ix_json_logs :: bool
  ix_idle :: bool        \<comment> \<open>the warning that no contracts are configured\<close>
  ix_connected :: bool   \<comment> \<open>whether the RPC node answered the probe\<close>

definition indexer_boot :: "environment \<Rightarrow> (string \<Rightarrow> string + 'addr) \<Rightarrow> ('addr \<Rightarrow> string option)
    \<Rightarrow> (nat \<Rightarrow> sqlx_error + 'pool) \<Rightarrow> core_error option \<Rightarrow> string + 'l rpc_response
    \<Rightarrow> (indexer_exit + indexer_start) option" where
  "indexer_boot env parse_addr install attempt_result migrated probe =
     (case from_env env of
        Inl e \<Rightarrow> Some (Inl (NoConfig e))
      | Inr c \<Rightarrow>
          (case metrics_listener env parse_addr install of
             Some e \<Rightarrow> Some (Inl e)
           | None \<Rightarrow>
               (case connect attempt_result of
                  None \<Rightarrow> None
                | Some (Inl e, slept) \<Rightarrow> Some (Inl (NoDatabase e))
                | Some (Inr pool, slept) \<Rightarrow>
                    (case migrated of
                       Some e \<Rightarrow> Some (Inl (NoDatabase e))
                     | None \<Rightarrow> Some (Inr
                         \<lparr>ix_config = c, ix_json_logs = log_json env,
                          ix_idle = (pool_contract_ids c = [] \<and> registry_contract_id c = None),
                          ix_connected = (case latest_ledger probe of Inr l \<Rightarrow> True | Inl e \<Rightarrow> False)\<rparr>)))))"

text \<open>\<open>main\<close>: the start, then the rounds of \<open>ingest::run\<close>; the outer \<open>None\<close> while it still runs.\<close>

definition indexer_main :: "environment \<Rightarrow> (string \<Rightarrow> string + 'addr) \<Rightarrow> ('addr \<Rightarrow> string option)
    \<Rightarrow> (nat \<Rightarrow> sqlx_error + 'pool) \<Rightarrow> core_error option \<Rightarrow> string + 'l rpc_response
    \<Rightarrow> nat \<Rightarrow> event_lib \<Rightarrow> ((string \<Rightarrow> sync_env) \<times> bool) list \<Rightarrow> db \<Rightarrow> (indexer_exit + db) option" where
  "indexer_main env parse_addr install attempt_result migrated probe fuel lib rounds d =
     (case indexer_boot env parse_addr install attempt_result migrated probe of
        None \<Rightarrow> None
      | Some (Inl e) \<Rightarrow> Some (Inl e)
      | Some (Inr st) \<Rightarrow>
          map_option Inr (indexer_run fuel lib
            (contracts_of (pool_contract_ids (ix_config st)) (registry_contract_id (ix_config st))) rounds d))"

section \<open>What the process does\<close>

lemma idle_run: "indexer_run fuel lib [] rounds d = Some d' \<Longrightarrow> d' = d"
  by (induction rounds) (auto split: if_splits)

text \<open>
  Without configured contracts the indexer idles: it warns, and never changes the database.
\<close>

theorem unconfigured_indexer_idles:
  assumes "indexer_boot env parse_addr install attempt_result migrated probe = Some (Inr st)" "ix_idle st"
    and "indexer_main env parse_addr install attempt_result migrated probe fuel lib rounds d = Some (Inr d')"
  shows "d' = d"
proof -
  have "contracts_of (pool_contract_ids (ix_config st)) (registry_contract_id (ix_config st)) = []"
    using assms(1,2) by (auto simp: indexer_boot_def contracts_of_def split: option.splits sum.splits prod.splits)
  then show ?thesis using assms(1,3) idle_run by (auto simp: indexer_main_def split: option.splits)
qed

text \<open>
  Start-up never panics; it fails for three reasons only, of which an unreachable RPC node is
  none; and whatever the process then does keeps the tables and only adds to them.
\<close>

theorem indexer_process_is_safe:
  assumes "lib_ok lib" "tables_ok d"
  shows "indexer_boot env parse_addr install attempt_result migrated probe \<noteq> None"
    and "(\<exists>e. indexer_boot env parse_addr install attempt_result migrated probe = Some (Inl e))
       = (\<exists>e. indexer_boot env parse_addr install attempt_result migrated (Inl ''unreachable'' :: string + 'l rpc_response) = Some (Inl e))"
    and "indexer_main env parse_addr install attempt_result migrated probe fuel lib rounds d = Some (Inr d')
       \<Longrightarrow> tables_ok d' \<and> db_grows d d'"
proof -
  have never: "connect attempt_result \<noteq> None"
    using connect_loop_ends[of 1 10 attempt_result "[]"] connect_start[of attempt_result]
    unfolding CONNECT_MAX_ATTEMPTS_def append_Nil by auto
  then show "indexer_boot env parse_addr install attempt_result migrated probe \<noteq> None"
    by (auto simp: indexer_boot_def split: option.splits sum.splits)
  show "(\<exists>e. indexer_boot env parse_addr install attempt_result migrated probe = Some (Inl e))
       = (\<exists>e. indexer_boot env parse_addr install attempt_result migrated (Inl ''unreachable'' :: string + 'l rpc_response) = Some (Inl e))"
    by (auto simp: indexer_boot_def split: option.splits sum.splits)
  show "indexer_main env parse_addr install attempt_result migrated probe fuel lib rounds d = Some (Inr d')
       \<Longrightarrow> tables_ok d' \<and> db_grows d d'"
    using indexer_run_keeps[OF assms(1)] assms(2)
    by (auto simp: indexer_main_def run_keeps_def split: option.splits sum.splits)
qed

end
