(* ===== verification/Relay.thy ===== *)
theory Relay
  imports Ingest
begin

text \<open>
  The note relay from end to end: the indexer inserts notes, the fan-out task of
  \<open>crates/attesta-api/src/routes/notes.rs\<close> reads them and sends them into the broadcast channel that
  \<open>main\<close> creates, and a client follows \<open>/v1/notes/stream\<close> with the reconnections of an
  \<open>EventSource\<close>.  Every statement, send and receive is a step of its own.
\<close>

section \<open>The channel\<close>

definition CHANNEL_CAPACITY :: nat where
  "CHANNEL_CAPACITY = 1024"

text \<open>
  What a receiver of a tokio broadcast channel gets that has read up to \<open>pos\<close> of the messages sent:
  the channel keeps the newest 1024; a slower receiver is told so and goes on with the oldest kept.
\<close>

definition recv :: "note_row list \<Rightarrow> nat \<Rightarrow> (msg \<times> nat) option" where
  "recv sent pos =
     (if length sent - pos > CHANNEL_CAPACITY then Some (Lagged, length sent - CHANNEL_CAPACITY)
      else if pos < length sent then Some (Note (sent ! pos), Suc pos)
      else None)"

section \<open>Steps\<close>

text \<open>
  A client's connection: none, subscribed to the channel with the replay query still to run, or
  live with the part of the replay still to send, the cursor \<open>last_seen\<close> and the pools.
\<close>

datatype client_link = Away | Subscribed nat | Live nat "sse_event list" int "string list option"

text \<open>
  \<open>rl_last_id\<close> is \<open>None\<close> until the first query of the fan-out task has run; \<open>rl_page\<close> is what is left to
  send of the rows it has read.  The client keeps the id of the last event that had one.
\<close>

record relay =
  rl_db :: db
  rl_last_id :: "int option"
  rl_page :: "note_row list"
  rl_sent :: "note_row list"
  rl_link :: client_link
  rl_last_event :: "string option"
  rl_received :: "sse_event list"

definition relay_start :: "db \<Rightarrow> relay" where
  "relay_start d = \<lparr>rl_db = d, rl_last_id = None, rl_page = [], rl_sent = [], rl_link = Away, rl_last_event = None,
     rl_received = []\<rparr>"

definition take_event :: "sse_event \<Rightarrow> relay \<Rightarrow> relay" where
  "take_event ev s = s\<lparr>rl_received := rl_received s @ [ev],
     rl_last_event := (case ev_id ev of Some i \<Rightarrow> Some i | None \<Rightarrow> rl_last_event s)\<rparr>"

text \<open>
  The client asks for the notes of \<open>pool\<close> after \<open>since\<close>.  \<open>patient\<close> says that clients are not served before
  the first query of the fan-out task has run, which nothing in the code ensures.
\<close>

inductive relay_step :: "bool \<Rightarrow> (byte list \<Rightarrow> string) \<Rightarrow> ip_addr \<Rightarrow> int \<Rightarrow> string option \<Rightarrow> relay \<Rightarrow> relay \<Rightarrow> bool"
  for patient :: bool and hex_encode :: "byte list \<Rightarrow> string" and ip :: ip_addr and since :: int and pool :: "string option" where
  index: "relay_step patient hex_encode ip since pool s
     (s\<lparr>rl_db := fst (store_event calls contract ledger tx ev (rl_db s))\<rparr>)"
| first_query: "rl_last_id s = None \<Longrightarrow>
     relay_step patient hex_encode ip since pool s (s\<lparr>rl_last_id := Some (initial_last_id call (rl_db s))\<rparr>)"
| drain_query: "rl_last_id s = Some last_id \<Longrightarrow> rl_page s = [] \<Longrightarrow>
     relay_step patient hex_encode ip since pool s
       (s\<lparr>rl_page := query_after DRAIN_PAGE e_id (\<lambda>_. True) last_id (encrypted_notes (rl_db s))\<rparr>)"
| drain_send: "rl_last_id s = Some last_id \<Longrightarrow> rl_page s = n # ns \<Longrightarrow>
     relay_step patient hex_encode ip since pool s
       (s\<lparr>rl_page := ns, rl_last_id := Some (e_id n), rl_sent := rl_sent s @ [n]\<rparr>)"
| subscribe: "rl_link s = Away \<Longrightarrow> (patient \<longrightarrow> rl_last_id s \<noteq> None) \<Longrightarrow>
     relay_step patient hex_encode ip since pool s (s\<lparr>rl_link := Subscribed (length (rl_sent s))\<rparr>)"
| answer: "rl_link s = Subscribed pos \<Longrightarrow>
     stream_notes hex_encode ip (rl_last_event s) (Some since) pool call (rl_db s) sl = (sl', res) \<Longrightarrow>
     relay_step patient hex_encode ip since pool s (s\<lparr>rl_link :=
       (case res of Inl refused \<Rightarrow> Away | Inr (replay, last_seen, pools) \<Rightarrow> Live pos replay last_seen pools)\<rparr>)"
| replay: "rl_link s = Live pos (ev # evs) last_seen pools \<Longrightarrow>
     relay_step patient hex_encode ip since pool s ((take_event ev s)\<lparr>rl_link := Live pos evs last_seen pools\<rparr>)"
| live: "rl_link s = Live pos [] last_seen pools \<Longrightarrow> recv (rl_sent s) pos = Some (m, pos') \<Longrightarrow>
     live_step hex_encode pools last_seen m = (last_seen', out) \<Longrightarrow>
     relay_step patient hex_encode ip since pool s
       ((case out of None \<Rightarrow> s | Some ev \<Rightarrow> take_event ev s)\<lparr>rl_link := Live pos' [] last_seen' pools\<rparr>)"
| disconnect: "relay_step patient hex_encode ip since pool s (s\<lparr>rl_link := Away\<rparr>)"
| restart: "relay_step patient hex_encode ip since pool s
     (s\<lparr>rl_last_id := None, rl_page := [], rl_sent := [], rl_link := Away\<rparr>)"

section \<open>The invariant\<close>

abbreviation (input) wanted :: "int \<Rightarrow> string option \<Rightarrow> note_row \<Rightarrow> bool" where
  "wanted since pool n \<equiv> pool_in (map_option csv pool) n \<and> since < e_id n"

abbreviation ascending :: "note_row list \<Rightarrow> bool" where
  "ascending ns \<equiv> sorted_wrt (<) (map e_id ns)"

text \<open>The cursor a client has after the notes \<open>ns\<close>.\<close>

definition cursor_after :: "int \<Rightarrow> note_row list \<Rightarrow> int" where
  "cursor_after since ns = (if ns = [] then since else e_id (last ns))"

definition fan_out_ok :: "int option \<Rightarrow> note_row list \<Rightarrow> note_row list \<Rightarrow> db \<Rightarrow> bool" where
  "fan_out_ok last_id page sent d \<longleftrightarrow>
     (case last_id of
        None \<Rightarrow> page = [] \<and> sent = []
      | Some l \<Rightarrow> ascending sent \<and> (\<forall>n \<in> set sent. n \<in> set (encrypted_notes d) \<and> e_id n \<le> l) \<and> l < note_serial d
          \<and> (\<exists>k. page = take k (filter (\<lambda>n. l < e_id n) (encrypted_notes d))))"

text \<open>
  The notes \<open>ns\<close> the client has and \<open>rs\<close> it is about to get: in order, all wanted, and complete up to \<open>bound\<close>
  unless the client was told to page again.
\<close>

definition covers :: "int \<Rightarrow> string option \<Rightarrow> bool \<Rightarrow> db \<Rightarrow> note_row list \<Rightarrow> int \<Rightarrow> bool" where
  "covers since pool told d ns bound \<longleftrightarrow>
     ascending ns \<and> (\<forall>n \<in> set ns. n \<in> set (encrypted_notes d) \<and> wanted since pool n \<and> e_id n \<le> bound)
     \<and> since \<le> bound \<and> (bound = since \<or> bound < note_serial d)
     \<and> (\<not> told \<longrightarrow> ns = filter (\<lambda>n. wanted since pool n \<and> e_id n \<le> bound) (encrypted_notes d))"

text \<open>Wanted notes above \<open>last_seen\<close> are in the channel ahead of the receiver, or not sent yet.\<close>

definition still_coming :: "string option \<Rightarrow> int option \<Rightarrow> note_row list \<Rightarrow> db \<Rightarrow> nat \<Rightarrow> int \<Rightarrow> bool" where
  "still_coming pool last_id sent d pos last_seen \<longleftrightarrow>
     (\<exists>l. last_id = Some l \<and> (\<forall>n \<in> set (encrypted_notes d). pool_in (map_option csv pool) n \<and> last_seen < e_id n \<longrightarrow>
        n \<in> set (drop pos sent) \<or> l < e_id n))"

text \<open>\<open>note_event\<close> always yields an event.\<close>

definition event_of :: "(byte list \<Rightarrow> string) \<Rightarrow> note_row \<Rightarrow> sse_event" where
  "event_of hex_encode n = the (note_event hex_encode n)"

definition link_ok :: "(byte list \<Rightarrow> string) \<Rightarrow> int \<Rightarrow> string option \<Rightarrow> bool \<Rightarrow> note_row list \<Rightarrow> int option \<Rightarrow> note_row list \<Rightarrow> db
    \<Rightarrow> client_link \<Rightarrow> bool" where
  "link_ok hex_encode since pool told ns last_id sent d link =
     (case link of
        Away \<Rightarrow> True
      | Subscribed pos \<Rightarrow> pos \<le> length sent \<and> last_id \<noteq> None
      | Live pos pending last_seen pools \<Rightarrow> pos \<le> length sent \<and> last_id \<noteq> None \<and> pools = map_option csv pool
          \<and> (\<exists>rs tail. pending = map (event_of hex_encode) rs @ tail \<and> tail \<in> {[], [resync_event]}
               \<and> covers since pool told d (ns @ rs) last_seen
               \<and> (\<not> told \<and> tail = [] \<longrightarrow> still_coming pool last_id sent d pos last_seen)))"

definition client_ok :: "(byte list \<Rightarrow> string) \<Rightarrow> int \<Rightarrow> sse_event list \<Rightarrow> string option \<Rightarrow> note_row list \<Rightarrow> bool" where
  "client_ok hex_encode since received last_event ns \<longleftrightarrow>
     filter (\<lambda>e. e \<noteq> resync_event) received = map (event_of hex_encode) ns
     \<and> last_event = (if ns = [] then None else Some (show_int (e_id (last ns))))"

definition notes_table_ok :: "db \<Rightarrow> bool" where
  "notes_table_ok d \<longleftrightarrow> notes_ok d \<and> (\<forall>n \<in> set (encrypted_notes d). e_id n < note_serial d) \<and> 0 < note_serial d"

abbreviation told :: "relay \<Rightarrow> bool" where
  "told s \<equiv> resync_event \<in> set (rl_received s)"

definition relay_inv :: "(byte list \<Rightarrow> string) \<Rightarrow> int \<Rightarrow> string option \<Rightarrow> relay \<Rightarrow> note_row list \<Rightarrow> bool" where
  "relay_inv hex_encode since pool s ns \<longleftrightarrow>
     notes_table_ok (rl_db s)
     \<and> fan_out_ok (rl_last_id s) (rl_page s) (rl_sent s) (rl_db s)
     \<and> client_ok hex_encode since (rl_received s) (rl_last_event s) ns
     \<and> covers since pool (told s) (rl_db s) ns (cursor_after since ns)
     \<and> link_ok hex_encode since pool (told s) ns (rl_last_id s) (rl_sent s) (rl_db s) (rl_link s)"

subsection \<open>Ascending tables\<close>

lemma ascending_split:
  assumes "ascending (xs @ ys)" "\<forall>n \<in> set (xs @ ys). c < e_id n"
  shows "filter (\<lambda>n. e_id n \<le> cursor_after c xs) (xs @ ys) = xs"
proof (cases "xs = []")
  case True
  then show ?thesis using assms(2) by (auto simp: cursor_after_def filter_empty_conv)
next
  case False
  then obtain zs z where z: "xs = zs @ [z]" by (metis rev_exhaust)
  then have "\<forall>n \<in> set xs. e_id n \<le> e_id z" "\<forall>n \<in> set ys. e_id z < e_id n"
    using assms(1) by (auto simp: sorted_wrt_append)
  moreover have "cursor_after c xs = e_id z" using z by (simp add: cursor_after_def)
  ultimately have "filter (\<lambda>n. e_id n \<le> cursor_after c xs) xs = xs" "filter (\<lambda>n. e_id n \<le> cursor_after c xs) ys = []"
    by (auto simp: filter_id_conv filter_empty_conv)
  then show ?thesis by simp
qed

lemma ascending_filter: "ascending ns \<Longrightarrow> ascending (filter P ns)"
  by (simp add: sorted_wrt_map sorted_wrt_filter)

text \<open>The rows up to a bound, extended by the next one.\<close>

lemma filter_next:
  assumes "ascending T" "n \<in> set T" "l < e_id n"
    and "\<forall>m \<in> set T. P m \<and> l < e_id m \<and> e_id m \<le> e_id n \<longrightarrow> m = n"
  shows "filter (\<lambda>m. P m \<and> e_id m \<le> e_id n) T = filter (\<lambda>m. P m \<and> e_id m \<le> l) T @ (if P n then [n] else [])"
proof -
  obtain xs ys where T: "T = xs @ n # ys" using assms(2) by (meson split_list)
  then have x: "\<forall>m \<in> set xs. e_id m < e_id n" and y: "\<forall>m \<in> set ys. e_id n < e_id m"
    using assms(1) by (auto simp: sorted_wrt_append)
  have "filter (\<lambda>m. P m \<and> e_id m \<le> e_id n) xs = filter (\<lambda>m. P m \<and> e_id m \<le> l) xs"
    using x assms(4) T by (intro filter_cong) (auto simp: not_le)
  moreover have "filter (\<lambda>m. P m \<and> e_id m \<le> e_id n) ys = []" "filter (\<lambda>m. P m \<and> e_id m \<le> l) ys = []"
    using y assms(3) by (auto simp: filter_empty_conv)
  ultimately show ?thesis using assms(3) by (simp add: T)
qed

lemma cursor_after_append: "cursor_after c (ns @ rs) = cursor_after (cursor_after c ns) rs"
  by (simp add: cursor_after_def)

lemma cursor_after_bound:
  assumes "ascending ns" "\<forall>n \<in> set ns. c < e_id n"
  shows "c \<le> cursor_after c ns" "n \<in> set ns \<Longrightarrow> e_id n \<le> cursor_after c ns"
    "cursor_after c ns = c \<or> (\<exists>n \<in> set ns. cursor_after c ns = e_id n)"
proof -
  show "c \<le> cursor_after c ns" using assms(2) by (auto simp: cursor_after_def intro: less_imp_le)
  show "cursor_after c ns = c \<or> (\<exists>n \<in> set ns. cursor_after c ns = e_id n)" by (auto simp: cursor_after_def)
  assume n: "n \<in> set ns"
  then obtain zs z where "ns = zs @ [z]" by (metis empty_iff empty_set rev_exhaust)
  then show "e_id n \<le> cursor_after c ns" using assms(1) n by (auto simp: cursor_after_def sorted_wrt_append)
qed

subsection \<open>Coverage\<close>

lemma coversI:
  assumes "ascending ns" "\<And>n. n \<in> set ns \<Longrightarrow> n \<in> set (encrypted_notes d)" "\<And>n. n \<in> set ns \<Longrightarrow> wanted since pool n"
    and "\<And>n. n \<in> set ns \<Longrightarrow> e_id n \<le> b" "since \<le> b" "b = since \<or> b < note_serial d"
    and "\<not> t \<Longrightarrow> ns = filter (\<lambda>n. wanted since pool n \<and> e_id n \<le> b) (encrypted_notes d)"
  shows "covers since pool t d ns b"
  unfolding covers_def using assms by (intro conjI ballI impI) blast+

lemma coversD:
  assumes "covers since pool t d ns b"
  shows "ascending ns" "n \<in> set ns \<Longrightarrow> n \<in> set (encrypted_notes d)" "n \<in> set ns \<Longrightarrow> wanted since pool n"
    "n \<in> set ns \<Longrightarrow> e_id n \<le> b" "since \<le> b" "b = since \<or> b < note_serial d"
    "\<not> t \<Longrightarrow> ns = filter (\<lambda>n. wanted since pool n \<and> e_id n \<le> b) (encrypted_notes d)"
  using assms unfolding covers_def by blast+

lemma covers_prefix:
  assumes "covers since pool t d (ns @ rs) b"
  shows "covers since pool t d ns (cursor_after since ns)"
proof -
  have w: "\<forall>n \<in> set (ns @ rs). since < e_id n" "\<forall>n \<in> set ns. since < e_id n" and asc: "ascending (ns @ rs)" "ascending ns"
    using assms by (auto simp: covers_def sorted_wrt_append)
  note c = cursor_after_bound[OF asc(2), of since]
  have b: "since \<le> b" "b = since \<or> b < note_serial d" "\<forall>n \<in> set ns. e_id n \<le> b"
    using assms by (auto simp: covers_def)
  note c3 = c(3)[OF w(2)]
  have "cursor_after since ns \<le> b" using c3 b by auto
  moreover have "cursor_after since ns = since \<or> cursor_after since ns < note_serial d"
    using c3 b w(2) by (metis leD order_le_less_trans)
  moreover have "ns = filter (\<lambda>n. wanted since pool n \<and> e_id n \<le> cursor_after since ns) (encrypted_notes d)" if "\<not> t"
  proof -
    have "ns @ rs = filter (\<lambda>n. wanted since pool n \<and> e_id n \<le> b) (encrypted_notes d)"
      using assms that by (simp add: covers_def)
    then have "ns = filter (\<lambda>n. e_id n \<le> cursor_after since ns) (filter (\<lambda>n. wanted since pool n \<and> e_id n \<le> b) (encrypted_notes d))"
      using ascending_split[OF asc(1) w(1)] by simp
    also have "\<dots> = filter (\<lambda>n. wanted since pool n \<and> e_id n \<le> cursor_after since ns) (encrypted_notes d)"
      unfolding filter_filter using \<open>cursor_after since ns \<le> b\<close> by (intro filter_cong) auto
    finally show ?thesis .
  qed
  ultimately show ?thesis using assms w asc c by (auto simp: covers_def)
qed

lemma covers_told: "covers since pool t d ns b \<Longrightarrow> covers since pool True d ns b"
  by (simp add: covers_def)

lemma covers_fresh: "covers since pool t d [] (cursor_after since [])"
  by (auto simp: covers_def cursor_after_def filter_empty_conv)

text \<open>New rows have larger ids than everything that was read before.\<close>

definition rows_added :: "db \<Rightarrow> db \<Rightarrow> bool" where
  "rows_added d d' \<longleftrightarrow> note_serial d \<le> note_serial d'
     \<and> (\<exists>new. encrypted_notes d' = encrypted_notes d @ new \<and> (\<forall>n \<in> set new. note_serial d \<le> e_id n))"

lemma covers_added:
  assumes "covers since pool t d ns b" "rows_added d d'"
  shows "covers since pool t d' ns b"
proof -
  obtain new where new: "encrypted_notes d' = encrypted_notes d @ new" "\<forall>n \<in> set new. note_serial d \<le> e_id n"
      and serial: "note_serial d \<le> note_serial d'"
    using assms(2) by (auto simp: rows_added_def)
  have b: "b = since \<or> b < note_serial d" using assms(1) by (simp add: covers_def)
  then have "filter (\<lambda>n. wanted since pool n \<and> e_id n \<le> b) new = []"
    using new(2) by (auto simp: filter_empty_conv)
  then have "filter (\<lambda>n. wanted since pool n \<and> e_id n \<le> b) (encrypted_notes d')
      = filter (\<lambda>n. wanted since pool n \<and> e_id n \<le> b) (encrypted_notes d)"
    by (simp add: new(1))
  moreover have "b = since \<or> b < note_serial d'" "set (encrypted_notes d) \<subseteq> set (encrypted_notes d')"
    using b serial by (auto simp: new(1))
  ultimately show ?thesis
    using coversD(7)[OF assms(1)] by (intro coversI coversD(1,3-5)[OF assms(1)]) (auto dest: coversD(2)[OF assms(1)])
qed

lemma add_pool_total_notes:
  "encrypted_notes (fst (add_pool_total call pool asset inflow outflow d)) = encrypted_notes d"
  "note_serial (fst (add_pool_total call pool asset inflow outflow d)) = note_serial d"
  by (simp_all add: add_pool_total_def exec_stmt_def Let_def split: option.splits sum.splits)

lemma store_event_notes:
  "(encrypted_notes (fst (store_event calls contract ledger tx ev d)) = encrypted_notes d
      \<and> note_serial (fst (store_event calls contract ledger tx ev d)) = note_serial d)
    \<or> (\<exists>r. fst (store_event calls contract ledger tx ev d) = insert_note r d)"
proof -
  obtain call1 call2 where c: "calls = (call1, call2)" by (cases calls)
  show ?thesis
  proof (cases ev)
    case (NewCommitment cm i a t)
    define ins where "ins = exec_stmt call1 (Inr \<circ> insert_commitment \<lparr>c_pool = contract, c_leaf_index = i,
             c_commitment = cm, c_ledger = ledger, c_tx_hash = tx\<rparr>) d"
    have "encrypted_notes (fst ins) = encrypted_notes d \<and> note_serial (fst ins) = note_serial d"
      unfolding ins_def by (simp add: exec_stmt_def insert_commitment_def split: option.splits)
    then show ?thesis
      unfolding NewCommitment c store_event.simps ins_def[symmetric]
      by (cases ins) (auto simp: add_pool_total_notes split: option.splits)
  qed (auto simp: c add_pool_total_notes exec_stmt_def insert_nullifier_def upsert_issuer_def split: option.splits)
qed

lemma insert_note_rows: "notes_table_ok d \<Longrightarrow> notes_table_ok (insert_note r d) \<and> rows_added d (insert_note r d)"
  by (auto simp: insert_note_def rows_added_def notes_table_ok_def notes_ok_def sorted_wrt_append intro: less_SucI)

lemma store_event_rows:
  assumes "notes_table_ok d"
  shows "notes_table_ok (fst (store_event calls contract ledger tx ev d))
    \<and> rows_added d (fst (store_event calls contract ledger tx ev d))"
  using store_event_notes[of calls contract ledger tx ev d]
proof
  assume "\<exists>r. fst (store_event calls contract ledger tx ev d) = insert_note r d"
  then show ?thesis using insert_note_rows[OF assms] by metis
qed (use assms in \<open>simp add: notes_table_ok_def notes_ok_def rows_added_def\<close>)

lemma fan_out_added:
  assumes "fan_out_ok last_id page sent d" "rows_added d d'"
  shows "fan_out_ok last_id page sent d'"
proof (cases last_id)
  case (Some l)
  obtain new where new: "encrypted_notes d' = encrypted_notes d @ new" and serial: "note_serial d \<le> note_serial d'"
    using assms(2) by (auto simp: rows_added_def)
  obtain k where page: "page = take k (filter (\<lambda>n. l < e_id n) (encrypted_notes d))"
    using assms(1) Some by (auto simp: fan_out_ok_def)
  have "page = take (length page) (filter (\<lambda>n. l < e_id n) (encrypted_notes d'))"
    by (simp add: page new min_def)
  then have "\<exists>k. page = take k (filter (\<lambda>n. l < e_id n) (encrypted_notes d'))" by blast
  then show ?thesis using assms(1) Some serial by (auto simp: fan_out_ok_def new)
qed (use assms in \<open>simp add: fan_out_ok_def\<close>)

lemma still_coming_added:
  assumes "still_coming pool last_id sent d pos c" "fan_out_ok last_id page sent d" "rows_added d d'"
  shows "still_coming pool last_id sent d' pos c"
  using assms by (fastforce simp: still_coming_def fan_out_ok_def rows_added_def)

lemma link_mono:
  assumes "link_ok hex_encode since pool t ns last_id sent d link"
    and "\<And>xs b. covers since pool t d xs b \<Longrightarrow> covers since pool t d' xs b"
    and "\<And>pos c. pos \<le> length sent \<Longrightarrow> still_coming pool last_id sent d pos c \<Longrightarrow> still_coming pool last_id' sent' d' pos c"
    and "length sent \<le> length sent'" "last_id \<noteq> None \<Longrightarrow> last_id' \<noteq> None"
  shows "link_ok hex_encode since pool t ns last_id' sent' d' link"
proof (cases link)
  case (Live pos pending last_seen pools)
  obtain rs tail where "pending = map (event_of hex_encode) rs @ tail" "tail \<in> {[], [resync_event]}"
      "covers since pool t d (ns @ rs) last_seen" "\<not> t \<and> tail = [] \<longrightarrow> still_coming pool last_id sent d pos last_seen"
    and "pos \<le> length sent" "last_id \<noteq> None" "pools = map_option csv pool"
    using assms(1) by (auto simp: link_ok_def Live)
  then show ?thesis
    unfolding link_ok_def Live client_link.case using assms(2-5)
    by (intro conjI exI[of _ rs] exI[of _ tail]) (simp_all add: order_trans[OF _ assms(4)])
qed (use assms(1,4,5) in \<open>auto simp: link_ok_def\<close>)

subsection \<open>The fan-out\<close>

lemma filter_head:
  assumes "ascending T" "filter (\<lambda>n. l < e_id n) T = n # ns"
  shows "filter (\<lambda>m. e_id n < e_id m) T = ns" "n \<in> set T" "l < e_id n"
    "m \<in> set T \<Longrightarrow> l < e_id m \<Longrightarrow> m = n \<or> e_id n < e_id m"
proof -
  have "n \<in> set (filter (\<lambda>n. l < e_id n) T)" using assms(2) by simp
  then show n: "n \<in> set T" "l < e_id n" by simp_all
  have asc: "ascending (n # ns)" using ascending_filter[OF assms(1)] assms(2) by metis
  then show "m = n \<or> e_id n < e_id m" if "m \<in> set T" "l < e_id m" for m
  proof -
    have "m \<in> set (n # ns)" unfolding assms(2)[symmetric] using that by simp
    then show ?thesis using asc by auto
  qed
  have "filter (\<lambda>m. e_id n < e_id m) T = filter (\<lambda>m. e_id n < e_id m) (filter (\<lambda>n. l < e_id n) T)"
    unfolding filter_filter using n(2) by (intro filter_cong) auto
  also have "\<dots> = ns" using asc by (auto simp: assms(2) filter_id_conv)
  finally show "filter (\<lambda>m. e_id n < e_id m) T = ns" .
qed

lemma first_query_ok: "notes_table_ok d \<Longrightarrow> fan_out_ok (Some (initial_last_id call d)) [] [] d"
  by (auto simp: fan_out_ok_def initial_last_id_def notes_table_ok_def split: option.splits)

lemma drain_query_ok:
  assumes "notes_table_ok d" "fan_out_ok (Some l) page sent d"
  shows "fan_out_ok (Some l) (query_after DRAIN_PAGE e_id (\<lambda>_. True) l (encrypted_notes d)) sent d"
  using assms by (auto simp: fan_out_ok_def notes_table_ok_def notes_query)

lemma drain_send_page:
  assumes "notes_table_ok d" "fan_out_ok (Some l) (n # ns) sent d"
  shows "fan_out_ok (Some (e_id n)) ns (sent @ [n]) d" "n \<in> set (encrypted_notes d)" "l < e_id n"
    "m \<in> set (encrypted_notes d) \<Longrightarrow> l < e_id m \<Longrightarrow> m = n \<or> e_id n < e_id m"
proof -
  have asc: "ascending (encrypted_notes d)" using assms(1) by (simp add: notes_table_ok_def notes_ok_def)
  obtain k where "n # ns = take k (filter (\<lambda>n. l < e_id n) (encrypted_notes d))"
    using assms(2) by (auto simp: fan_out_ok_def)
  then obtain ms j where ms: "filter (\<lambda>n. l < e_id n) (encrypted_notes d) = n # ms" "ns = take j ms"
    by (cases k; cases "filter (\<lambda>n. l < e_id n) (encrypted_notes d)") auto
  note h = filter_head[OF asc ms(1)]
  show "n \<in> set (encrypted_notes d)" "l < e_id n" by (rule h)+
  show "m \<in> set (encrypted_notes d) \<Longrightarrow> l < e_id m \<Longrightarrow> m = n \<or> e_id n < e_id m" by (rule h(4))
  show "fan_out_ok (Some (e_id n)) ns (sent @ [n]) d"
    using assms h(1-3) ms(2) by (auto simp: fan_out_ok_def notes_table_ok_def sorted_wrt_append)
qed

lemma still_coming_sent:
  assumes "notes_table_ok d" "fan_out_ok (Some l) (n # ns) sent d" "pos \<le> length sent"
    and "still_coming pool (Some l) sent d pos c"
  shows "still_coming pool (Some (e_id n)) (sent @ [n]) d pos c"
  using assms(3,4) drain_send_page(4)[OF assms(1,2)] by (auto simp: still_coming_def)

subsection \<open>The connection\<close>

lemma replay_events_of: "List.map_filter (note_event hex_encode) ns = map (event_of hex_encode) ns"
  by (simp add: List.map_filter_def event_of_def note_event_def)

lemma event_of_simps [simp]:
  "event_of hex_encode n \<noteq> resync_event" "resync_event \<noteq> event_of hex_encode n"
  "ev_id (event_of hex_encode n) = Some (show_int (e_id n))" "ev_id resync_event = None"
  "note_event hex_encode n = Some (event_of hex_encode n)"
  by (simp_all add: event_of_def note_event_def resync_event_def)

lemma resumed_at:
  assumes "client_ok hex_encode since received last_event ns" "\<forall>n \<in> set ns. in_i64 (e_id n)"
  shows "resume_from last_event (Some since) = Some (cursor_after since ns)"
proof (cases "ns = []")
  case False
  then have "in_i64 (e_id (last ns))" using assms(2) by simp
  then have "parse_signed 64 (show_int (e_id (last ns))) = Some (e_id (last ns))"
    by (intro parse_signed_show) (simp_all add: in_i64_def)
  then show ?thesis using assms(1) False by (simp add: client_ok_def resume_from_def cursor_after_def)
qed (use assms in \<open>simp add: client_ok_def resume_from_def cursor_after_def\<close>)

lemma ascending_cut:
  assumes "ascending T" "a \<le> c"
  shows "filter (\<lambda>n. (Q n \<and> a < e_id n) \<and> e_id n \<le> c) T @ filter (\<lambda>n. Q n \<and> c < e_id n) T = filter (\<lambda>n. Q n \<and> a < e_id n) T"
  using assms(1)
proof (induction T)
  case (Cons n T)
  have "filter (\<lambda>m. (Q m \<and> a < e_id m) \<and> e_id m \<le> c) T = []" if "c < e_id n"
    using that Cons.prems by (auto simp: filter_empty_conv)
  then show ?case using Cons assms(2) by auto
qed simp

lemma replay_covers:
  fixes pool :: "string option"
  assumes "notes_table_ok d" "covers since pool t d ns (cursor_after since ns)"
  defines "rows \<equiv> replay_rows (map_option csv pool) (cursor_after since ns) d"
  shows "covers since pool t d (ns @ rows) (cursor_after (cursor_after since ns) rows)"
    and "length rows \<noteq> REPLAY_LIMIT \<Longrightarrow> n \<in> set (encrypted_notes d) \<Longrightarrow> pool_in (map_option csv pool) n
      \<Longrightarrow> \<not> cursor_after (cursor_after since ns) rows < e_id n"
proof -
  let ?c = "cursor_after since ns" and ?Q = "pool_in (map_option csv pool)"
  have asc: "ascending (encrypted_notes d)" and serial: "\<And>n. n \<in> set (encrypted_notes d) \<Longrightarrow> e_id n < note_serial d"
    using assms(1) by (simp_all add: notes_table_ok_def notes_ok_def)
  note cov = coversD[OF assms(2)]
  define R where "R = filter (\<lambda>n. ?Q n \<and> ?c < e_id n) (encrypted_notes d)"
  have rows: "rows = take REPLAY_LIMIT R"
    using assms(1) by (simp add: rows_def R_def replay_rows_def notes_query notes_table_ok_def)
  have ascR: "ascending R" unfolding R_def by (rule ascending_filter[OF asc])
  then have asc_rows: "ascending rows" unfolding rows by (simp add: take_map[symmetric] sorted_wrt_take)
  have in_rows: "n \<in> set R" if "n \<in> set rows" for n using that by (auto simp: rows dest: in_set_takeD)
  have R: "n \<in> set (encrypted_notes d) \<and> ?Q n \<and> ?c < e_id n" if "n \<in> set R" for n using that by (simp add: R_def)
  note cur = cursor_after_bound[OF asc_rows, of ?c]
  have lower: "\<forall>n \<in> set rows. ?c < e_id n" using R in_rows by blast
  have below: "e_id x < e_id y" if "x \<in> set ns" "y \<in> set R" for x y
    using cov(4)[OF that(1)] R[OF that(2)] by simp
  then have asc_all: "ascending (ns @ R)" using cov(1) ascR by (simp add: sorted_wrt_append)
  have asc_both: "ascending (ns @ rows)"
    using cov(1) asc_rows below in_rows by (simp add: sorted_wrt_append)
  show "covers since pool t d (ns @ rows) (cursor_after ?c rows)"
  proof (rule coversI)
    show "ascending (ns @ rows)" by (rule asc_both)
    show "n \<in> set (ns @ rows) \<Longrightarrow> n \<in> set (encrypted_notes d)" for n using cov(2) R in_rows by auto
    show "n \<in> set (ns @ rows) \<Longrightarrow> wanted since pool n" for n
      using cov(3,5) R[OF in_rows, of n] by auto
    show "n \<in> set (ns @ rows) \<Longrightarrow> e_id n \<le> cursor_after ?c rows" for n
      using cov(4)[of n] cur(1)[OF lower] cur(2)[OF lower, of n] by auto
    show "since \<le> cursor_after ?c rows" using cov(5) cur(1)[OF lower] by simp
    show "cursor_after ?c rows = since \<or> cursor_after ?c rows < note_serial d"
      using cov(6) cur(3)[OF lower] R[OF in_rows] serial by metis
    assume "\<not> t"
    have "ns = filter (\<lambda>n. wanted since pool n \<and> e_id n \<le> ?c) (encrypted_notes d)" using cov(7) \<open>\<not> t\<close> .
    then have all: "ns @ R = filter (wanted since pool) (encrypted_notes d)"
      using ascending_cut[OF asc cov(5), of ?Q] unfolding R_def by simp
    have split: "ns @ R = (ns @ rows) @ drop REPLAY_LIMIT R" by (simp add: rows)
    have w: "\<forall>n \<in> set (ns @ R). since < e_id n" unfolding all by simp
    have "ns @ rows = filter (\<lambda>n. e_id n \<le> cursor_after since (ns @ rows)) (ns @ R)"
      using ascending_split[of "ns @ rows" "drop REPLAY_LIMIT R" since] asc_all w unfolding split by simp
    then show "ns @ rows = filter (\<lambda>n. wanted since pool n \<and> e_id n \<le> cursor_after ?c rows) (encrypted_notes d)"
      unfolding all cursor_after_append by (simp add: conj_ac)
  qed
  assume full: "length rows \<noteq> REPLAY_LIMIT" and n: "n \<in> set (encrypted_notes d)" "?Q n"
  then have "rows = R" by (auto simp: rows min_def split: if_splits)
  show "\<not> cursor_after ?c rows < e_id n"
  proof
    assume less: "cursor_after ?c rows < e_id n"
    then have "?c < e_id n" using cur(1)[OF lower] by simp
    then have "n \<in> set rows" unfolding \<open>rows = R\<close> R_def using n by simp
    then show False using cur(2)[OF lower] less by fastforce
  qed
qed

lemma answer_link:
  assumes "notes_table_ok d" "fan_out_ok last_id page sent d" "client_ok hex_encode since received last_event ns"
    and "covers since pool t d ns (cursor_after since ns)" "\<forall>n \<in> set ns. in_i64 (e_id n)"
    and "link_ok hex_encode since pool t ns last_id sent d (Subscribed pos)"
    and "stream_notes hex_encode ip last_event (Some since) pool call d sl = (sl', Inr (pending, last_seen, pools))"
  shows "link_ok hex_encode since pool t ns last_id sent d (Live pos pending last_seen pools)"
proof -
  define rows where "rows = replay_rows (map_option csv pool) (cursor_after since ns) d"
  have st: "pending = replay_events hex_encode rows" "last_seen = cursor_after (cursor_after since ns) rows" "pools = map_option csv pool"
    using assms(7) resumed_at[OF assms(3,5)]
    by (auto simp: stream_notes_def Let_def rows_def cursor_after_def split: prod.splits bool.splits option.splits if_splits)
  note c = replay_covers[OF assms(1,4), folded rows_def]
  obtain l where l: "last_id = Some l" using assms(6) by (auto simp: link_ok_def)
  have pos: "pos \<le> length sent" using assms(6) by (simp add: link_ok_def)
  define tail where "tail = (if length rows = REPLAY_LIMIT then [resync_event] else [])"
  have "still_coming pool last_id sent d pos last_seen" if "tail = []"
    using that c(2) l by (auto simp: still_coming_def tail_def st(2) split: if_splits)
  moreover have "pending = map (event_of hex_encode) rows @ tail" "tail \<in> {[], [resync_event]}"
    by (simp_all add: st(1) replay_events_def tail_def replay_events_of)
  ultimately show ?thesis
    unfolding link_ok_def client_link.case using pos l st(2,3) c(1) by blast
qed

text \<open>An event of the replay reaches the client.\<close>

lemma take_note:
  assumes "client_ok hex_encode since received last_event ns"
  shows "client_ok hex_encode since (received @ [event_of hex_encode n]) (Some (show_int (e_id n))) (ns @ [n])"
  using assms by (simp add: client_ok_def)

lemma take_resync:
  assumes "client_ok hex_encode since received last_event ns"
  shows "client_ok hex_encode since (received @ [resync_event]) last_event ns"
  using assms by (simp add: client_ok_def)

text \<open>A message of the channel reaches the client, or is skipped.\<close>

lemma next_message:
  assumes "notes_table_ok d" "fan_out_ok (Some l) page sent d" "pos < length sent"
    and "covers since pool t d ns c" "\<not> t \<longrightarrow> still_coming pool (Some l) sent d pos c"
    and "n = sent ! pos" "c < e_id n"
  shows "covers since pool t d (ns @ (if pool_in (map_option csv pool) n then [n] else [])) (e_id n)"
    "\<not> t \<longrightarrow> still_coming pool (Some l) sent d (Suc pos) (e_id n)"
proof -
  let ?Q = "pool_in (map_option csv pool)"
  note cov = coversD[OF assms(4)]
  have drop: "drop pos sent = n # drop (Suc pos) sent" using assms(3,6) by (simp add: Cons_nth_drop_Suc)
  have "n \<in> set sent" using assms(3,6) by simp
  then have n: "n \<in> set (encrypted_notes d)" "e_id n \<le> l" and asc: "ascending sent"
    using assms(2) by (auto simp: fan_out_ok_def)
  have "ascending (drop pos sent)" unfolding drop_map[symmetric] by (rule sorted_wrt_drop[OF asc])
  then have after: "m = n \<or> e_id n < e_id m" if "m \<in> set (drop pos sent)" for m
    using that unfolding drop by auto
  have T: "ascending (encrypted_notes d)" "e_id n < note_serial d"
    using assms(1) n by (simp_all add: notes_table_ok_def notes_ok_def)
  have only: "m = n" if "\<not> t" "m \<in> set (encrypted_notes d)" "?Q m" "c < e_id m" "e_id m \<le> e_id n" for m
    using assms(5) that after[of m] n(2) by (auto simp: still_coming_def)
  show "\<not> t \<longrightarrow> still_coming pool (Some l) sent d (Suc pos) (e_id n)"
    using assms(5,7) by (auto simp: still_coming_def drop)
  show "covers since pool t d (ns @ (if ?Q n then [n] else [])) (e_id n)"
  proof (rule coversI)
    have "e_id m < e_id n" if "m \<in> set ns" for m using cov(4)[OF that] assms(7) by simp
    then show "ascending (ns @ (if ?Q n then [n] else []))" using cov(1) by (simp add: sorted_wrt_append)
    show "m \<in> set (ns @ (if ?Q n then [n] else [])) \<Longrightarrow> m \<in> set (encrypted_notes d)" for m
      using cov(2) n(1) by (auto split: if_splits)
    show "m \<in> set (ns @ (if ?Q n then [n] else [])) \<Longrightarrow> wanted since pool m" for m
      using cov(3)[of m] cov(5) assms(7) by (auto split: if_splits)
    show "m \<in> set (ns @ (if ?Q n then [n] else [])) \<Longrightarrow> e_id m \<le> e_id n" for m
      using cov(4)[of m] assms(7) by (auto split: if_splits)
    show "since \<le> e_id n" "e_id n = since \<or> e_id n < note_serial d" using cov(5) assms(7) T(2) by simp_all
    assume "\<not> t"
    then have "filter (\<lambda>m. wanted since pool m \<and> e_id m \<le> e_id n) (encrypted_notes d)
        = filter (\<lambda>m. wanted since pool m \<and> e_id m \<le> c) (encrypted_notes d) @ (if wanted since pool n then [n] else [])"
      using only by (intro filter_next[OF T(1) n(1) assms(7)]) blast
    moreover have "since < e_id n" using cov(5) assms(7) by simp
    ultimately show "ns @ (if ?Q n then [n] else []) = filter (\<lambda>m. wanted since pool m \<and> e_id m \<le> e_id n) (encrypted_notes d)"
      using cov(7)[OF \<open>\<not> t\<close>] by simp
  qed
qed

lemma skipped_message:
  assumes "pos < length sent" "n = sent ! pos" "e_id n \<le> c" "still_coming pool last_id sent d pos c"
  shows "still_coming pool last_id sent d (Suc pos) c"
proof -
  have "drop pos sent = n # drop (Suc pos) sent" using assms(1,2) by (simp add: Cons_nth_drop_Suc)
  then have "m \<in> set (drop pos sent) \<Longrightarrow> c < e_id m \<Longrightarrow> m \<in> set (drop (Suc pos) sent)" for m
    using assms(3) by auto
  then show ?thesis using assms(4) unfolding still_coming_def by blast
qed

subsection \<open>Every step\<close>

definition ids_in_range :: "relay \<Rightarrow> bool" where
  "ids_in_range s \<longleftrightarrow> (\<forall>n \<in> set (encrypted_notes (rl_db s)). in_i64 (e_id n))"

definition relay_ok :: "(byte list \<Rightarrow> string) \<Rightarrow> int \<Rightarrow> string option \<Rightarrow> relay \<Rightarrow> bool" where
  "relay_ok hex_encode since pool s \<longleftrightarrow> (\<exists>ns. relay_inv hex_encode since pool s ns)"

lemma take_event_simps [simp]:
  "rl_db (take_event ev s) = rl_db s" "rl_last_id (take_event ev s) = rl_last_id s" "rl_page (take_event ev s) = rl_page s"
  "rl_sent (take_event ev s) = rl_sent s" "rl_received (take_event ev s) = rl_received s @ [ev]"
  "rl_last_event (take_event ev s) = (case ev_id ev of Some i \<Rightarrow> Some i | None \<Rightarrow> rl_last_event s)"
  by (simp_all add: take_event_def)

lemma replay_step_ok:
  assumes "relay_inv hex_encode since pool s ns" "rl_link s = Live pos (ev # evs) last_seen pools"
  shows "relay_ok hex_encode since pool ((take_event ev s)\<lparr>rl_link := Live pos evs last_seen pools\<rparr>)"
proof -
  let ?d = "rl_db s" and ?ev = "event_of hex_encode"
  note inv = assms(1)[unfolded relay_inv_def]
  have client: "client_ok hex_encode since (rl_received s) (rl_last_event s) ns"
    and cov0: "covers since pool (told s) ?d ns (cursor_after since ns)" using inv by blast+
  obtain rs tail where rs: "ev # evs = map ?ev rs @ tail" "tail \<in> {[], [resync_event]}"
      "covers since pool (told s) ?d (ns @ rs) last_seen"
      "\<not> told s \<and> tail = [] \<longrightarrow> still_coming pool (rl_last_id s) (rl_sent s) ?d pos last_seen"
    and l: "pos \<le> length (rl_sent s)" "rl_last_id s \<noteq> None" "pools = map_option csv pool"
    using inv assms(2) by (auto simp: link_ok_def)
  show ?thesis
  proof (cases rs)
    case Nil
    then have ev: "ev = resync_event" "evs = []" using rs(1,2) by auto
    have "link_ok hex_encode since pool True ns (rl_last_id s) (rl_sent s) ?d (Live pos [] last_seen pools)"
      unfolding link_ok_def client_link.case using l covers_told[OF rs(3)] Nil
      by (intro conjI exI[of _ "[]"]) simp_all
    then show ?thesis
      unfolding relay_ok_def using inv take_resync[OF client] covers_told[OF cov0]
      by (intro exI[of _ ns]) (simp add: relay_inv_def ev)
  next
    case (Cons n rs')
    then have ev: "ev = ?ev n" "evs = map ?ev rs' @ tail" using rs(1) by simp_all
    have "covers since pool (told s) ?d (ns @ [n]) (cursor_after since (ns @ [n]))"
      by (rule covers_prefix[where rs = rs']) (use rs(3) Cons in simp)
    moreover have "link_ok hex_encode since pool (told s) (ns @ [n]) (rl_last_id s) (rl_sent s) ?d (Live pos evs last_seen pools)"
      unfolding link_ok_def client_link.case using l rs Cons ev(2)
      by (intro conjI exI[of _ rs'] exI[of _ tail]) simp_all
    ultimately show ?thesis
      unfolding relay_ok_def using inv take_note[OF client, of n]
      by (intro exI[of _ "ns @ [n]"]) (simp add: relay_inv_def ev(1))
  qed
qed

lemma live_step_ok:
  assumes "relay_inv hex_encode since pool s ns" "rl_link s = Live pos [] c pools" "recv (rl_sent s) pos = Some (m, pos')"
    and "live_step hex_encode pools c m = (c', out)"
  shows "relay_ok hex_encode since pool
    ((case out of None \<Rightarrow> s | Some ev \<Rightarrow> take_event ev s)\<lparr>rl_link := Live pos' [] c' pools\<rparr>)"
proof -
  let ?d = "rl_db s"
  note inv = assms(1)[unfolded relay_inv_def]
  have client: "client_ok hex_encode since (rl_received s) (rl_last_event s) ns" and table: "notes_table_ok ?d"
    and cov0: "covers since pool (told s) ?d ns (cursor_after since ns)" using inv by blast+
  obtain rs tail where "[] = map (event_of hex_encode) rs @ tail" "covers since pool (told s) ?d (ns @ rs) c"
      "\<not> told s \<and> tail = [] \<longrightarrow> still_coming pool (rl_last_id s) (rl_sent s) ?d pos c"
    and l: "pos \<le> length (rl_sent s)" "rl_last_id s \<noteq> None" "pools = map_option csv pool"
    using inv assms(2) by (auto simp: link_ok_def)
  then have cov: "covers since pool (told s) ?d ns c" and coming: "\<not> told s \<longrightarrow> still_coming pool (rl_last_id s) (rl_sent s) ?d pos c"
    by (cases rs; simp)+
  have live: "link_ok hex_encode since pool t xs (rl_last_id s) (rl_sent s) ?d (Live pos' [] b pools)"
    if "covers since pool t ?d xs b" "\<not> t \<longrightarrow> still_coming pool (rl_last_id s) (rl_sent s) ?d pos' b" "pos' \<le> length (rl_sent s)" for t xs b
    unfolding link_ok_def client_link.case using that l by (intro conjI exI[of _ "[]"]) simp_all
  show ?thesis
  proof (cases m)
    case Lagged
    then have m: "c' = c" "out = Some resync_event" using assms(4) by (auto simp: live_step_def)
    have "pos' \<le> length (rl_sent s)" using assms(3) by (auto simp: recv_def split: if_splits)
    then show ?thesis
      unfolding relay_ok_def m using inv take_resync[OF client] covers_told[OF cov0] live[of True ns c] covers_told[OF cov]
      by (intro exI[of _ ns]) (simp add: relay_inv_def)
  next
    case (Note n)
    then have pos: "pos < length (rl_sent s)" "n = rl_sent s ! pos" "pos' = Suc pos"
      using assms(3) by (auto simp: recv_def split: if_splits)
    show ?thesis
    proof (cases "e_id n \<le> c")
      case True
      then have m: "c' = c" "out = None" using assms(4) by (simp_all add: live_step_def Note)
      then show ?thesis
        unfolding relay_ok_def using inv live[OF cov] coming skipped_message[OF pos(1,2) True] pos(1,3)
        by (intro exI[of _ ns]) (simp add: relay_inv_def)
    next
      case False
      obtain last_id where last_id: "rl_last_id s = Some last_id" using l(2) by blast
      have fan: "fan_out_ok (Some last_id) (rl_page s) (rl_sent s) ?d" using inv last_id by metis
      define xs where "xs = ns @ (if pool_in (map_option csv pool) n then [n] else [])"
      have c': "c' = e_id n" and out: "out = (if pool_in (map_option csv pool) n then note_event hex_encode n else None)"
        using assms(4) False l(3) by (auto simp: live_step_def Note split: if_splits)
      note nm = next_message[OF table fan pos(1) cov coming[unfolded last_id] pos(2)] 
      have next_link: "link_ok hex_encode since pool (told s) xs (rl_last_id s) (rl_sent s) ?d (Live pos' [] c' pools)"
        using live[of "told s" xs c'] nm False pos(1,3) by (simp add: xs_def c' last_id)
      show ?thesis
      proof (cases "pool_in (map_option csv pool) n")
        case True
        have xs: "xs = ns @ [n]" and out: "out = Some (event_of hex_encode n)" using True by (simp_all add: xs_def out)
        have "covers since pool (told s) ?d xs (cursor_after since xs)"
          by (rule covers_prefix[where rs = "[]" and b = c']) (use nm(1) False in \<open>simp add: xs_def c'\<close>)
        then show ?thesis
          unfolding relay_ok_def using inv take_note[OF client, of n] next_link
          by (intro exI[of _ xs]) (simp add: relay_inv_def out xs)
      next
        case no: False
        then show ?thesis
          unfolding relay_ok_def using inv next_link by (intro exI[of _ ns]) (simp add: relay_inv_def out xs_def)
      qed
    qed
  qed
qed

definition notes_grow :: "relay \<Rightarrow> relay \<Rightarrow> bool" where
  "notes_grow s s' \<longleftrightarrow> (\<exists>new. encrypted_notes (rl_db s') = encrypted_notes (rl_db s) @ new)"

lemma relay_step_grows: "relay_step patient hex_encode ip since pool s s' \<Longrightarrow> notes_grow s s'"
proof (induction rule: relay_step.induct)
  case (index s calls contract ledger tx ev)
  then show ?case
    using store_event_notes[of calls contract ledger tx ev "rl_db s"] by (auto simp: notes_grow_def insert_note_def)
next
  case (live s pos last_seen pools m pos' last_seen' out)
  then show ?case by (simp add: notes_grow_def split: option.split)
qed (simp_all add: notes_grow_def)

lemma relay_inv_link:
  "relay_inv hex_encode since pool s ns \<Longrightarrow>
   link_ok hex_encode since pool (told s) ns (rl_last_id s) (rl_sent s) (rl_db s) (rl_link s)"
  by (simp add: relay_inv_def)

lemma client_in_range:
  "ids_in_range s \<Longrightarrow> covers since pool t (rl_db s) ns b \<Longrightarrow> \<forall>n \<in> set ns. in_i64 (e_id n)"
  by (auto simp: ids_in_range_def dest: coversD(2))

lemma relay_step_keeps:
  assumes "relay_step True hex_encode ip since pool s s'" "relay_ok hex_encode since pool s" "ids_in_range s"
  shows "relay_ok hex_encode since pool s'"
  using assms
proof (induction rule: relay_step.induct)
  case (index s calls contract ledger tx ev)
  obtain ns where inv: "relay_inv hex_encode since pool s ns" using index by (auto simp: relay_ok_def)
  then have "notes_table_ok (rl_db s)" and fan: "fan_out_ok (rl_last_id s) (rl_page s) (rl_sent s) (rl_db s)"
    by (simp_all add: relay_inv_def)
  note rows = store_event_rows[OF this(1), of calls contract ledger tx ev, THEN conjunct2]
    store_event_rows[OF this(1), of calls contract ledger tx ev, THEN conjunct1]
  have "link_ok hex_encode since pool (told s) ns (rl_last_id s) (rl_sent s)
      (fst (store_event calls contract ledger tx ev (rl_db s))) (rl_link s)"
    by (rule link_mono[OF relay_inv_link[OF inv]])
       (rule covers_added[OF _ rows(1)], assumption, rule still_coming_added[OF _ fan rows(1)], simp_all)
  then show ?case
    unfolding relay_ok_def using inv rows fan_out_added[OF _ rows(1)] covers_added[OF _ rows(1)]
    by (intro exI[of _ ns]) (simp add: relay_inv_def)
next
  case (first_query s call)
  obtain ns where inv: "relay_inv hex_encode since pool s ns" using first_query by (auto simp: relay_ok_def)
  have "rl_link s = Away" "rl_page s = []" "rl_sent s = []"
    using inv first_query(1) by (auto simp: relay_inv_def link_ok_def fan_out_ok_def split: client_link.splits)
  then show ?case
    unfolding relay_ok_def using inv first_query_ok[of "rl_db s" call]
    by (intro exI[of _ ns]) (simp add: relay_inv_def link_ok_def)
next
  case (drain_query s last_id)
  obtain ns where inv: "relay_inv hex_encode since pool s ns" using drain_query by (auto simp: relay_ok_def)
  then show ?case
    unfolding relay_ok_def using drain_query(1) drain_query_ok[of "rl_db s" last_id "rl_page s" "rl_sent s"]
    by (intro exI[of _ ns]) (simp add: relay_inv_def)
next
  case (drain_send s last_id n ns)
  obtain xs where inv: "relay_inv hex_encode since pool s xs" using drain_send by (auto simp: relay_ok_def)
  then have table: "notes_table_ok (rl_db s)" and fan: "fan_out_ok (Some last_id) (n # ns) (rl_sent s) (rl_db s)"
    using drain_send(1,2) by (metis relay_inv_def)+
  have "link_ok hex_encode since pool (told s) xs (Some (e_id n)) (rl_sent s @ [n]) (rl_db s) (rl_link s)"
    by (rule link_mono[OF relay_inv_link[OF inv]])
       (assumption, rule still_coming_sent[OF table fan], simp_all add: drain_send(1))
  then show ?case
    unfolding relay_ok_def using inv drain_send_page(1)[OF table fan] by (intro exI[of _ xs]) (simp add: relay_inv_def)
next
  case (subscribe s)
  obtain ns where inv: "relay_inv hex_encode since pool s ns" using subscribe by (auto simp: relay_ok_def)
  then show ?case
    unfolding relay_ok_def using subscribe(2) by (intro exI[of _ ns]) (simp add: relay_inv_def link_ok_def)
next
  case (answer s pos call sl sl' res)
  obtain ns where inv: "relay_inv hex_encode since pool s ns" using answer by (auto simp: relay_ok_def)
  show ?case
  proof (cases res)
    case (Inl r)
    then show ?thesis
      unfolding relay_ok_def using inv by (intro exI[of _ ns]) (simp add: relay_inv_def link_ok_def)
  next
    case (Inr st)
    obtain pending last_seen pools where st: "st = (pending, last_seen, pools)" by (cases st)
    have "link_ok hex_encode since pool (told s) ns (rl_last_id s) (rl_sent s) (rl_db s) (Live pos pending last_seen pools)"
      using inv answer(1,2,4) client_in_range[OF answer(4)]
      by (intro answer_link[where page = "rl_page s" and received = "rl_received s" and last_event = "rl_last_event s" and ip = ip
            and call = call and sl = sl and sl' = sl'])
         (auto simp: relay_inv_def Inr st)
    then show ?thesis
      unfolding relay_ok_def using inv by (intro exI[of _ ns]) (simp add: relay_inv_def Inr st)
  qed
next
  case (replay s pos ev evs last_seen pools)
  then show ?case using replay_step_ok by (metis relay_ok_def)
next
  case (live s pos last_seen pools m pos' last_seen' out)
  then show ?case using live_step_ok by (metis relay_ok_def)
next
  case (disconnect s)
  then show ?case unfolding relay_ok_def relay_inv_def by (auto simp: link_ok_def)
next
  case (restart s)
  then show ?case unfolding relay_ok_def relay_inv_def by (auto simp: link_ok_def fan_out_ok_def)
qed

interpretation relay: step_invariant "relay_step True hex_encode ip since pool"
    "\<lambda>s. ids_in_range s \<longrightarrow> relay_ok hex_encode since pool s" notes_grow
  for hex_encode ip since pool
proof (unfold_locales, goal_cases)
  case (1 s)
  then show ?case by (simp add: notes_grow_def)
next
  case (2 s s' s'')
  then show ?case by (auto simp: notes_grow_def)
next
  case (3 s s')
  have "ids_in_range s' \<Longrightarrow> ids_in_range s"
    using relay_step_grows[OF 3(1)] by (auto simp: notes_grow_def ids_in_range_def)
  then show ?case using relay_step_keeps[OF 3(1)] relay_step_grows[OF 3(1)] 3(2) by blast
qed

section \<open>What the client can rely on\<close>

text \<open>Nothing is left to send or to receive on a live connection.\<close>

definition caught_up :: "relay \<Rightarrow> bool" where
  "caught_up s \<longleftrightarrow> (case rl_link s of
     Live pos pending last_seen pools \<Rightarrow> pending = [] \<and> pos = length (rl_sent s)
       \<and> (case rl_last_id s of None \<Rightarrow> False | Some l \<Rightarrow> list_all (\<lambda>n. e_id n \<le> l) (encrypted_notes (rl_db s)))
   | _ \<Rightarrow> False)"

lemma start_ok:
  "notes_table_ok d \<Longrightarrow> relay_ok hex_encode since pool (relay_start d)"
  unfolding relay_ok_def
  by (intro exI[of _ "[]"]) (simp add: relay_inv_def relay_start_def fan_out_ok_def client_ok_def link_ok_def covers_fresh)

lemma caught_up_covers:
  assumes "relay_inv hex_encode since pool s ns" "caught_up s" "\<not> told s"
  shows "ns = filter (wanted since pool) (encrypted_notes (rl_db s))"
proof -
  obtain pos last_seen pools l where s: "rl_link s = Live pos [] last_seen pools" "pos = length (rl_sent s)" "rl_last_id s = Some l"
      "\<forall>n \<in> set (encrypted_notes (rl_db s)). e_id n \<le> l"
    using assms(2) by (auto simp: caught_up_def list_all_iff split: client_link.splits option.splits)
  have "link_ok hex_encode since pool (told s) ns (Some l) (rl_sent s) (rl_db s) (Live pos [] last_seen pools)"
    using assms(1) s(1,3) by (metis relay_inv_def)
  then have cov: "covers since pool (told s) (rl_db s) ns last_seen"
    and coming: "still_coming pool (Some l) (rl_sent s) (rl_db s) pos last_seen"
    using assms(3) by (auto simp: link_ok_def)
  have "\<forall>n \<in> set (encrypted_notes (rl_db s)). pool_in (map_option csv pool) n \<longrightarrow> e_id n \<le> last_seen"
    using coming s(2,4) by (fastforce simp: still_coming_def)
  then have "filter (\<lambda>n. wanted since pool n \<and> e_id n \<le> last_seen) (encrypted_notes (rl_db s))
      = filter (wanted since pool) (encrypted_notes (rl_db s))"
    by (intro filter_cong) auto
  then show ?thesis using coversD(7)[OF cov assms(3)] by simp
qed

lemma relay_inv_reached:
  assumes "reachable (relay_step True hex_encode ip since pool) (relay_start d) s"
    and "tables_ok d" "0 < note_serial d" "ids_in_range s"
  obtains ns where "relay_inv hex_encode since pool s ns"
proof -
  have "notes_table_ok d" using assms(2,3) by (simp add: tables_ok_def notes_table_ok_def)
  from relay.reachable_ok[OF assms(1)] start_ok[OF this] assms(4) show thesis
    using that by (auto simp: relay_ok_def)
qed


subsection \<open>The tasks of the code are runs\<close>

text \<open>
  The drain of \<open>Notes\<close>, which the fan-out runs on every wake-up and every poll, is a run of the steps
  when its queries meet the table as it stands.
\<close>

lemma send_page_run:
  "rl_last_id s = Some l \<Longrightarrow> rl_page s = page \<Longrightarrow>
   reachable (relay_step patient hex_encode ip since pool) s
     (s\<lparr>rl_page := [], rl_last_id := Some (if page = [] then l else e_id (last page)), rl_sent := rl_sent s @ page\<rparr>)"
proof (induction page arbitrary: s l)
  case Nil
  then have "s\<lparr>rl_page := [], rl_last_id := Some l, rl_sent := rl_sent s @ []\<rparr> = s" by simp
  then show ?case using reachable.start[of "relay_step patient hex_encode ip since pool" s] by simp
next
  case (Cons n page)
  let ?s = "s\<lparr>rl_page := page, rl_last_id := Some (e_id n), rl_sent := rl_sent s @ [n]\<rparr>"
  have "reachable (relay_step patient hex_encode ip since pool) s ?s"
    by (rule reachable_one) (rule relay_step.drain_send[OF Cons.prems])
  moreover have "reachable (relay_step patient hex_encode ip since pool) ?s
      (?s\<lparr>rl_page := [], rl_last_id := Some (if page = [] then e_id n else e_id (last page)), rl_sent := rl_sent ?s @ page\<rparr>)"
    by (rule Cons.IH) simp_all
  ultimately show ?case using reachable_trans by fastforce
qed

lemma drain_run:
  assumes "drain_new_notes qs l = Some (l', sent)" "\<forall>q \<in> set qs. snd q = rl_db s" "rl_last_id s = Some l" "rl_page s = []"
  shows "reachable (relay_step patient hex_encode ip since pool) s (s\<lparr>rl_last_id := Some l', rl_sent := rl_sent s @ sent\<rparr>)"
  using assms
proof (induction qs l arbitrary: s l' sent rule: drain_new_notes.induct)
  case (2 e d qs last_id)
  then have "s\<lparr>rl_last_id := Some l', rl_sent := rl_sent s @ sent\<rparr> = s" by simp
  then show ?case using reachable.start[of "relay_step patient hex_encode ip since pool" s] by simp
next
  case (3 d qs last_id)
  define rows where "rows = query_after DRAIN_PAGE e_id (\<lambda>_. True) last_id (encrypted_notes (rl_db s))"
  define l1 where "l1 = (if rows = [] then last_id else e_id (last rows))"
  define s1 where "s1 = s\<lparr>rl_last_id := Some l1, rl_sent := rl_sent s @ rows\<rparr>"
  have d: "d = rl_db s" using 3(3) by simp
  have same: "s\<lparr>rl_page := [], rl_last_id := Some l1, rl_sent := rl_sent s @ rows\<rparr> = s1"
    using 3(5) by (cases s) (simp add: s1_def)
  have "relay_step patient hex_encode ip since pool s (s\<lparr>rl_page := rows\<rparr>)"
    unfolding rows_def by (rule relay_step.drain_query[OF 3(4,5)])
  moreover have "reachable (relay_step patient hex_encode ip since pool) (s\<lparr>rl_page := rows\<rparr>) s1"
    using send_page_run[of "s\<lparr>rl_page := rows\<rparr>" last_id rows, folded l1_def] 3(4) same by simp
  ultimately have page: "reachable (relay_step patient hex_encode ip since pool) s s1"
    using reachable_one reachable_trans by metis
  show ?case
  proof (cases "length rows = DRAIN_PAGE")
    case True
    then obtain sent' where rest: "drain_new_notes qs l1 = Some (l', sent')" "sent = rows @ sent'"
      using 3(2) by (auto simp: Let_def d rows_def[symmetric] l1_def)
    have "reachable (relay_step patient hex_encode ip since pool) s1 (s1\<lparr>rl_last_id := Some l', rl_sent := rl_sent s1 @ sent'\<rparr>)"
      by (rule 3(1)[OF refl refl]) (use True rest(1) 3(3,5) in \<open>simp_all add: d rows_def[symmetric] l1_def s1_def split: if_split_asm\<close>)
    then show ?thesis using reachable_trans[OF page] by (simp add: s1_def rest(2))
  next
    case False
    then have "l' = l1" "sent = rows" using 3(2) by (auto simp: Let_def d rows_def[symmetric] l1_def)
    then show ?thesis using page by (simp add: s1_def)
  qed
qed simp

subsection \<open>Witnesses\<close>

text \<open>One note arrives after the replay and before or after the first query of the fan-out.\<close>

definition one_note_db :: db where
  "one_note_db = fst (store_event (None, None) ''A'' 7 ''t'' (EncryptedNote [] [] []) empty_db)"

lemma one_note: "encrypted_notes one_note_db = [sample_note 1 ''A'']"
  by (simp add: one_note_db_def exec_stmt_def insert_note_def empty_db_def sample_note_def)

lemma empty_start: "tables_ok empty_db" "0 < note_serial empty_db"
  by (rule tables_ok_empty) (simp add: empty_db_def)

lemma empty_answer:
  "stream_notes sample_hex_encode (V4 1) None (Some 0) None None empty_db (new_slots 1 1)
    = (fst (sse_try_acquire (V4 1) (new_slots 1 1)), Inr ([], 0, None))"
  by (simp add: stream_notes_def sse_try_acquire_def sse_global_full_def sse_count_ip_def new_slots_def resume_from_def
      replay_rows_def query_after_def select_by_def empty_db_def replay_events_def REPLAY_LIMIT_def List.map_filter_def)

abbreviation (input) sample_relay :: "db \<Rightarrow> int option \<Rightarrow> note_row list \<Rightarrow> note_row list \<Rightarrow> client_link \<Rightarrow> relay" where
  "sample_relay d l page sent link \<equiv> \<lparr>rl_db = d, rl_last_id = l, rl_page = page, rl_sent = sent, rl_link = link,
     rl_last_event = None, rl_received = []\<rparr>"

abbreviation (input) sample_step :: "bool \<Rightarrow> relay \<Rightarrow> relay \<Rightarrow> bool" where
  "sample_step patient \<equiv> relay_step patient sample_hex_encode (V4 1) 0 None"

lemma sample_connects:
  assumes "patient \<longrightarrow> l \<noteq> None"
  shows "reachable (sample_step patient) (sample_relay empty_db l [] [] Away) (sample_relay one_note_db l [] [] (Live 0 [] 0 None))"
proof -
  have "sample_step patient (sample_relay empty_db l [] [] Away) (sample_relay empty_db l [] [] (Subscribed 0))"
    using relay_step.subscribe[of "sample_relay empty_db l [] [] Away" patient] assms by simp
  moreover have "sample_step patient (sample_relay empty_db l [] [] (Subscribed 0)) (sample_relay empty_db l [] [] (Live 0 [] 0 None))"
    using relay_step.answer[of "sample_relay empty_db l [] [] (Subscribed 0)" 0] empty_answer by fastforce
  moreover have "sample_step patient (sample_relay empty_db l [] [] (Live 0 [] 0 None)) (sample_relay one_note_db l [] [] (Live 0 [] 0 None))"
    using relay_step.index[of patient sample_hex_encode "V4 1" 0 None "sample_relay empty_db l [] [] (Live 0 [] 0 None)" "(None, None)" "''A''" 7 "''t''"
        "EncryptedNote [] [] []"] by (simp only: one_note_db_def relay.simps)
  ultimately show ?thesis by (meson reachable.intros)
qed

text \<open>
  A client that connects before the first query of the fan-out can miss a note for good, without a
  \<open>resync\<close>: the note is stored after the client's replay, and the query starts the fan-out behind it.
\<close>

lemma early_client_misses_a_note:
  defines "s \<equiv> sample_relay one_note_db (Some 1) [] [] (Live 0 [] 0 None)"
  shows "reachable (sample_step False) (relay_start empty_db) s"
    and "caught_up s" "encrypted_notes (rl_db s) = [sample_note 1 ''A'']" "rl_received s = []"
proof -
  have "sample_step False (sample_relay one_note_db None [] [] (Live 0 [] 0 None)) s"
    using relay_step.first_query[of "sample_relay one_note_db None [] [] (Live 0 [] 0 None)" False sample_hex_encode "V4 1" 0 None None]
    by (simp add: s_def initial_last_id_def one_note sample_note_def)
  then show "reachable (sample_step False) (relay_start empty_db) s"
    using sample_connects[of False None] unfolding relay_start_def by (meson reachable.next_step)
  show "caught_up s" "encrypted_notes (rl_db s) = [sample_note 1 ''A'']" "rl_received s = []"
    by (simp_all add: s_def caught_up_def one_note sample_note_def)
qed

definition served :: relay where
  "served = \<lparr>rl_db = one_note_db, rl_last_id = Some 1, rl_page = [], rl_sent = [sample_note 1 ''A''], rl_link = Live 1 [] 1 None,
     rl_last_event = Some (show_int 1), rl_received = [event_of sample_hex_encode (sample_note 1 ''A'')]\<rparr>"

lemma served_run: "reachable (sample_step True) (relay_start empty_db) served"
proof -
  let ?n = "sample_note 1 ''A''"
  let ?link = "Live 0 [] 0 None"
  have a: "reachable (sample_step True) (relay_start empty_db) (sample_relay empty_db (Some 0) [] [] Away)"
    using relay_step.first_query[of "relay_start empty_db" True sample_hex_encode "V4 1" 0 None None]
    by (intro reachable_one) (simp add: relay_start_def initial_last_id_def empty_db_def)
  have b: "reachable (sample_step True) (sample_relay empty_db (Some 0) [] [] Away) (sample_relay one_note_db (Some 0) [] [] ?link)"
    by (rule sample_connects) simp
  have c: "reachable (sample_step True) (sample_relay one_note_db (Some 0) [] [] ?link)
      (sample_relay one_note_db (Some 1) [] [?n] ?link)"
    using drain_run[of "[(None, one_note_db)]" 0 1 "[?n]" "sample_relay one_note_db (Some 0) [] [] ?link"]
    by (simp add: one_note query_after_def select_by_def sample_note_def DRAIN_PAGE_def)
  have d: "reachable (sample_step True) (sample_relay one_note_db (Some 1) [] [?n] ?link) served"
  proof (rule reachable_one)
    have "live_step sample_hex_encode None 0 (Note ?n) = (1, Some (event_of sample_hex_encode ?n))" "e_id ?n = 1"
      by (simp_all add: live_step_def pool_in_def) (simp_all add: sample_note_def)
    then show "sample_step True (sample_relay one_note_db (Some 1) [] [?n] ?link) served"
      using relay_step.live[of "sample_relay one_note_db (Some 1) [] [?n] ?link" 0 0 None "Note ?n" 1 sample_hex_encode 1
          "Some (event_of sample_hex_encode ?n)" True "V4 1" 0 None]
      by (simp add: recv_def CHANNEL_CAPACITY_def served_def take_event_def)
  qed
  show ?thesis by (rule reachable_trans[OF a reachable_trans[OF b reachable_trans[OF c d]]])
qed


end
