(* ===== verification/CatchUp.thy ===== *)
theory CatchUp
  imports Relay
begin

text \<open>
  Progress of the note relay: wherever the indexer, the fan-out and the connection of a client
  stand, a run of the fan-out and one new connection bring the client up to date.
\<close>

section \<open>Runs that bring a client up to date\<close>

text \<open>The fan-out sends what it has read, then drains; the client is away meanwhile.\<close>

definition settled :: "relay \<Rightarrow> bool" where
  "settled s \<longleftrightarrow> rl_link s = Away \<and> rl_page s = []
     \<and> (\<exists>l. rl_last_id s = Some l \<and> (\<forall>n \<in> set (encrypted_notes (rl_db s)). e_id n \<le> l))"

definition same_client :: "relay \<Rightarrow> relay \<Rightarrow> bool" where
  "same_client s s' \<longleftrightarrow> rl_db s' = rl_db s \<and> rl_received s' = rl_received s \<and> rl_last_event s' = rl_last_event s"

lemma drain_reaches_end:
  assumes "notes_ok d"
  obtains l' sent where "drain_new_notes (replicate (Suc (length (encrypted_notes d))) (None, d)) l = Some (l', sent)"
    "\<forall>n \<in> set (encrypted_notes d). e_id n \<le> l'"
proof -
  let ?T = "encrypted_notes d" and ?n = "Suc (length (encrypted_notes d))"
  have "length (filter (\<lambda>m. l < e_id m) ?T) < ?n * 1000"
    by (rule le_less_trans[OF length_filter_le]) simp
  from drain_catches_up[OF assms this] obtain l' where
      run: "drain_new_notes (replicate ?n (None, d)) l = Some (l', filter (\<lambda>m. l < e_id m) ?T)"
    by (auto simp: map_option_eq_Some)
  have "sends_exactly ?T l (drain_new_notes (replicate ?n (None, d)) l)"
    using assms by (intro drain_sends_exactly) (auto simp: notes_ok_def list_all_iff prefix_of_def)
  then have "l \<le> l'" "filter (\<lambda>m. l < e_id m) ?T = between l l' ?T"
    using run by (simp_all add: sends_exactly_def)
  then have "e_id n \<le> l'" if "n \<in> set ?T" for n
  proof (cases "l < e_id n")
    case True
    then have "n \<in> set (filter (\<lambda>m. l < e_id m) ?T)" using that by simp
    then show ?thesis unfolding \<open>filter _ _ = _\<close> by (simp add: between_def)
  qed (use \<open>l \<le> l'\<close> in simp)
  then show thesis using that run by blast
qed

lemma settles:
  assumes "relay_inv hex_encode since pool s ns"
  shows "\<exists>s'. reachable (relay_step True hex_encode ip since pool) s s' \<and> settled s' \<and> same_client s s'"
proof -
  let ?step = "relay_step True hex_encode ip since pool"
  let ?s0 = "s\<lparr>rl_link := Away\<rparr>"
  have table: "notes_ok (rl_db s)" and fan: "fan_out_ok (rl_last_id s) (rl_page s) (rl_sent s) (rl_db s)"
    using assms by (simp_all add: relay_inv_def notes_table_ok_def)
  have away: "reachable ?step s ?s0" by (rule reachable_one) (rule relay_step.disconnect)
  show ?thesis
  proof (cases "rl_last_id s")
    case None
    let ?s1 = "?s0\<lparr>rl_last_id := Some (initial_last_id None (rl_db s))\<rparr>"
    have "?step ?s0 ?s1" using relay_step.first_query[of ?s0 True hex_encode ip since pool None] None by simp
    moreover have "settled ?s1"
      using fan None by (auto simp: settled_def fan_out_ok_def initial_last_id_def)
    ultimately show ?thesis
      using reachable_trans[OF away reachable_one] by (intro exI[of _ ?s1]) (simp add: same_client_def)
  next
    case (Some l)
    define l1 where "l1 = (if rl_page s = [] then l else e_id (last (rl_page s)))"
    let ?s1 = "?s0\<lparr>rl_page := [], rl_last_id := Some l1, rl_sent := rl_sent s @ rl_page s\<rparr>"
    have page: "reachable ?step ?s0 ?s1"
      using send_page_run[of ?s0 l "rl_page s" True hex_encode ip since pool] Some by (simp add: l1_def)
    obtain l' sent where drain: "drain_new_notes (replicate (Suc (length (encrypted_notes (rl_db s)))) (None, rl_db s)) l1 = Some (l', sent)"
      and top: "\<forall>n \<in> set (encrypted_notes (rl_db s)). e_id n \<le> l'"
      by (rule drain_reaches_end[OF table])
    let ?s2 = "?s1\<lparr>rl_last_id := Some l', rl_sent := rl_sent ?s1 @ sent\<rparr>"
    have "reachable ?step ?s1 ?s2" by (rule drain_run[OF drain]) simp_all
    then have "reachable ?step s ?s2" using reachable_trans[OF away reachable_trans[OF page]] by blast
    then show ?thesis using top by (intro exI[of _ ?s2]) (simp add: settled_def same_client_def)
  qed
qed

text \<open>The events that are pending reach the client one by one.\<close>

lemma delivers:
  "rl_link s = Live pos pending last_seen pools \<Longrightarrow>
   \<exists>s'. reachable (relay_step patient hex_encode ip since pool) s s' \<and> rl_link s' = Live pos [] last_seen pools
     \<and> rl_received s' = rl_received s @ pending \<and> rl_db s' = rl_db s \<and> rl_sent s' = rl_sent s \<and> rl_last_id s' = rl_last_id s"
proof (induction pending arbitrary: s)
  case Nil
  then show ?case using reachable.start by fastforce
next
  case (Cons ev pending)
  let ?s1 = "(take_event ev s)\<lparr>rl_link := Live pos pending last_seen pools\<rparr>"
  have "relay_step patient hex_encode ip since pool s ?s1" by (rule relay_step.replay[OF Cons.prems])
  moreover obtain s' where "reachable (relay_step patient hex_encode ip since pool) ?s1 s'" "rl_link s' = Live pos [] last_seen pools"
      "rl_received s' = rl_received ?s1 @ pending" "rl_db s' = rl_db s" "rl_sent s' = rl_sent s" "rl_last_id s' = rl_last_id s"
    using Cons.IH[of ?s1] by auto
  ultimately show ?case using reachable_trans[OF reachable_one] by (intro exI[of _ s']) auto
qed

lemma slot_is_free: "sse_try_acquire ip (new_slots 1 1) = (fst (sse_try_acquire ip (new_slots 1 1)), True)"
  by (simp add: sse_try_acquire_def sse_global_full_def sse_count_ip_def new_slots_def)

text \<open>A connection of a settled relay is caught up after its replay.\<close>

lemma connects_and_catches_up:
  assumes "relay_inv hex_encode since pool s ns" "settled s" "ids_in_range s"
  shows "\<exists>s'. reachable (relay_step True hex_encode ip since pool) s s' \<and> rl_db s' = rl_db s \<and> caught_up s'
    \<and> rl_received s' = rl_received s @ replay_events hex_encode (replay_rows (map_option csv pool) (cursor_after since ns) (rl_db s))"
proof -
  let ?step = "relay_step True hex_encode ip since pool"
  define rows where "rows = replay_rows (map_option csv pool) (cursor_after since ns) (rl_db s)"
  define last_seen where "last_seen = (if rows = [] then cursor_after since ns else e_id (last rows))"
  let ?pos = "length (rl_sent s)"
  let ?s1 = "s\<lparr>rl_link := Subscribed ?pos\<rparr>"
  let ?s2 = "s\<lparr>rl_link := Live ?pos (replay_events hex_encode rows) last_seen (map_option csv pool)\<rparr>"
  obtain l where away: "rl_link s = Away" and l: "rl_last_id s = Some l" "\<forall>n \<in> set (encrypted_notes (rl_db s)). e_id n \<le> l"
    using assms(2) by (auto simp: settled_def)
  have "client_ok hex_encode since (rl_received s) (rl_last_event s) ns"
    "covers since pool (told s) (rl_db s) ns (cursor_after since ns)"
    using assms(1) by (simp_all add: relay_inv_def)
  then have resume: "resume_from (rl_last_event s) (Some since) = Some (cursor_after since ns)"
    using resumed_at client_in_range[OF assms(3)] by blast
  obtain sl' where slot: "sse_try_acquire ip (new_slots 1 1) = (sl', True)" using slot_is_free by blast
  have "stream_notes hex_encode ip (rl_last_event s) (Some since) pool None (rl_db s) (new_slots 1 1)
      = (sl', Inr (replay_events hex_encode rows, last_seen, map_option csv pool))"
    unfolding stream_notes_def slot resume by (simp add: Let_def rows_def last_seen_def)
  then have ans: "?step ?s1 ?s2"
    using relay_step.answer[of ?s1 ?pos hex_encode ip since pool None "new_slots 1 1" sl'] by fastforce
  have sub: "?step s ?s1" by (rule relay_step.subscribe) (simp_all add: away l)
  obtain s' where run: "reachable ?step ?s2 s'" and s': "rl_link s' = Live ?pos [] last_seen (map_option csv pool)"
      "rl_received s' = rl_received s @ replay_events hex_encode rows" "rl_db s' = rl_db s" "rl_sent s' = rl_sent s" "rl_last_id s' = Some l"
    using delivers[of ?s2 ?pos "replay_events hex_encode rows" last_seen "map_option csv pool" True hex_encode ip since pool] l by auto
  have "reachable ?step s s'"
    by (rule reachable_trans, rule reachable_one, rule sub, rule reachable_trans, rule reachable_one, rule ans, rule run)
  moreover have "caught_up s'" using s' l by (simp add: caught_up_def list_all_iff)
  ultimately show ?thesis using s' rows_def by blast
qed

section \<open>Progress\<close>

lemma length_filter_imp: "(\<And>x. P x \<Longrightarrow> Q x) \<Longrightarrow> length (filter P xs) \<le> length (filter Q xs)"
  by (induction xs) auto


text \<open>The witness: the note was indexed after the client's replay and is not sent yet.\<close>

definition waiting :: relay where
  "waiting = \<lparr>rl_db = one_note_db, rl_last_id = Some 0, rl_page = [], rl_sent = [], rl_link = Live 0 [] 0 None,
     rl_last_event = None, rl_received = []\<rparr>"

lemma waiting_run: "reachable (relay_step True sample_hex_encode (V4 1) 0 None) (relay_start empty_db) waiting"
proof -
  have "relay_step True sample_hex_encode (V4 1) 0 None (relay_start empty_db) ((relay_start empty_db)\<lparr>rl_last_id := Some 0\<rparr>)"
    using relay_step.first_query[of "relay_start empty_db" True sample_hex_encode "V4 1" 0 None None]
    by (simp add: relay_start_def initial_last_id_def empty_db_def)
  moreover have "reachable (relay_step True sample_hex_encode (V4 1) 0 None) ((relay_start empty_db)\<lparr>rl_last_id := Some 0\<rparr>) waiting"
    using sample_connects[of True "Some 0"] by (simp add: relay_start_def waiting_def)
  ultimately show ?thesis by (rule reachable_trans[OF reachable_one])
qed


end
