(* ===== verification/ApiMain.thy ===== *)
theory ApiMain
  imports Stack
begin

text \<open>
  The API process from its environment to its answers: \<open>main\<close> of \<open>crates/attesta-api/src/main.rs\<close>.
  A replica that has started serves requests through its stack, while the indexer, the sweeper
  and the other replicas take steps of \<open>System\<close> in between.
\<close>

section \<open>A running replica\<close>

record process =
  pc_system :: system
  pc_buckets :: app_buckets
  pc_stats :: stats_cache
  pc_slots :: sse_slots
  pc_series :: series
  pc_log :: "(web_request \<times> http_response) list"   \<comment> \<open>the answers so far\<close>
  pc_up :: bool

text \<open>Replica \<open>i\<close> of the system \<open>s\<close> starts, with the state that \<open>main\<close> has built.\<close>

definition start_process :: "nat \<Rightarrow> system \<Rightarrow> app_state \<Rightarrow> process" where
  "start_process i s st = \<lparr>pc_system = s\<lparr>sys_trees := (sys_trees s)(i := as_trees st), sys_pending := (sys_pending s)(i := None)\<rparr>,
     pc_buckets = \<lparr>read_buckets = as_read_buckets st, write_buckets = as_write_buckets st\<rparr>,
     pc_stats = as_stats_cache st, pc_slots = as_sse_slots st, pc_series = Map.empty, pc_log = [], pc_up = True\<rparr>"

text \<open>What the handlers of replica \<open>i\<close> see, and what they leave.\<close>

definition view :: "nat \<Rightarrow> process \<Rightarrow> api_state" where
  "view i w = \<lparr>ap_db = sys_db (pc_system w), ap_trees = sys_trees (pc_system w) i, ap_stats_cache = pc_stats w,
     ap_slots = pc_slots w\<rparr>"

definition put_back :: "nat \<Rightarrow> api_state \<Rightarrow> process \<Rightarrow> process" where
  "put_back i st w = w\<lparr>pc_system := (pc_system w)\<lparr>sys_db := ap_db st, sys_trees := (sys_trees (pc_system w))(i := ap_trees st)\<rparr>,
     pc_stats := ap_stats_cache st, pc_slots := ap_slots st\<rparr>"

text \<open>The code of other crates that the stack is built from.\<close>

record 'k stack_lib =
  sk_api :: "'k api_lib"
  sk_from_slice :: "byte list \<Rightarrow> json option"
  sk_to_vec :: "json \<Rightarrow> byte list option"
  sk_header_value :: "string \<Rightarrow> string option"
  sk_limit :: "nat \<Rightarrow> (unit, (app_buckets \<times> api_state option) \<times> series) web_layer"
  sk_trace :: "(unit, (app_buckets \<times> api_state option) \<times> series) web_layer"
  sk_cors :: "allow_origin \<Rightarrow> (unit, (app_buckets \<times> api_state option) \<times> series) web_layer"
  sk_fallback :: "web_request \<Rightarrow> http_response"
  sk_extract :: "unit web_request_ext extractor"

definition stack_of :: "'k::linorder stack_lib \<Rightarrow> config \<Rightarrow> allow_origin option \<Rightarrow> (web_request \<Rightarrow> api_world)
    \<Rightarrow> (unit, (app_buckets \<times> api_state option) \<times> series) web_service" where
  "stack_of sk cfg policy world =
     app_stack (sk_from_slice sk) (sk_to_vec sk) (sk_header_value sk) (sk_limit sk) (sk_trace sk) (sk_cors sk) policy
       (router_service (sk_to_vec sk) (sk_fallback sk) (api_handler (sk_api sk) cfg (sk_extract sk) world))"

text \<open>What their documentation promises, as in \<open>Stack\<close> and \<open>Api\<close>.\<close>

definition stack_ok :: "'k stack_lib \<Rightarrow> bool" where
  "stack_ok sk \<longleftrightarrow> header_value_ok (sk_header_value sk) \<and> serde_ok (sk_from_slice sk) (sk_to_vec sk)
     \<and> limit_ok (sk_limit sk) \<and> cors_ok (sk_cors sk) \<and> trace_ok (sk_trace sk) \<and> extractor_ok (sk_extract sk)"

section \<open>Steps\<close>

text \<open>
  A request to replica \<open>i\<close> that nothing interrupts, or any step of the rest of the system.  What the
  request meets, \<open>world\<close>, is arbitrary; \<open>Uuid::new_v4\<close> renders as graphic characters.
\<close>

inductive process_step :: "event_lib \<Rightarrow> 'k::linorder stack_lib \<Rightarrow> config \<Rightarrow> allow_origin option \<Rightarrow> nat \<Rightarrow> process \<Rightarrow> process \<Rightarrow> bool"
  for evlib :: event_lib and sk :: "'k::linorder stack_lib" and cfg :: config and policy :: "allow_origin option" and i :: nat where
  request: "pc_up w \<Longrightarrow> sys_pending (pc_system w) i = None \<Longrightarrow> list_all is_ascii_graphic (wr_uuid rq) \<Longrightarrow>
     stack_of sk cfg policy world rq ((pc_buckets w, Some (view i w)), pc_series w) = (((app, state), series), out) \<Longrightarrow>
     process_step evlib sk cfg policy i w
       ((case state of None \<Rightarrow> w\<lparr>pc_up := False\<rparr> | Some st \<Rightarrow> put_back i st w)
         \<lparr>pc_buckets := app, pc_series := series, pc_log := pc_log w @ [(rq, out)]\<rparr>)"
| others: "system_step evlib (al_hasher (sk_api sk)) (pc_system w) s \<Longrightarrow>
     process_step evlib sk cfg policy i w (w\<lparr>pc_system := s\<rparr>)"

section \<open>One request through the stack\<close>

lemma serve_state:
  assumes "serve (api_handler lib cfg extract world) rq (app, Some st) = ((app', Some st'), r)"
  shows "st' = st \<or> (\<exists>call r'. handle lib cfg (world rq) st call = Some (st', r'))"
proof -
  have h: "st2 = st \<or> (\<exists>call r'. handle lib cfg (world rq) st call = Some (st2, r'))"
    if "api_handler lib cfg extract world e rq (Some st) = (Some st2, r2)" for e st2 r2
    using that by (auto simp: api_handler_def split: sum.splits option.splits)
  show ?thesis
    using assms h by (auto simp: serve_def limit_requests_def split: option.splits prod.splits sum.splits budget.splits)
qed

lemma serve_total:
  assumes "extractor_ok extract" "api_ok lib st"
  shows "\<exists>app' st' r. serve (api_handler lib cfg extract world) rq (app, Some st) = ((app', Some st'), r)"
proof (cases "route (rq_method rq) (rq_path rq)")
  case None
  then show ?thesis by (simp add: serve_def)
next
  case (Some e)
  then have "route (rq_method rq) (rq_path rq) \<noteq> None" by simp
  from api_serves[OF assms this] show ?thesis by blast
qed

definition follows :: "'k::linorder api_lib \<Rightarrow> config \<Rightarrow> api_state \<Rightarrow> api_state \<Rightarrow> bool" where
  "follows lib cfg st st' \<longleftrightarrow> st' = st \<or> (\<exists>w call r. handle lib cfg w st call = Some (st', r))"

lemma inner_state:
  assumes "limit_ok body_limit" "extractor_ok extract" "api_ok lib st"
    and "body_limit BODY_LIMIT (track_layer (router_service to_vec fallback (api_handler lib cfg extract world))) rq
      ((app, Some st), counter) = (((app', state'), counter'), r)"
  shows "\<exists>st'. state' = Some st' \<and> follows lib cfg st st'
    \<and> (\<exists>code. counter' \<in> {counter, track_requests (matched_path (rq_path rq), wr_verb rq, code) counter})"
proof (cases "\<exists>l. wr_content_length rq = Some l \<and> l > BODY_LIMIT")
  case True
  from limit_okD(1)[OF assms(1) True] assms(4) have "((app', state'), counter') = ((app, Some st), counter)"
    by (metis fst_conv)
  then show ?thesis by (simp add: follows_def)
next
  case False
  obtain app1 st1 r1 where s: "serve (api_handler lib cfg extract world) rq (app, Some st) = ((app1, Some st1), r1)"
    using serve_total[OF assms(2,3)] by blast
  from limit_okD(2)[OF assms(1) False] assms(4)
  have "track_layer (router_service to_vec fallback (api_handler lib cfg extract world)) rq ((app, Some st), counter)
      = (((app', state'), counter'), r)" by metis
  then have "state' = Some st1" "\<exists>code. counter' = track_requests (matched_path (rq_path rq), wr_verb rq, code) counter"
    using s by (auto simp: track_layer_def router_service_def split: option.splits)
  then show ?thesis using serve_state[OF s] by (auto simp: follows_def)
qed

lemma stack_state:
  assumes "stack_ok sk" "api_ok (sk_api sk) st"
    and "stack_of sk cfg policy world rq ((app, Some st), counter) = (((app', state'), counter'), out)"
  shows "\<exists>st'. state' = Some st' \<and> follows (sk_api sk) cfg st st'
    \<and> (\<exists>code. counter' \<in> {counter, track_requests (matched_path (rq_path rq), wr_verb rq, code) counter})"
proof -
  let ?router = "router_service (sk_to_vec sk) (sk_fallback sk) (api_handler (sk_api sk) cfg (sk_extract sk) world)"
  let ?s = "((app, Some st), counter)"
  note ok = assms(1)[unfolded stack_ok_def]
  show ?thesis
  proof (cases "policy = None \<or> wr_verb rq \<noteq> ''OPTIONS''")
    case False
    then obtain p where "policy = Some p" "wr_verb rq = ''OPTIONS''" by auto
    moreover from this ok have "fst (sk_cors sk p inner rq ?s) = ?s" for inner
      unfolding cors_ok_def by blast
    ultimately have "fst (stack_of sk cfg policy world rq ?s) = ?s"
      by (simp add: stack_of_def app_stack_def Let_def)
    then have "((app', state'), counter') = ?s" unfolding assms(3) by simp
    then show ?thesis by (simp add: follows_def)
  next
    case True
    obtain s' r where b: "sk_limit sk BODY_LIMIT (track_layer ?router) rq ?s = (s', r)" by (metis prod.collapse)
    from ok have l: "cors_ok (sk_cors sk)" "trace_ok (sk_trace sk)" "limit_ok (sk_limit sk)" "extractor_ok (sk_extract sk)"
      by simp_all
    obtain extra where "HEADER \<notin> fst ` set extra"
      "app_stack (sk_from_slice sk) (sk_to_vec sk) (sk_header_value sk) (sk_limit sk) (sk_trace sk) (sk_cors sk) policy ?router rq ?s
      = (let out = attach_request_id (sk_from_slice sk) (sk_to_vec sk) (sk_header_value sk) (wr_uuid rq) (wr_request_id rq) r
         in (s', out\<lparr>h_headers := h_headers out @ extra\<rparr>))"
      by (rule app_stack_inner[where trace = "sk_trace sk" and router = ?router and rq = rq and s = ?s and body_limit = "sk_limit sk",
            OF l(1) True l(2) b]) blast
    then have "s' = ((app', state'), counter')" using assms(3) by (simp add: stack_of_def Let_def)
    with b have b: "sk_limit sk BODY_LIMIT (track_layer ?router) rq ?s = (((app', state'), counter'), r)" by simp
    show ?thesis by (rule inner_state[OF l(3,4) assms(2) b])
  qed
qed

text \<open>What the client of a logged request got, unless the CORS layer answered its preflight.\<close>

definition answered :: "'k::linorder stack_lib \<Rightarrow> allow_origin option \<Rightarrow> web_request \<times> http_response \<Rightarrow> bool" where
  "answered sk policy = (\<lambda>(rq, out).
     let request_id = choose_id (wr_uuid rq) (wr_request_id rq)
     in policy = None \<or> wr_verb rq \<noteq> ''OPTIONS'' \<longrightarrow>
          filter (\<lambda>h. fst h = HEADER) (h_headers out) = [(HEADER, request_id)]
          \<and> (route (rq_method rq) (rq_path rq) \<noteq> None \<longrightarrow> h_status out \<in> {500..<600} \<longrightarrow>
               (\<exists>obj. h_body out = sk_to_vec sk (JObj obj) \<and> map_of obj ''request_id'' = Some (JStr request_id)
                  \<and> map_of obj ''error'' \<in> {None, Some (JStr ''internal error'')}))
          \<and> ((\<exists>l. wr_content_length rq = Some l \<and> l > 262144) \<longrightarrow> h_status out = 413))"

lemma stack_answered:
  assumes "stack_ok sk" "api_ok (sk_api sk) st" "list_all is_ascii_graphic (wr_uuid rq)"
    and "stack_of sk cfg policy world rq ((app, Some st), counter) = (s', out)"
  shows "answered sk policy (rq, out)"
proof (cases "policy = None \<or> wr_verb rq \<noteq> ''OPTIONS''")
  case True
  from assms(1) have ok: "header_value_ok (sk_header_value sk)" "serde_ok (sk_from_slice sk) (sk_to_vec sk)"
    "limit_ok (sk_limit sk)" "cors_ok (sk_cors sk)" "trace_ok (sk_trace sk)" "extractor_ok (sk_extract sk)"
    by (simp_all add: stack_ok_def)
  note a = stack_answers[OF ok(1,2) assms(3) ok(3-5) True ok(6) assms(2), where cfg = cfg and world = world
      and fallback = "sk_fallback sk" and app = app and counter = counter]
  obtain app' st' counter' out' where
    o: "stack_of sk cfg policy world rq ((app, Some st), counter) = (((app', Some st'), counter'), out')"
    and c: "filter (\<lambda>h. fst h = HEADER) (h_headers out') = [(HEADER, choose_id (wr_uuid rq) (wr_request_id rq))]"
      "route (rq_method rq) (rq_path rq) \<noteq> None \<longrightarrow> h_status out' \<in> {500..<600} \<longrightarrow> (\<exists>obj. h_body out' = sk_to_vec sk (JObj obj)
          \<and> map_of obj ''request_id'' = Some (JStr (choose_id (wr_uuid rq) (wr_request_id rq)))
          \<and> map_of obj ''error'' \<in> {None, Some (JStr ''internal error'')})"
      "(\<exists>l. wr_content_length rq = Some l \<and> l > 262144) \<longrightarrow> h_status out' = 413 \<and> app' = app \<and> st' = st"
    using a unfolding stack_of_def by blast
  have "out' = out" using assms(4) o by simp
  then show ?thesis unfolding answered_def Let_def split_beta using c by simp
qed (auto simp: answered_def Let_def)

section \<open>What holds of a running replica\<close>

text \<open>A series counts requests that were served: its route is a pattern of the router, its method theirs.\<close>

definition series_served :: "process \<Rightarrow> bool" where
  "series_served w \<longleftrightarrow> (\<forall>labels \<in> dom (pc_series w). \<exists>(rq, out) \<in> set (pc_log w). \<exists>code.
     labels = request_labels (matched_path (rq_path rq)) (wr_verb rq) code)"

definition process_ok :: "'k::linorder stack_lib \<Rightarrow> allow_origin option \<Rightarrow> process \<Rightarrow> bool" where
  "process_ok sk policy w \<longleftrightarrow> pc_up w \<and> system_ok (al_hasher (sk_api sk)) (pc_system w)
     \<and> (\<forall>x \<in> set (pc_log w). answered sk policy x) \<and> series_served w"

definition moves :: "event_lib \<Rightarrow> 'k::linorder stack_lib \<Rightarrow> process \<Rightarrow> process \<Rightarrow> bool" where
  "moves evlib sk w w' \<longleftrightarrow> reachable (system_step evlib (al_hasher (sk_api sk))) (pc_system w) (pc_system w')"

lemma follows_run:
  assumes "follows (sk_api sk) cfg (view i w) st'" "sys_pending (pc_system w) i = None"
  shows "reachable (system_step evlib (al_hasher (sk_api sk))) (pc_system w) (pc_system (put_back i st' w))"
proof -
  have p: "pc_system (put_back i st' w)
      = (pc_system w)\<lparr>sys_db := ap_db st', sys_trees := (sys_trees (pc_system w))(i := ap_trees st')\<rparr>"
    by (simp add: put_back_def)
  from assms(1) consider "st' = view i w" | w0 call r where "handle (sk_api sk) cfg w0 (view i w) call = Some (st', r)"
    unfolding follows_def by blast
  then show ?thesis
  proof cases
    case 1
    then have "pc_system (put_back i st' w) = pc_system w" unfolding p by (simp add: view_def)
    then show ?thesis by (simp add: reachable.start)
  next
    case 2
    show ?thesis unfolding p by (rule handle_run[OF 2 assms(2)]) (simp_all add: view_def)
  qed
qed

lemma system_ok_view:
  "system_ok (al_hasher (sk_api sk)) (pc_system w) \<Longrightarrow> api_ok (sk_api sk) (view i w)"
  by (simp add: system_ok_def api_ok_def view_def)

lemma process_request:
  assumes "stack_ok sk" "lib_ok evlib" "process_ok sk policy w" "sys_pending (pc_system w) i = None"
    and "list_all is_ascii_graphic (wr_uuid rq)"
    and "stack_of sk cfg policy world rq ((pc_buckets w, Some (view i w)), pc_series w) = (((app, state), counter), out)"
  obtains st' where "state = Some st'" "moves evlib sk w (put_back i st' w)"
    "process_ok sk policy ((put_back i st' w)\<lparr>pc_buckets := app, pc_series := counter, pc_log := pc_log w @ [(rq, out)]\<rparr>)"
proof -
  from assms(3) have ok: "pc_up w" "system_ok (al_hasher (sk_api sk)) (pc_system w)"
    "\<forall>x \<in> set (pc_log w). answered sk policy x" "series_served w"
    by (simp_all add: process_ok_def)
  note v = system_ok_view[OF ok(2), of i]
  obtain st' code where s: "state = Some st'" "follows (sk_api sk) cfg (view i w) st'"
      "counter \<in> {pc_series w, track_requests (matched_path (rq_path rq), wr_verb rq, code) (pc_series w)}"
    using stack_state[OF assms(1) v assms(6)] by blast
  have m: "moves evlib sk w (put_back i st' w)"
    unfolding moves_def by (rule follows_run[OF s(2) assms(4)])
  then have sys: "system_ok (al_hasher (sk_api sk)) (pc_system (put_back i st' w))"
    using system.reachable_ok[OF _ conjI[OF assms(2) ok(2)]] unfolding moves_def by blast
  have ans: "answered sk policy (rq, out)" by (rule stack_answered[OF assms(1) v assms(5,6)])
  have dom: "dom counter \<subseteq> insert (request_labels (matched_path (rq_path rq)) (wr_verb rq) code) (dom (pc_series w))"
    using s(3) dom_track_one[of "(matched_path (rq_path rq), wr_verb rq, code)" "pc_series w"]
    by (elim insertE) (simp_all add: labels_of_def subset_insertI)
  let ?w = "(put_back i st' w)\<lparr>pc_buckets := app, pc_series := counter, pc_log := pc_log w @ [(rq, out)]\<rparr>"
  have "\<exists>(rq', out') \<in> set (pc_log w @ [(rq, out)]). \<exists>code. labels = request_labels (matched_path (rq_path rq')) (wr_verb rq') code"
    if "labels \<in> dom counter" for labels
  proof (cases "labels \<in> dom (pc_series w)")
    case True
    then show ?thesis using ok(4) unfolding series_served_def by fastforce
  next
    case False
    then show ?thesis using dom that by auto
  qed
  then have "series_served ?w" unfolding series_served_def by simp
  moreover have "pc_up (put_back i st' w)" using ok(1) by (simp add: put_back_def)
  ultimately have "process_ok sk policy ?w"
    using sys ans ok(3) by (auto simp: process_ok_def)
  with s(1) m that show thesis by blast
qed


lemma process_keeps:
  assumes "process_step evlib sk cfg policy i w w'" "stack_ok sk" "lib_ok evlib" "process_ok sk policy w"
  shows "process_ok sk policy w' \<and> moves evlib sk w w'"
  using assms(1)
proof cases
  case (request rq world app state counter out)
  obtain st' where "state = Some st'" "moves evlib sk w (put_back i st' w)"
    "process_ok sk policy ((put_back i st' w)\<lparr>pc_buckets := app, pc_series := counter, pc_log := pc_log w @ [(rq, out)]\<rparr>)"
    by (rule process_request[OF assms(2-4) request(3,4,5)])
  then show ?thesis unfolding request(1) by (simp add: moves_def)
next
  case (others s)
  have m: "moves evlib sk w w'" unfolding moves_def others(1) by (simp, rule reachable_one, rule others(2))
  then have "system_ok (al_hasher (sk_api sk)) (pc_system w')"
    using system.reachable_ok assms(3,4) unfolding moves_def process_ok_def by blast
  then show ?thesis using m assms(4) unfolding others(1) by (simp add: process_ok_def series_served_def)
qed

lemma moves_refl: "moves evlib sk w w"
  by (simp add: moves_def reachable.start)

lemma moves_trans: "moves evlib sk w w' \<Longrightarrow> moves evlib sk w' w'' \<Longrightarrow> moves evlib sk w w''"
  unfolding moves_def by (rule reachable_trans)

text \<open>A server that its environment keeps to its word: the laws of \<open>step_invariant\<close> once more.\<close>

interpretation replica: step_invariant
  "\<lambda>w w'. process_step evlib sk cfg policy i w w'"
  "\<lambda>w. stack_ok sk \<and> lib_ok evlib \<and> process_ok sk policy w"
  "moves evlib sk"
  by unfold_locales (auto intro: moves_refl moves_trans dest: process_keeps)

lemma boot_state:
  assumes "boot env attempt_result migrated recorder parse_origin bound = Some (Inr (st, policy))"
  shows "st = init_state (as_config st)" "from_env env = Inr (as_config st)"
  using assms by (auto simp: boot_def init_state_def Let_def split: option.splits sum.splits)

lemma started_ok:
  assumes "st = init_state c" "lib_ok evlib" "system_ok (al_hasher (sk_api sk)) s"
  shows "process_ok sk policy (start_process i s st)"
    "reachable (system_step evlib (al_hasher (sk_api sk))) s (pc_system (start_process i s st))"
proof -
  have t: "as_trees st = Map.empty" using assms(1) by (simp add: init_state_def Let_def)
  show r: "reachable (system_step evlib (al_hasher (sk_api sk))) s (pc_system (start_process i s st))"
    unfolding start_process_def t process.simps by (rule reachable_one, rule system_step.restart)
  then have "system_ok (al_hasher (sk_api sk)) (pc_system (start_process i s st))"
    using system.reachable_ok assms(2,3) by blast
  then show "process_ok sk policy (start_process i s st)"
    by (simp add: process_ok_def series_served_def start_process_def)
qed




text \<open>The witness: a request for a path while the database refuses connections.\<close>

definition sample_stack :: "nat stack_lib" where
  "sample_stack = \<lparr>sk_api = sample_api_lib, sk_from_slice = parse_failure, sk_to_vec = code_failure, sk_header_value = Some,
     sk_limit = plain_limit, sk_trace = (\<lambda>inner. inner), sk_cors = plain_cors,
     sk_fallback = (\<lambda>_. \<lparr>h_status = 404, h_headers = [], h_body = Some []\<rparr>), sk_extract = sample_extract\<rparr>"

lemma sample_stack_ok: "stack_ok sample_stack"
  using sample_layers_ok sample_serde_ok sample_extract_ok
  by (simp add: stack_ok_def sample_stack_def header_value_ok_def)

lemma sample_system_ok: "system_ok (al_hasher (sk_api sample_stack)) sample_system"
  using system.reachable_ok[OF sample_system_steps conjI[OF commit_lib_ok initial_ok]] by blast

lemma connect_once: "connect (\<lambda>_. Inr pool) = Some (Inr pool, [])"
  unfolding connect_start by (simp add: eval_nat_numeral)

lemma sample_config_read: "from_env (map_of (config_vars sample_config)) = Inr sample_config"
  by (rule from_env_config_vars) (simp_all add: sample_config_def csv_item_def str_trim_def is_ws_def)

lemma sample_boot:
  "boot (map_of (config_vars sample_config)) (\<lambda>_. Inr ()) None None (\<lambda>_. True) (\<lambda>_. None)
    = Some (Inr (init_state sample_config, Some AnyOrigin))"
proof -
  have "cors_layer (\<lambda>_. True) (cors_allowed_origins sample_config) = Inr (Some AnyOrigin)"
    by (simp add: sample_config_def cors_layer_def)
  then show ?thesis by (simp add: boot_def sample_config_read connect_once)
qed


end
