(* ===== verification/Shutdown.thy ===== *)
theory Shutdown
  imports Ingest
begin

text \<open>
  How the indexer stops: \<open>shutdown_signal\<close> and the pause of \<open>run\<close> in
  \<open>crates/attesta-indexer/src/ingest.rs\<close>, with the signals arriving at any time.  Until a listener is
  created for a signal its default action kills the process; from the first one on the process
  survives it, and a listener only hears what arrives after it was created (tokio's documented
  behaviour).  \<open>indexer_run\<close> of \<open>Ingest\<close> is the specification: it stops in the pause behind a pass.
\<close>

section \<open>Signals\<close>

datatype os_signal = SIGINT | SIGTERM

record signals =
  sg_caught :: "os_signal set"             \<comment> \<open>no longer deadly\<close>
  sg_listener :: "os_signal option option"  \<comment> \<open>a waiting \<open>shutdown_signal\<close> and what it heard first\<close>

definition no_signals :: signals where
  "no_signals = \<lparr>sg_caught = {}, sg_listener = None\<rparr>"

text \<open>The first poll of \<open>shutdown_signal\<close> creates both listeners; dropping it drops them.\<close>

definition shutdown_signal :: "signals \<Rightarrow> signals" where
  "shutdown_signal g = \<lparr>sg_caught = insert SIGINT (insert SIGTERM (sg_caught g)), sg_listener = Some None\<rparr>"

definition drop_listener :: "signals \<Rightarrow> signals" where
  "drop_listener g = g\<lparr>sg_listener := None\<rparr>"

text \<open>A signal arrives; \<open>None\<close>: it kills the process.\<close>

definition arrives :: "os_signal \<Rightarrow> signals \<Rightarrow> signals option" where
  "arrives sg g =
     (if sg \<notin> sg_caught g then None
      else Some (case sg_listener g of Some None \<Rightarrow> g\<lparr>sg_listener := Some (Some sg)\<rparr> | other \<Rightarrow> g))"

section \<open>The life of the indexer\<close>

datatype place = Syncing "string list" | Pausing | Exited | Killed

record indexer_life =
  il_place :: place                       \<comment> \<open>with the contracts left in this pass\<close>
  il_round :: "string \<Rightarrow> sync_env"        \<comment> \<open>what this pass meets\<close>
  il_passed :: "(string \<Rightarrow> sync_env) list" \<comment> \<open>the completed passes\<close>
  il_signals :: signals
  il_db :: db

definition indexer_begin :: "string list \<Rightarrow> (string \<Rightarrow> sync_env) \<Rightarrow> db \<Rightarrow> indexer_life" where
  "indexer_begin contracts r d =
     \<lparr>il_place = Syncing contracts, il_round = r, il_passed = [], il_signals = no_signals, il_db = d\<rparr>"

text \<open>
  When the pause is over and a signal has come, \<open>select!\<close> takes either branch.  A kill is placed
  between two contracts; inside a contract the database is at a prefix of its statements (\<open>System\<close>).
\<close>

inductive life_step :: "nat \<Rightarrow> event_lib \<Rightarrow> string list \<Rightarrow> indexer_life \<Rightarrow> indexer_life \<Rightarrow> bool"
  for fuel :: nat and lib :: event_lib and contracts :: "string list" where
  sync: "il_place x = Syncing (c # cs) \<Longrightarrow> sync_contract fuel lib (il_round x c) c (il_db x) = Some (d', res) \<Longrightarrow>
     life_step fuel lib contracts x (x\<lparr>il_place := Syncing cs, il_db := d'\<rparr>)"
| pause: "il_place x = Syncing [] \<Longrightarrow>
     life_step fuel lib contracts x (x\<lparr>il_place := Pausing, il_passed := il_passed x @ [il_round x],
       il_signals := shutdown_signal (il_signals x)\<rparr>)"
| resume: "il_place x = Pausing \<Longrightarrow>
     life_step fuel lib contracts x (x\<lparr>il_place := Syncing contracts, il_round := r,
       il_signals := drop_listener (il_signals x)\<rparr>)"
| leave: "il_place x = Pausing \<Longrightarrow> sg_listener (il_signals x) = Some (Some sg) \<Longrightarrow>
     life_step fuel lib contracts x (x\<lparr>il_place := Exited\<rparr>)"
| signal: "il_place x \<notin> {Exited, Killed} \<Longrightarrow> arrives sg (il_signals x) = Some g \<Longrightarrow>
     life_step fuel lib contracts x (x\<lparr>il_signals := g\<rparr>)"
| kill: "il_place x \<notin> {Exited, Killed} \<Longrightarrow> arrives sg (il_signals x) = None \<Longrightarrow>
     life_step fuel lib contracts x (x\<lparr>il_place := Killed\<rparr>)"

section \<open>It stops as \<open>indexer_run\<close> says\<close>

definition with_env :: "(string \<Rightarrow> sync_env) \<Rightarrow> string list \<Rightarrow> (string \<times> sync_env) list" where
  "with_env r = map (\<lambda>c. (c, r c))"

primrec passes :: "nat \<Rightarrow> event_lib \<Rightarrow> string list \<Rightarrow> (string \<Rightarrow> sync_env) list \<Rightarrow> db \<Rightarrow> db option" where
  "passes fuel lib contracts [] d = Some d"
| "passes fuel lib contracts (r # rs) d =
     Option.bind (run_pass fuel lib (with_env r contracts) d) (passes fuel lib contracts rs)"

lemma passes_append:
  "passes fuel lib contracts (rs @ rs') d = Option.bind (passes fuel lib contracts rs d) (passes fuel lib contracts rs')"
  by (induction rs arbitrary: d) (auto split: bind_splits)

lemma run_pass_append:
  "run_pass fuel lib (cs @ cs') d = Option.bind (run_pass fuel lib cs d) (run_pass fuel lib cs')"
proof (induction cs arbitrary: d)
  case (Cons c cs)
  then show ?case by (cases c) (simp split: option.splits prod.splits)
qed simp

text \<open>\<open>n\<close> passes without a signal and one behind which it comes.\<close>

definition rounds_of :: "(string \<Rightarrow> sync_env) list \<Rightarrow> ((string \<Rightarrow> sync_env) \<times> bool) list" where
  "rounds_of rs = zip rs (replicate (length rs - 1) False @ [True])"

lemma indexer_run_passes:
  "rs \<noteq> [] \<Longrightarrow> indexer_run fuel lib contracts (rounds_of rs) d = passes fuel lib contracts rs d"
proof (induction rs arbitrary: d)
  case (Cons r rs)
  show ?case
  proof (cases rs)
    case Nil
    then show ?thesis by (simp add: rounds_of_def with_env_def split: option.splits)
  next
    case (Cons r' rs')
    then have "rounds_of (r # rs) = (r, False) # rounds_of rs" by (simp add: rounds_of_def)
    moreover have "indexer_run fuel lib contracts (rounds_of rs) d' = passes fuel lib contracts rs d'" for d'
      using Cons.IH Cons by simp
    ultimately show ?thesis by (simp add: with_env_def split: option.splits)
  qed
qed simp

text \<open>Where the process stands.\<close>

definition life_ok :: "nat \<Rightarrow> event_lib \<Rightarrow> string list \<Rightarrow> db \<Rightarrow> indexer_life \<Rightarrow> bool" where
  "life_ok fuel lib contracts d0 x \<longleftrightarrow>
     sg_caught (il_signals x) = (if il_passed x = [] then {} else UNIV) \<and>
     (case il_place x of
        Syncing rest \<Rightarrow> sg_listener (il_signals x) = None \<and> (\<exists>gone. contracts = gone @ rest \<and>
          Option.bind (passes fuel lib contracts (il_passed x) d0) (run_pass fuel lib (with_env (il_round x) gone)) = Some (il_db x))
      | Killed \<Rightarrow> il_passed x = [] \<and> (\<exists>gone rest. contracts = gone @ rest \<and>
          run_pass fuel lib (with_env (il_round x) gone) d0 = Some (il_db x))
      | _ \<Rightarrow> il_passed x \<noteq> [] \<and> passes fuel lib contracts (il_passed x) d0 = Some (il_db x))"

lemma all_signals: "sg = SIGINT \<or> sg = SIGTERM"
  by (cases sg) simp_all

lemma all_signals_caught [simp]: "insert SIGINT (insert SIGTERM A) = UNIV"
  using all_signals by auto

lemma arrives_caught: "arrives sg g = Some g' \<Longrightarrow> sg_caught g' = sg_caught g"
  by (auto simp: arrives_def split: if_splits option.splits)

lemma arrives_unheard: "arrives sg g = Some g' \<Longrightarrow> sg_listener g = None \<Longrightarrow> g' = g"
  by (auto simp: arrives_def split: if_splits)

lemma arrives_deadly: "sg_caught g = UNIV \<Longrightarrow> arrives sg g \<noteq> None"
  by (simp add: arrives_def)

lemma life_ok_begin: "life_ok fuel lib contracts d (indexer_begin contracts r d)"
  by (simp add: life_ok_def indexer_begin_def with_env_def no_signals_def)

lemma life_ok_step:
  assumes "life_step fuel lib contracts x y" "life_ok fuel lib contracts d x"
  shows "life_ok fuel lib contracts d y"
  using assms
proof (induction rule: life_step.induct)
  case (sync x c cs d' res)
  then obtain gone where g: "contracts = gone @ c # cs"
      "Option.bind (passes fuel lib contracts (il_passed x) d) (run_pass fuel lib (with_env (il_round x) gone)) = Some (il_db x)"
    by (auto simp: life_ok_def)
  then have "Option.bind (passes fuel lib contracts (il_passed x) d) (run_pass fuel lib (with_env (il_round x) (gone @ [c]))) = Some d'"
    using sync(2) by (auto simp: with_env_def run_pass_append bind_eq_Some_conv)
  moreover have "sg_listener (il_signals x) = None" using sync(1,3) by (simp add: life_ok_def)
  moreover have "contracts = (gone @ [c]) @ cs" using g(1) by simp
  ultimately show ?case using sync(3) by (auto simp: life_ok_def)
next
  case (pause x)
  then show ?case by (auto simp: life_ok_def shutdown_signal_def passes_append bind_eq_Some_conv)
next
  case (resume x r)
  then show ?case by (auto simp: life_ok_def drop_listener_def with_env_def)
next
  case (leave x sg)
  then show ?case by (simp add: life_ok_def)
next
  case (signal x sg g)
  then show ?case by (cases "il_place x") (auto simp: life_ok_def arrives_caught dest: arrives_unheard)
next
  case (kill x sg)
  then have "il_passed x = []" using arrives_deadly[of "il_signals x" sg] by (auto simp: life_ok_def split: if_splits)
  with kill show ?case by (cases "il_place x") (auto simp: life_ok_def)
qed

interpretation life: step_invariant "life_step fuel lib contracts" "life_ok fuel lib contracts d" "\<lambda>_ _. True"
  by unfold_locales (auto intro: life_ok_step)

text \<open>
  C18. The indexer stops at pass boundaries, except in its first pass.  Whenever signals arrive: if it
  exits, the database is that of complete passes, a run of \<open>indexer_run\<close>; a signal that kills it comes
  before the first pass is complete, and then always kills it; and one in a later pass has no effect.
\<close>

theorem indexer_stops_between_passes:
  assumes "reachable (life_step fuel lib contracts) (indexer_begin contracts r d) x"
  shows "(il_place x = Exited \<longrightarrow> (\<exists>rs. rs \<noteq> [] \<and> indexer_run fuel lib contracts (rounds_of rs) d = Some (il_db x)))
    \<and> (il_place x = Killed \<longrightarrow> il_passed x = [] \<and> (\<exists>gone rest. contracts = gone @ rest
          \<and> run_pass fuel lib (with_env (il_round x) gone) d = Some (il_db x)))
    \<and> (\<forall>rest. il_place x = Syncing rest \<longrightarrow>
          arrives sg (il_signals x) = (if il_passed x = [] then None else Some (il_signals x)))"
proof -
  have ok: "life_ok fuel lib contracts d x" using life.reachable_ok[OF assms life_ok_begin] .
  have "\<exists>rs. rs \<noteq> [] \<and> indexer_run fuel lib contracts (rounds_of rs) d = Some (il_db x)" if "il_place x = Exited"
    using ok that indexer_run_passes[of "il_passed x" fuel lib contracts d]
    by (intro exI[of _ "il_passed x"]) (simp add: life_ok_def)
  moreover have "arrives sg (il_signals x) = (if il_passed x = [] then None else Some (il_signals x))" if "il_place x = Syncing rest" for rest
    using ok that by (simp add: life_ok_def arrives_def)
  ultimately show ?thesis using ok by (auto simp: life_ok_def)
qed

text \<open>The witness: one pass, then \<open>SIGTERM\<close> in the pause.\<close>

definition sample_life :: indexer_life where
  "sample_life = \<lparr>il_place = Exited, il_round = (\<lambda>_. sample_env), il_passed = [\<lambda>_. sample_env],
     il_signals = \<lparr>sg_caught = {SIGINT, SIGTERM}, sg_listener = Some (Some SIGTERM)\<rparr>,
     il_db = empty_db\<lparr>pool_totals := [sample_total], indexer_cursors := [sample_cursor 50]\<rparr>\<rparr>"

lemma sample_life_steps:
  "reachable (life_step 2 sample_lib [''C'']) (indexer_begin [''C''] (\<lambda>_. sample_env) empty_db) sample_life"
proof -
  let ?step = "life_step 2 sample_lib [''C'']"
  define x0 where "x0 = indexer_begin [''C''] (\<lambda>_. sample_env) empty_db"
  define x1 where "x1 = x0\<lparr>il_place := Syncing [], il_db := il_db sample_life\<rparr>"
  define x2 where "x2 = x1\<lparr>il_place := Pausing, il_passed := il_passed x1 @ [il_round x1], il_signals := shutdown_signal (il_signals x1)\<rparr>"
  define x3 where "x3 = x2\<lparr>il_signals := il_signals sample_life\<rparr>"
  have "?step x0 x1"
    unfolding x1_def by (rule life_step.sync[where c = "''C''" and res = None])
      (simp_all add: x0_def indexer_begin_def sample_sync sample_life_def)
  moreover have "?step x1 x2"
    unfolding x2_def by (rule life_step.pause) (simp add: x1_def)
  moreover have "?step x2 x3"
    unfolding x3_def by (rule life_step.signal[where sg = SIGTERM])
      (simp_all add: x2_def x1_def x0_def indexer_begin_def no_signals_def shutdown_signal_def arrives_def sample_life_def)
  moreover have "?step x3 (x3\<lparr>il_place := Exited\<rparr>)"
    by (rule life_step.leave[where sg = SIGTERM]) (simp_all add: x3_def x2_def sample_life_def)
  moreover have "x3\<lparr>il_place := Exited\<rparr> = sample_life"
    by (simp add: x3_def x2_def x1_def x0_def indexer_begin_def sample_life_def)
  ultimately show ?thesis
    unfolding x0_def[symmetric] by (intro reachable.next_step[OF reachable.next_step[OF reachable.next_step[OF
      reachable.next_step[OF reachable.start]]]]) simp_all
qed

theorem indexer_stops_between_passes_witness:
  "\<exists>rs. rs \<noteq> [] \<and> indexer_run 2 sample_lib [''C''] (rounds_of rs) empty_db
     = Some (empty_db\<lparr>pool_totals := [sample_total], indexer_cursors := [sample_cursor 50]\<rparr>)"
  using indexer_stops_between_passes[OF sample_life_steps] by (simp add: sample_life_def)

end
