(* ===== verification/Serving.thy ===== *)
theory Serving
  imports ApiMain Shutdown
begin

text \<open>
  The API server with its open SSE streams, from \<open>axum::serve\<close> in \<open>main\<close> of
  \<open>crates/attesta-api/src/main.rs\<close> to its graceful shutdown: which answers are streams, who holds the
  slots of \<open>limits.rs\<close>, and what a signal does.
\<close>

section \<open>Slots and streams\<close>

lemma acquire_drop:
  assumes "slots_ok s" "sse_try_acquire ip s = (s', True)"
  shows "sse_drop ip s' = s"
proof -
  have c: "0 \<le> ip_count ip s" using slots_ok_count[OF assms(1)] by blast
  have s': "s' = sse_add_global (s\<lparr>per_ip := (per_ip s)(ip \<mapsto> ip_count ip s + 1)\<rparr>)"
    using assms by (auto simp: sse_try_acquire_def sse_count_ip_eq split: if_splits prod.splits bool.splits)
  have "(per_ip s)(ip := if ip_count ip s = 0 then None else Some (ip_count ip s)) = per_ip s"
    using slots_ok_per_ip[OF assms(1), of ip] by (auto simp: fun_eq_iff)
  then show ?thesis
    using c unfolding s' by (cases s) (auto simp: sse_drop_def sse_uncount_ip_def sse_sub_global_def sse_add_global_def)
qed

lemma acquire_refused:
  "slots_ok s \<Longrightarrow> sse_try_acquire ip s = (s', False) \<Longrightarrow> s' = s"
  by (auto simp: sse_try_acquire_def dest: sse_count_ip_False split: if_splits prod.splits bool.splits)

text \<open>The streams of \<open>ips\<close> hold the slots, and nobody else does.\<close>

definition held_by :: "ip_addr list \<Rightarrow> sse_slots \<Rightarrow> bool" where
  "held_by ips s \<longleftrightarrow> slots_ok s \<and> sse_active s = int (length ips) \<and> (\<forall>ip. ip_count ip s = int (count_list ips ip))"

lemma held_by_new: "held_by [] (new_slots ipc gc)"
  by (simp add: held_by_def sse_active_def new_slots_def slots_ok_def ip_count_def)

lemma held_by_acquire:
  assumes "held_by ips s" "sse_try_acquire ip s = (s', True)"
  shows "held_by (ip # ips) s'"
proof -
  obtain s1 where s1: "sse_count_ip ip s = (s1, True)" "s' = sse_add_global s1"
    using assms(2) by (auto simp: sse_try_acquire_def split: if_splits prod.splits bool.splits)
  then show ?thesis using assms(1) sse_count_ip_True[OF _ s1(1)] by (simp add: held_by_def sse_active_def)
qed

lemma held_by_drop:
  assumes "held_by ips s" "ip \<in> set ips"
  shows "held_by (remove1 ip ips) (sse_drop ip s)"
proof -
  have "count_list ips ip \<noteq> 0" using assms(2) by (simp add: count_list_0_iff)
  then have p: "slots_ok (sse_sub_global s)" "0 < ip_count ip (sse_sub_global s)"
    using assms(1) by (simp_all add: held_by_def)
  have "int (length ips - 1) = int (length ips) - 1" using assms(2) by (cases ips) simp_all
  moreover have "count_list (remove1 ip ips) j = count_list ips j - of_bool (j = ip)" for j
    by (induction ips) auto
  ultimately show ?thesis
    using assms sse_uncount_ip_ok[OF p] \<open>count_list ips ip \<noteq> 0\<close>
    by (auto simp: held_by_def sse_active_def sse_drop_def length_remove1 of_nat_diff)
qed

section \<open>Which answers are streams\<close>

lemma answer_body:
  "rs_body (answer_of (json_answer c \<circ> f) res) \<noteq> EventStream" "rs_body (answer_of file_answer res') \<noteq> EventStream"
  "rs_body (answer_of status_answer res'') \<noteq> EventStream" "rs_body (answer_of (json_answer c) res3) \<noteq> EventStream"
  by (auto simp: answer_of_def json_answer_def file_answer_def status_answer_def api_error_response_def split: sum.splits)

lemma stats_body: "get_stats collate ttl now env stored_at cache = (cache', res) \<Longrightarrow> rs_body (answer_of (\<lambda>r. r) res) \<noteq> EventStream"
  by (auto simp: get_stats_def stats_finish_def with_cache_header_def answer_of_def api_error_response_def
      split: option.splits sum.splits)

lemma stream_slots:
  assumes "stream_notes henc ip l c pool call d sl = (sl', res)" "slots_ok sl"
  shows "case res of Inl r \<Rightarrow> rs_body r \<noteq> EventStream \<and> sl' = sl | Inr _ \<Rightarrow> sse_try_acquire ip sl = (sl', True)"
  using assms acquire_drop[OF assms(2)] acquire_refused[OF assms(2)]
  by (auto simp: stream_notes_def Let_def too_many_requests_response_def api_error_response_def
      split: prod.splits bool.splits option.splits)

text \<open>A call that opens a stream takes a slot; every other one leaves them alone.\<close>

definition slots_move :: "ip_addr \<Rightarrow> bool \<Rightarrow> sse_slots \<Rightarrow> sse_slots \<Rightarrow> bool" where
  "slots_move ip stream s s' \<longleftrightarrow> (if stream then sse_try_acquire ip s = (s', True) else s' = s)"

lemma handle_slots:
  assumes "handle lib cfg w st call = Some (st', r)" "slots_ok (ap_slots st)"
    and "\<And>ip' l c p. call = CallStream ip' l c p \<Longrightarrow> ip' = ip"
  shows "slots_move ip (rs_body r = EventStream) (ap_slots st) (ap_slots st')"
    and "rs_body r = EventStream \<Longrightarrow> rs_status r = OK"
proof -
  have "slots_move ip (rs_body r = EventStream) (ap_slots st) (ap_slots st') \<and> (rs_body r = EventStream \<longrightarrow> rs_status r = OK)"
  proof (cases call)
    case (CallStream ip' l c p)
    then have [simp]: "ip' = ip" using assms(3) by blast
    obtain sl' res where s: "stream_notes (al_hex_encode lib) ip l c p (aw_calls w 0) (ap_db st) (ap_slots st) = (sl', res)"
      by (metis prod.collapse)
    show ?thesis using assms(1) CallStream stream_slots[OF s assms(2)] s
      by (auto simp: slots_move_def split: sum.splits)
  next
    case CallStats
    then show ?thesis using assms(1) by (auto simp: slots_move_def split: prod.splits dest!: stats_body)
  next
    case CallIssuers
    then show ?thesis using assms(1)
      by (auto simp: slots_move_def answer_of_def json_answer_def api_error_response_def split: sum.splits)
  next
    case (CallDeliver req)
    then show ?thesis using assms(1)
      by (auto simp: slots_move_def answer_of_def json_answer_def api_error_response_def split: prod.splits sum.splits)
  qed (use assms(1) answer_body in \<open>auto simp: slots_move_def tree_answer_def json_answer_def split: option.splits prod.splits\<close>)
  then show "slots_move ip (rs_body r = EventStream) (ap_slots st) (ap_slots st')" "rs_body r = EventStream \<Longrightarrow> rs_status r = OK"
    by simp_all
qed

text \<open>
  What the documentation of axum and tower-http promises: rejections, the fallback and the answers of
  the layers themselves are no streams, and \<open>ConnectInfo\<close> is the peer address.
\<close>

definition bodies_ok :: "'k stack_lib \<Rightarrow> bool" where
  "bodies_ok sk \<longleftrightarrow>
     (\<forall>e rq r. sk_extract sk e rq = Inl r \<longrightarrow> rs_body r \<noteq> EventStream)
     \<and> (\<forall>e rq ip l c p. sk_extract sk e rq = Inr (CallStream ip l c p) \<longrightarrow> ip = rq_ip rq)
     \<and> (\<forall>rq. h_body (sk_fallback sk rq) \<noteq> None)
     \<and> (\<forall>n next rq s l. wr_content_length rq = Some l \<and> l > n \<longrightarrow> h_body (snd (sk_limit sk n next rq s)) \<noteq> None)
     \<and> (\<forall>p next rq s. wr_verb rq = ''OPTIONS'' \<longrightarrow> h_body (snd (sk_cors sk p next rq s)) \<noteq> None)"

lemma bodies_okD:
  assumes "bodies_ok sk"
  shows "sk_extract sk e rq = Inl r \<Longrightarrow> rs_body r \<noteq> EventStream"
    "sk_extract sk e rq = Inr (CallStream ip l c p) \<Longrightarrow> ip = rq_ip rq"
    "h_body (sk_fallback sk rq) \<noteq> None"
    "\<exists>l. wr_content_length rq = Some l \<and> l > n \<Longrightarrow> h_body (snd (sk_limit sk n inner rq s)) \<noteq> None"
    "wr_verb rq = ''OPTIONS'' \<Longrightarrow> h_body (snd (sk_cors sk policy inner rq s)) \<noteq> None"
  using assms unfolding bodies_ok_def by blast+

lemma handler_slots:
  assumes "bodies_ok sk" "api_handler lib cfg (sk_extract sk) world e rq (Some st) = (Some st', r)" "slots_ok (ap_slots st)"
  shows "slots_move (rq_ip rq) (rs_body r = EventStream) (ap_slots st) (ap_slots st')"
    "rs_body r = EventStream \<Longrightarrow> \<not> is_server_error (rs_status r)"
proof -
  have "slots_move (rq_ip rq) (rs_body r = EventStream) (ap_slots st) (ap_slots st')
    \<and> (rs_body r = EventStream \<longrightarrow> \<not> is_server_error (rs_status r))"
  proof (cases "sk_extract sk e rq")
    case (Inl rejection)
    then show ?thesis using assms(2) bodies_okD(1)[OF assms(1) Inl] by (auto simp: api_handler_def slots_move_def)
  next
    case (Inr call)
    then have h: "handle lib cfg (world rq) st call = Some (st', r)"
      using assms(2) by (auto simp: api_handler_def split: option.splits)
    have ip: "ip' = rq_ip rq" if "call = CallStream ip' l c p" for ip' l c p
      using bodies_okD(2)[OF assms(1)] Inr that by blast
    show ?thesis using handle_slots[OF h assms(3) ip] by (auto simp: is_server_error_def)
  qed
  then show "slots_move (rq_ip rq) (rs_body r = EventStream) (ap_slots st) (ap_slots st')"
    "rs_body r = EventStream \<Longrightarrow> \<not> is_server_error (rs_status r)" by simp_all
qed

lemma router_slots:
  assumes "bodies_ok sk" "slots_ok (ap_slots st)"
    and "router_service (sk_to_vec sk) (sk_fallback sk) (api_handler lib cfg (sk_extract sk) world) rq (app, Some st)
      = ((app', Some st'), r)"
  shows "slots_move (rq_ip rq) (h_body r = None) (ap_slots st) (ap_slots st')"
    "h_body r = None \<Longrightarrow> h_status r \<notin> {500..<600}"
proof -
  let ?h = "api_handler lib cfg (sk_extract sk) world"
  have body: "(h_body (to_http tv x) = None) = (rs_body x = EventStream)" "(h_status (to_http tv x) \<in> {500..<600}) = is_server_error (rs_status x)" for tv x
    by (auto simp: to_http_def body_bytes_def server_error_range split: body.splits)
  have refused: "rs_body (too_many_requests_response n) \<noteq> EventStream" for n by (simp add: too_many_requests_response_def)
  have "slots_move (rq_ip rq) (h_body r = None) (ap_slots st) (ap_slots st') \<and> (h_body r = None \<longrightarrow> h_status r \<notin> {500..<600})"
  proof (cases "route (rq_method rq) (rq_path rq)")
    case None
    then have "st' = st" "r = sk_fallback sk rq" using assms(3) by (auto simp: router_service_def serve_def)
    then show ?thesis using bodies_okD(3)[OF assms(1), of rq] by (auto simp: slots_move_def)
  next
    case (Some be)
    obtain b e where be: "be = (b, e)" by (cases be)
    then obtain x where x: "r = to_http (sk_to_vec sk) x"
      and run: "?h e rq (Some st) = (Some st', x) \<or> (st' = st \<and> (\<exists>n. x = too_many_requests_response n))"
      using assms(3) Some
      by (cases b) (auto simp: router_service_def serve_def limit_requests_def split: prod.splits sum.splits)
    from run show ?thesis
    proof
      assume h: "?h e rq (Some st) = (Some st', x)"
      show ?thesis unfolding x body using handler_slots[OF assms(1) h assms(2)] by simp
    next
      assume "st' = st \<and> (\<exists>n. x = too_many_requests_response n)"
      then show ?thesis unfolding x body using refused by (auto simp: slots_move_def)
    qed
  qed
  then show "slots_move (rq_ip rq) (h_body r = None) (ap_slots st) (ap_slots st')" "h_body r = None \<Longrightarrow> h_status r \<notin> {500..<600}"
    by simp_all
qed

lemma attach_body:
  "(h_body (attach_request_id from_slice to_vec header_value uuid incoming r) = None) = (h_body r = None \<and> h_status r \<notin> {500..<600})"
  by (auto simp: attach_request_id_def embed_id_in_json_body_def Let_def split: option.splits)

lemma stack_slots:
  assumes "stack_ok sk" "bodies_ok sk" "api_ok (sk_api sk) st" "slots_ok (ap_slots st)"
    and "stack_of sk cfg policy world rq ((app, Some st), counter) = (((app', Some st'), counter'), out)"
  shows "slots_move (rq_ip rq) (h_body out = None) (ap_slots st) (ap_slots st')"
proof -
  let ?router = "router_service (sk_to_vec sk) (sk_fallback sk) (api_handler (sk_api sk) cfg (sk_extract sk) world)"
  let ?s = "((app, Some st), counter)"
  from assms(1) have l: "limit_ok (sk_limit sk)" "cors_ok (sk_cors sk)" "trace_ok (sk_trace sk)" by (simp_all add: stack_ok_def)
  show ?thesis
  proof (cases "policy = None \<or> wr_verb rq \<noteq> ''OPTIONS''")
    case False
    then obtain p where p: "policy = Some p" "wr_verb rq = ''OPTIONS''" by auto
    have same: "fst (sk_cors sk p inner rq ?s) = ?s" "h_body (snd (sk_cors sk p inner rq ?s)) \<noteq> None" for inner
      using l(2) p(2) bodies_okD(5)[OF assms(2) p(2)] unfolding cors_ok_def by blast+
    obtain inner where i: "stack_of sk cfg policy world rq ?s = sk_cors sk p inner rq ?s"
      using p(1) by (simp add: stack_of_def app_stack_def Let_def)
    have "((app', Some st'), counter') = ?s" "h_body out \<noteq> None" using same[of inner] assms(5) i by simp_all
    then show ?thesis by (auto simp: slots_move_def)
  next
    case True
    obtain s' r where b: "sk_limit sk BODY_LIMIT (track_layer ?router) rq ?s = (s', r)" by (metis prod.collapse)
    obtain extra where "HEADER \<notin> fst ` set extra"
      "app_stack (sk_from_slice sk) (sk_to_vec sk) (sk_header_value sk) (sk_limit sk) (sk_trace sk) (sk_cors sk) policy ?router rq ?s
      = (let out = attach_request_id (sk_from_slice sk) (sk_to_vec sk) (sk_header_value sk) (wr_uuid rq) (wr_request_id rq) r
         in (s', out\<lparr>h_headers := h_headers out @ extra\<rparr>))"
      by (rule app_stack_inner[where trace = "sk_trace sk" and router = ?router and rq = rq and s = ?s and body_limit = "sk_limit sk",
            OF l(2) True l(3) b]) blast
    then have s': "s' = ((app', Some st'), counter')" and out: "(h_body out = None) = (h_body r = None \<and> h_status r \<notin> {500..<600})"
      using assms(5) by (auto simp: stack_of_def Let_def attach_body)
    show ?thesis
    proof (cases "\<exists>l. wr_content_length rq = Some l \<and> l > BODY_LIMIT")
      case True
      note big = limit_okD(1)[OF l(1) True, of "track_layer ?router" ?s] bodies_okD(4)[OF assms(2) True, of "track_layer ?router" ?s]
      have "s' = ?s" "h_body r \<noteq> None" using big unfolding b by simp_all
      then show ?thesis using s' out by (auto simp: slots_move_def)
    next
      case False
      have "track_layer ?router rq ?s = (s', r)" using limit_okD(2)[OF l(1) False, of "track_layer ?router" ?s] b by simp
      then have "?router rq (app, Some st) = ((app', Some st'), r)"
        unfolding s' by (auto simp: track_layer_def split: prod.splits)
      note k = router_slots[OF assms(2,4) this]
      show ?thesis using k unfolding out by (cases "h_body r = None") auto
    qed
  qed
qed

section \<open>The server\<close>

datatype phase = Serving | Draining | Stopped

record server =
  sv_process :: process
  sv_streams :: "ip_addr list"   \<comment> \<open>the peers of the open streams\<close>
  sv_signals :: signals
  sv_phase :: phase

text \<open>\<open>shutdown_signal\<close> of the API has the text of the indexer's.\<close>

definition api_shutdown_signal :: "signals \<Rightarrow> signals" where
  "api_shutdown_signal g = \<lparr>sg_caught = insert SIGINT (insert SIGTERM (sg_caught g)), sg_listener = Some None\<rparr>"

definition start_server :: "process \<Rightarrow> server" where
  "start_server w = \<lparr>sv_process = w, sv_streams = [], sv_signals = api_shutdown_signal no_signals, sv_phase = Serving\<rparr>"

text \<open>
  An answer to \<open>HEAD\<close> loses its body, so a stream ends at once.  The shutdown future is polled with
  the server, so its listeners exist from the start.  After a signal
  no request is taken any more, and the server returns when nothing is open.  \<open>hangs\<close> says whether the
  clients of streams hang up; nothing else ends a stream, as the sender of its notes lives in the state.
\<close>

inductive server_step :: "bool \<Rightarrow> event_lib \<Rightarrow> 'k::linorder stack_lib \<Rightarrow> config \<Rightarrow> allow_origin option \<Rightarrow> nat \<Rightarrow> server \<Rightarrow> server \<Rightarrow> bool"
  for hangs :: bool and evlib :: event_lib and sk :: "'k::linorder stack_lib" and cfg :: config and policy :: "allow_origin option" and i :: nat where
  answers: "sv_phase x = Serving \<Longrightarrow> process_step evlib sk cfg policy i (sv_process x) w \<Longrightarrow>
     pc_log w = pc_log (sv_process x) @ [(rq, out)] \<Longrightarrow>
     server_step hangs evlib sk cfg policy i x
       (if h_body out = None \<and> rq_method rq = HEAD then x\<lparr>sv_process := w\<lparr>pc_slots := sse_drop (rq_ip rq) (pc_slots w)\<rparr>\<rparr>
        else if h_body out = None then x\<lparr>sv_process := w, sv_streams := rq_ip rq # sv_streams x\<rparr>
        else x\<lparr>sv_process := w\<rparr>)"
| elsewhere: "process_step evlib sk cfg policy i (sv_process x) w \<Longrightarrow> pc_log w = pc_log (sv_process x) \<Longrightarrow>
     server_step hangs evlib sk cfg policy i x (x\<lparr>sv_process := w\<rparr>)"
| hang_up: "hangs \<Longrightarrow> ip \<in> set (sv_streams x) \<Longrightarrow>
     server_step hangs evlib sk cfg policy i x
       (x\<lparr>sv_process := (sv_process x)\<lparr>pc_slots := sse_drop ip (pc_slots (sv_process x))\<rparr>,
          sv_streams := remove1 ip (sv_streams x)\<rparr>)"
| signal: "sv_phase x \<noteq> Stopped \<Longrightarrow> arrives sg (sv_signals x) = Some g \<Longrightarrow>
     server_step hangs evlib sk cfg policy i x (x\<lparr>sv_signals := g\<rparr>)"
| drain: "sv_phase x = Serving \<Longrightarrow> sg_listener (sv_signals x) = Some (Some sg) \<Longrightarrow>
     server_step hangs evlib sk cfg policy i x (x\<lparr>sv_phase := Draining\<rparr>)"
| stop: "sv_phase x = Draining \<Longrightarrow> sv_streams x = [] \<Longrightarrow>
     server_step hangs evlib sk cfg policy i x (x\<lparr>sv_phase := Stopped\<rparr>)"

section \<open>What the server keeps\<close>

lemma caps_kept:
  "sse_try_acquire ip s = (s', b) \<Longrightarrow> per_ip_cap s' = per_ip_cap s \<and> global_cap s' = global_cap s"
  "per_ip_cap (sse_drop ip s) = per_ip_cap s" "global_cap (sse_drop ip s) = global_cap s"
  by (auto simp: sse_try_acquire_def sse_count_ip_def sse_add_global_def sse_drop_def sse_uncount_ip_def sse_sub_global_def Let_def
      split: if_splits option.splits)

lemma acquire_below_cap:
  assumes "sse_try_acquire ip s = (s', True)" "0 < global_cap s"
  shows "sse_active s' \<le> int (global_cap s)"
proof -
  obtain s1 where "sse_count_ip ip s = (s1, True)" "s' = sse_add_global s1" "\<not> sse_global_full s"
    using assms(1) by (auto simp: sse_try_acquire_def split: if_splits prod.splits bool.splits)
  then show ?thesis using assms(2)
    by (auto simp: sse_global_full_def sse_active_def sse_count_ip_def Let_def split: if_splits)
qed

text \<open>The slots of a running server: its streams hold them, within the caps.\<close>

definition slots_fit :: "nat \<Rightarrow> nat \<Rightarrow> ip_addr list \<Rightarrow> sse_slots \<Rightarrow> bool" where
  "slots_fit ipc gc ips s \<longleftrightarrow> held_by ips s \<and> per_ip_cap s = ipc \<and> global_cap s = gc \<and> (0 < gc \<longrightarrow> length ips \<le> gc)"

lemma slots_fit_new: "slots_fit ipc gc [] (new_slots ipc gc)"
  using held_by_new[of ipc gc] by (simp add: slots_fit_def new_slots_def)

lemma slots_fit_move:
  assumes "slots_fit ipc gc ips s" "slots_move ip stream s s'"
  shows "slots_fit ipc gc (if stream then ip # ips else ips) s'"
proof (cases stream)
  case True
  then have a: "sse_try_acquire ip s = (s', True)" using assms(2) by (simp add: slots_move_def)
  have h: "held_by (ip # ips) s'" using held_by_acquire[OF _ a] assms(1) by (simp add: slots_fit_def)
  then have "sse_active s' = int (length (ip # ips))" by (simp only: held_by_def)
  then have "0 < gc \<longrightarrow> length (ip # ips) \<le> gc"
    using acquire_below_cap[OF a] assms(1) unfolding slots_fit_def by linarith
  then show ?thesis using h True caps_kept(1)[OF a] assms(1) by (simp add: slots_fit_def)
qed (use assms in \<open>simp add: slots_move_def\<close>)

lemma slots_fit_drop:
  "slots_fit ipc gc ips s \<Longrightarrow> ip \<in> set ips \<Longrightarrow> slots_fit ipc gc (remove1 ip ips) (sse_drop ip s)"
  using held_by_drop[of ips s ip] by (auto simp: slots_fit_def caps_kept length_remove1)

lemma slots_fit_per_ip: "slots_fit ipc gc ips s \<Longrightarrow> 0 < ipc \<Longrightarrow> count_list ips ip \<le> ipc"
  using slots_ok_count[of s ip] by (auto simp: slots_fit_def held_by_def)

lemma process_slots:
  assumes "process_step evlib sk cfg policy i w w'" "stack_ok sk" "bodies_ok sk" "process_ok sk policy w" "slots_ok (pc_slots w)"
  shows "(pc_log w' = pc_log w \<and> pc_slots w' = pc_slots w)
    \<or> (\<exists>rq out. pc_log w' = pc_log w @ [(rq, out)] \<and> slots_move (rq_ip rq) (h_body out = None) (pc_slots w) (pc_slots w'))"
  using assms(1)
proof cases
  case (request rq world app state counter out)
  have v: "api_ok (sk_api sk) (view i w)" using assms(4) system_ok_view by (auto simp: process_ok_def)
  obtain st' where st': "state = Some st'" using stack_state[OF assms(2) v request(5)] by blast
  have s: "slots_ok (ap_slots (view i w))" using assms(5) by (simp add: view_def)
  have "slots_move (rq_ip rq) (h_body out = None) (ap_slots (view i w)) (ap_slots st')"
    by (rule stack_slots[OF assms(2,3) v s request(5)[unfolded st']])
  then show ?thesis unfolding request(1) st' by (auto simp: view_def put_back_def)
next
  case (others s)
  then show ?thesis by simp
qed

definition server_ok :: "nat \<Rightarrow> nat \<Rightarrow> 'k::linorder stack_lib \<Rightarrow> allow_origin option \<Rightarrow> server \<Rightarrow> bool" where
  "server_ok ipc gc sk policy x \<longleftrightarrow> process_ok sk policy (sv_process x)
     \<and> slots_fit ipc gc (sv_streams x) (pc_slots (sv_process x)) \<and> sg_caught (sv_signals x) = UNIV
     \<and> (sv_phase x = Stopped \<longrightarrow> sv_streams x = [])"

lemma process_ok_slots [simp]: "process_ok sk policy (w\<lparr>pc_slots := s\<rparr>) = process_ok sk policy w"
  by (simp add: process_ok_def series_served_def)

lemma server_keeps:
  assumes "server_step hangs evlib sk cfg policy i x y" "stack_ok sk" "bodies_ok sk" "lib_ok evlib" "server_ok ipc gc sk policy x"
  shows "server_ok ipc gc sk policy y"
  using assms
proof (induction rule: server_step.induct)
  case (answers x w rq out)
  then have ok: "process_ok sk policy (sv_process x)" "slots_fit ipc gc (sv_streams x) (pc_slots (sv_process x))"
    by (simp_all add: server_ok_def)
  then have "slots_ok (pc_slots (sv_process x))" by (simp add: slots_fit_def held_by_def)
  then have "slots_move (rq_ip rq) (h_body out = None) (pc_slots (sv_process x)) (pc_slots w)"
    using process_slots[OF answers(2,4,5) ok(1)] answers(3) by auto
  then have "slots_fit ipc gc (if h_body out = None then rq_ip rq # sv_streams x else sv_streams x) (pc_slots w)"
    by (rule slots_fit_move[OF ok(2)])
  note fit = this
  have "slots_fit ipc gc (sv_streams x) (sse_drop (rq_ip rq) (pc_slots w))" if "h_body out = None"
    using slots_fit_drop[OF fit, of "rq_ip rq"] that by simp
  then show ?case using fit answers process_keeps[OF answers(2,4,6) ok(1)]
    by (cases "h_body out") (simp_all add: server_ok_def)
next
  case (elsewhere x w)
  then have ok: "process_ok sk policy (sv_process x)" "slots_ok (pc_slots (sv_process x))"
    by (simp_all add: server_ok_def slots_fit_def held_by_def)
  have "pc_slots w = pc_slots (sv_process x)"
    using process_slots[OF elsewhere(1,3,4) ok] elsewhere(2) by auto
  then show ?case using elsewhere process_keeps[OF elsewhere(1,3,5) ok(1)] by (simp add: server_ok_def)
next
  case (hang_up ip x)
  then show ?case using slots_fit_drop[of ipc gc "sv_streams x" "pc_slots (sv_process x)" ip] by (auto simp: server_ok_def)
next
  case (signal x sg g)
  then show ?case using arrives_caught[OF signal(2)] by (simp add: server_ok_def)
qed (simp_all add: server_ok_def)

interpretation server: step_invariant
  "\<lambda>x y. server_step hangs evlib sk cfg policy i x y"
  "\<lambda>x. stack_ok sk \<and> bodies_ok sk \<and> lib_ok evlib \<and> server_ok ipc gc sk policy x"
  "\<lambda>_ _. True"
  by unfold_locales (auto dest: server_keeps)


text \<open>
  A stream keeps the server from stopping: against the comment that a shutdown lets open streams
  finish, no stream ends by itself, so as long as its client stays the server does not return,
  whatever signals arrive.
\<close>

theorem open_stream_blocks_shutdown:
  assumes "reachable (server_step False evlib sk cfg policy i) x y" "sv_streams x \<noteq> []" "sv_phase x \<noteq> Stopped"
  shows "sv_streams y \<noteq> [] \<and> sv_phase y \<noteq> Stopped"
  using assms
proof (induction rule: reachable.induct)
  case (next_step y z)
  from next_step(2) next_step.IH[OF next_step(4,5)] show ?case by cases (auto split: if_splits)
qed simp

text \<open>The witnesses: a client opens a stream, then \<open>SIGTERM\<close> comes.\<close>

definition serving_stack :: "nat stack_lib" where
  "serving_stack = sample_stack\<lparr>sk_extract :=
     (\<lambda>e rq. Inr (case e of StreamNotes \<Rightarrow> CallStream (rq_ip rq) None None None | _ \<Rightarrow> sample_call e))\<rparr>"

definition stream_request :: web_request where
  "stream_request = sample_web_request\<lparr>rq_path := [''v1'', ''notes'', ''stream'']\<rparr>"

lemma sample_call_stream: "sample_call e = CallStream ip l c p \<Longrightarrow> e = StreamNotes"
  by (cases e) simp_all

lemma serving_stack_ok: "stack_ok serving_stack" "bodies_ok serving_stack"
proof -
  have "serves e (case e of StreamNotes \<Rightarrow> CallStream ip None None None | _ \<Rightarrow> sample_call e)" for e ip
    by (cases e) simp_all
  then have "extractor_ok (sk_extract serving_stack)" by (simp add: extractor_ok_def serving_stack_def)
  then show "stack_ok serving_stack" using sample_stack_ok by (simp add: stack_ok_def serving_stack_def)
  have "ip' = ip" if "(case e of StreamNotes \<Rightarrow> CallStream ip None None None | _ \<Rightarrow> sample_call e) = CallStream ip' l c p" for e ip ip' l c p
    using that by (cases e) simp_all
  then show "bodies_ok serving_stack"
    unfolding bodies_ok_def serving_stack_def sample_stack_def plain_limit_def plain_cors_def
    by (auto split: option.splits)
qed

lemma serving_system_ok: "system_ok (al_hasher (sk_api serving_stack)) sample_system"
  using sample_system_ok by (simp add: serving_stack_def)

lemma opens_stream:
  "\<exists>series out. stack_of serving_stack sample_config (Some AnyOrigin) (\<lambda>_. sample_world) stream_request
      ((pc_buckets w, Some st), Map.empty)
    = (((pc_buckets w, Some (st\<lparr>ap_slots := fst (sse_try_acquire (V4 1) (ap_slots st))\<rparr>)), series), out) \<and> h_body out = None"
  if "snd (sse_try_acquire (V4 1) (ap_slots st))"
  using that
  by (auto simp: stack_of_def app_stack_def Let_def request_id_layer_def serving_stack_def sample_stack_def plain_limit_def plain_cors_def
      track_layer_def router_service_def serve_def route_def open_routes_def api_handler_def stream_notes_def resume_from_def
      stream_request_def sample_web_request_def to_http_def body_bytes_def attach_body split: prod.splits bool.splits)

lemma stream_opened:
  "\<exists>x. reachable (server_step hangs commit_lib serving_stack (as_config (init_state sample_config)) (Some AnyOrigin) 0)
      (start_server (start_process 0 sample_system (init_state sample_config))) x
    \<and> sv_streams x = [V4 1] \<and> sv_phase x = Serving \<and> sg_listener (sv_signals x) = Some None"
proof -
  let ?w = "start_process 0 sample_system (init_state sample_config)" and ?cfg = "as_config (init_state sample_config)"
  have cfg: "?cfg = sample_config" by (simp add: init_state_def Let_def)
  have w: "pc_series ?w = Map.empty" "pc_log ?w = []" "sys_pending (pc_system ?w) 0 = None" "pc_up ?w"
    "snd (sse_try_acquire (V4 1) (ap_slots (view 0 ?w)))"
    by (simp_all add: start_process_def view_def init_state_def Let_def sample_config_def sse_try_acquire_def sse_global_full_def
        sse_count_ip_def new_slots_def)
  obtain series out where o: "stack_of serving_stack ?cfg (Some AnyOrigin) (\<lambda>_. sample_world) stream_request
      ((pc_buckets ?w, Some (view 0 ?w)), pc_series ?w)
    = (((pc_buckets ?w, Some ((view 0 ?w)\<lparr>ap_slots := fst (sse_try_acquire (V4 1) (ap_slots (view 0 ?w)))\<rparr>)), series), out)"
    and body: "h_body out = None"
    using opens_stream[OF w(5)] unfolding cfg w(1) by blast
  have rq: "list_all is_ascii_graphic (wr_uuid stream_request)" "rq_method stream_request \<noteq> HEAD" "rq_ip stream_request = V4 1"
    by (simp_all add: stream_request_def sample_web_request_def is_ascii_graphic_def)
  note step = process_step.request[OF w(4,3) rq(1) o, of commit_lib]
  note ans = server_step.answers[where x = "start_server ?w" and rq = stream_request and out = out, unfolded start_server_def, simplified,
      OF step[unfolded w(2)], where hangs = hangs]
  show ?thesis
    by (rule exI, rule conjI, rule reachable_one, unfold start_server_def, rule ans)
       (use w(2) body rq in \<open>simp_all add: put_back_def api_shutdown_signal_def\<close>)
qed


theorem open_stream_blocks_shutdown_witness:
  "\<exists>x y. sv_streams x = [V4 1] \<and> reachable (server_step False commit_lib serving_stack sample_config (Some AnyOrigin) 0) x y
    \<and> sv_phase y = Draining \<and> sv_streams y \<noteq> []"
proof -
  obtain x :: server where x: "sv_streams x = [V4 1]" "sv_phase x = Serving" "sg_listener (sv_signals x) = Some None"
      "sg_caught (sv_signals x) = UNIV"
    by (rule that[of "(start_server w)\<lparr>sv_streams := [V4 1]\<rparr>" for w]) (simp_all add: start_server_def api_shutdown_signal_def)
  let ?step = "server_step False commit_lib serving_stack sample_config (Some AnyOrigin) 0"
  let ?x1 = "x\<lparr>sv_signals := (sv_signals x)\<lparr>sg_listener := Some (Some SIGTERM)\<rparr>\<rparr>"
  have "?step x ?x1" by (rule server_step.signal[where sg = SIGTERM]) (simp_all add: x arrives_def)
  moreover have "?step ?x1 (?x1\<lparr>sv_phase := Draining\<rparr>)" by (rule server_step.drain) (simp_all add: x)
  ultimately have r: "reachable ?step x (?x1\<lparr>sv_phase := Draining\<rparr>)"
    by (meson reachable.next_step reachable_one)
  have "sv_streams (?x1\<lparr>sv_phase := Draining\<rparr>) \<noteq> []"
    using open_stream_blocks_shutdown[OF r] x by simp
  then show ?thesis using r x(1) by (intro exI[of _ x] exI[of _ "?x1\<lparr>sv_phase := Draining\<rparr>"]) simp
qed

end
