(* ===== verification/SweepLock.thy ===== *)
theory SweepLock
  imports Retention
begin

text \<open>
  The sweepers of several API replicas on one database: \<open>run_cycle\<close> of
  \<open>crates/attesta-api/src/retention.rs\<close>, statement by statement, with the session-level advisory lock
  that is to let one of them sweep at a time.  \<open>Retention\<close> has the cycle of one replica as a function;
  here any number of them take their steps in any order.
\<close>

section \<open>The advisory lock\<close>

text \<open>
  PostgreSQL's documented behaviour: the lock belongs to a session, which can take it several times and
  has to release it as often; it is released when the session ends.
\<close>

type_synonym advisory_lock = "(nat \<times> nat) option"   \<comment> \<open>session and count\<close>

definition pg_try_advisory_lock :: "nat \<Rightarrow> advisory_lock \<Rightarrow> advisory_lock \<times> bool" where
  "pg_try_advisory_lock s l =
     (case l of
        None \<Rightarrow> (Some (s, 1), True)
      | Some (t, n) \<Rightarrow> if t = s then (Some (s, n + 1), True) else (l, False))"

definition pg_advisory_unlock :: "nat \<Rightarrow> advisory_lock \<Rightarrow> advisory_lock" where
  "pg_advisory_unlock s l =
     (case l of
        None \<Rightarrow> None
      | Some (t, n) \<Rightarrow> if t = s then (if n = 1 then None else Some (s, n - 1)) else l)"

lemma unlock_try: "l \<noteq> Some (s, 0) \<Longrightarrow> pg_try_advisory_lock s l = (l', True) \<Longrightarrow> pg_advisory_unlock s l' = l"
  by (auto simp: pg_try_advisory_lock_def pg_advisory_unlock_def split: option.splits if_splits)

section \<open>Cycles as steps\<close>

datatype mail_kind = ClaimedMail | UnclaimedMail

datatype sweeper = Resting | Connected nat | Sweeping nat "mail_kind list"

record sweepers =
  sw_at :: "nat \<Rightarrow> sweeper"          \<comment> \<open>per replica; a number is the session of its connection\<close>
  sw_lock :: advisory_lock
  sw_closed :: "nat set"
  sw_db :: db

primrec session_of :: "sweeper \<Rightarrow> nat option" where
  "session_of Resting = None"
| "session_of (Connected s) = Some s"
| "session_of (Sweeping s ks) = Some s"

definition windows :: "32 word \<Rightarrow> 32 word \<Rightarrow> mail_kind list" where
  "windows claimed_days unclaimed_days =
     (if claimed_days > 0 then [ClaimedMail] else []) @ (if unclaimed_days > 0 then [UnclaimedMail] else [])"

primrec expired_of :: "mail_kind \<Rightarrow> int \<Rightarrow> delivery_row \<Rightarrow> bool" where
  "expired_of ClaimedMail = expired_claimed"
| "expired_of UnclaimedMail = expired_unclaimed"

definition days_of :: "32 word \<Rightarrow> 32 word \<Rightarrow> mail_kind \<Rightarrow> 32 word" where
  "days_of claimed_days unclaimed_days k = (case k of ClaimedMail \<Rightarrow> claimed_days | UnclaimedMail \<Rightarrow> unclaimed_days)"

text \<open>
  A query on a session that is closed fails; one on an open session can fail too.  A connection is
  lent to one task at a time.  Sessions end at any time; everything else may change the database.
\<close>

inductive cycle_step :: "32 word \<Rightarrow> 32 word \<Rightarrow> sweepers \<Rightarrow> sweepers \<Rightarrow> bool"
  for claimed_days :: "32 word" and unclaimed_days :: "32 word" where
  acquire: "sw_at y i = Resting \<Longrightarrow> \<forall>j. session_of (sw_at y j) \<noteq> Some s \<Longrightarrow> s \<notin> sw_closed y \<Longrightarrow>
     cycle_step claimed_days unclaimed_days y (y\<lparr>sw_at := (sw_at y)(i := Connected s)\<rparr>)"
| locked: "sw_at y i = Connected s \<Longrightarrow> s \<notin> sw_closed y \<Longrightarrow> pg_try_advisory_lock s (sw_lock y) = (l, True) \<Longrightarrow>
     cycle_step claimed_days unclaimed_days y
       (y\<lparr>sw_at := (sw_at y)(i := Sweeping s (windows claimed_days unclaimed_days)), sw_lock := l\<rparr>)"
| skipped: "sw_at y i = Connected s \<Longrightarrow> s \<notin> sw_closed y \<Longrightarrow> pg_try_advisory_lock s (sw_lock y) = (l, False) \<Longrightarrow>
     cycle_step claimed_days unclaimed_days y (y\<lparr>sw_at := (sw_at y)(i := Resting)\<rparr>)"
| lock_fails: "sw_at y i = Connected s \<Longrightarrow>
     cycle_step claimed_days unclaimed_days y (y\<lparr>sw_at := (sw_at y)(i := Resting)\<rparr>)"
| deletes: "sw_at y i = Sweeping s (k # ks) \<Longrightarrow> s \<notin> sw_closed y \<Longrightarrow>
     delete_batch e (expired_of k) (days_of claimed_days unclaimed_days k) (sw_db y) = Inr (d', n) \<Longrightarrow>
     cycle_step claimed_days unclaimed_days y
       (y\<lparr>sw_at := (sw_at y)(i := Sweeping s (if n < SWEEP_BATCH then ks else k # ks)), sw_db := d'\<rparr>)"
| delete_fails: "sw_at y i = Sweeping s (k # ks) \<Longrightarrow>
     cycle_step claimed_days unclaimed_days y (y\<lparr>sw_at := (sw_at y)(i := Sweeping s ks)\<rparr>)"
| unlocked: "sw_at y i = Sweeping s [] \<Longrightarrow> s \<notin> sw_closed y \<Longrightarrow>
     cycle_step claimed_days unclaimed_days y
       (y\<lparr>sw_at := (sw_at y)(i := Resting), sw_lock := pg_advisory_unlock s (sw_lock y)\<rparr>)"
| unlock_fails: "sw_at y i = Sweeping s [] \<Longrightarrow>
     cycle_step claimed_days unclaimed_days y (y\<lparr>sw_at := (sw_at y)(i := Resting)\<rparr>)"
| closes: "cycle_step claimed_days unclaimed_days y
     (y\<lparr>sw_closed := insert s (sw_closed y), sw_lock := (case sw_lock y of Some (t, n) \<Rightarrow> if t = s then None else sw_lock y | None \<Rightarrow> None)\<rparr>)"
| elsewhere: "cycle_step claimed_days unclaimed_days y (y\<lparr>sw_db := d\<rparr>)"

definition all_resting :: "db \<Rightarrow> sweepers" where
  "all_resting d = \<lparr>sw_at = (\<lambda>_. Resting), sw_lock = None, sw_closed = {}, sw_db = d\<rparr>"

section \<open>One sweeper at a time\<close>

definition sweepers_ok :: "sweepers \<Rightarrow> bool" where
  "sweepers_ok y \<longleftrightarrow>
     (\<forall>i j s. session_of (sw_at y i) = Some s \<longrightarrow> session_of (sw_at y j) = Some s \<longrightarrow> i = j)
     \<and> (\<forall>i s ks. sw_at y i = Sweeping s ks \<longrightarrow> s \<notin> sw_closed y \<longrightarrow> (\<exists>n. sw_lock y = Some (s, n)))
     \<and> (\<forall>s. sw_lock y \<noteq> Some (s, 0))"

lemma sweepers_okI:
  assumes "\<And>i j s. session_of (sw_at y i) = Some s \<Longrightarrow> session_of (sw_at y j) = Some s \<Longrightarrow> i = j"
    and "\<And>i s ks. sw_at y i = Sweeping s ks \<Longrightarrow> s \<notin> sw_closed y \<Longrightarrow> \<exists>n. sw_lock y = Some (s, n)"
    and "\<And>s. sw_lock y \<noteq> Some (s, 0)"
  shows "sweepers_ok y"
  using assms unfolding sweepers_ok_def by blast

lemma sweepers_okD:
  assumes "sweepers_ok y"
  shows "session_of (sw_at y i) = Some s \<Longrightarrow> session_of (sw_at y j) = Some s \<Longrightarrow> i = j"
    and "sw_at y i = Sweeping s ks \<Longrightarrow> s \<notin> sw_closed y \<Longrightarrow> \<exists>n. sw_lock y = Some (s, n)"
    and "sw_lock y \<noteq> Some (s, 0)"
  using assms unfolding sweepers_ok_def by blast+

text \<open>A replica that moves on without touching the lock, in its session or out of it.\<close>

lemma sweepers_ok_move:
  assumes "sweepers_ok y" "session_of x = None \<or> session_of x = session_of (sw_at y i)"
    and "\<And>s ks. x = Sweeping s ks \<Longrightarrow> \<exists>ks'. sw_at y i = Sweeping s ks'"
  shows "sweepers_ok (y\<lparr>sw_at := (sw_at y)(i := x)\<rparr>)"
proof (rule sweepers_okI)
  fix j k s
  assume "session_of (sw_at (y\<lparr>sw_at := (sw_at y)(i := x)\<rparr>) j) = Some s"
    "session_of (sw_at (y\<lparr>sw_at := (sw_at y)(i := x)\<rparr>) k) = Some s"
  then have "session_of (sw_at y j) = Some s" "session_of (sw_at y k) = Some s"
    using assms(2) by (auto split: if_splits)
  then show "j = k" by (rule sweepers_okD(1)[OF assms(1)])
next
  fix j s ks
  assume "sw_at (y\<lparr>sw_at := (sw_at y)(i := x)\<rparr>) j = Sweeping s ks" "s \<notin> sw_closed (y\<lparr>sw_at := (sw_at y)(i := x)\<rparr>)"
  then have "\<exists>ks. sw_at y j = Sweeping s ks" "s \<notin> sw_closed y" using assms(3) by (auto split: if_splits)
  then show "\<exists>n. sw_lock (y\<lparr>sw_at := (sw_at y)(i := x)\<rparr>) = Some (s, n)"
    using sweepers_okD(2)[OF assms(1)] by auto
qed (use sweepers_okD(3)[OF assms(1)] in simp)

lemma sweepers_ok_db [simp]: "sweepers_ok (y\<lparr>sw_db := d\<rparr>) = sweepers_ok y"
  by (simp add: sweepers_ok_def)

lemma sweepers_ok_init: "sweepers_ok (all_resting d)"
  by (simp add: sweepers_ok_def all_resting_def)

lemma sweepers_ok_locked:
  assumes "sweepers_ok y" "sw_at y i = Connected s" "s \<notin> sw_closed y" "pg_try_advisory_lock s (sw_lock y) = (l, True)"
  shows "sweepers_ok (y\<lparr>sw_at := (sw_at y)(i := Sweeping s ks), sw_lock := l\<rparr>)"
proof (rule sweepers_okI)
  fix j k u
  let ?y = "y\<lparr>sw_at := (sw_at y)(i := Sweeping s ks), sw_lock := l\<rparr>"
  assume "session_of (sw_at ?y j) = Some u" "session_of (sw_at ?y k) = Some u"
  then have "session_of (sw_at y j) = Some u" "session_of (sw_at y k) = Some u"
    using assms(2) by (auto split: if_splits)
  then show "j = k" by (rule sweepers_okD(1)[OF assms(1)])
next
  fix j u ks'
  let ?y = "y\<lparr>sw_at := (sw_at y)(i := Sweeping s ks), sw_lock := l\<rparr>"
  assume a: "sw_at ?y j = Sweeping u ks'" "u \<notin> sw_closed ?y"
  obtain n where l: "l = Some (s, n)" "sw_lock y = None \<or> (\<exists>m. sw_lock y = Some (s, m))"
    using assms(4) by (auto simp: pg_try_advisory_lock_def split: option.splits if_splits)
  have "u = s"
  proof (cases "j = i")
    case False
    then obtain m where "sw_lock y = Some (u, m)" using sweepers_okD(2)[OF assms(1), of j u ks'] a by auto
    then show ?thesis using l(2) by auto
  qed (use a in simp)
  then show "\<exists>n. sw_lock ?y = Some (u, n)" using l(1) by simp
next
  fix u
  show "sw_lock (y\<lparr>sw_at := (sw_at y)(i := Sweeping s ks), sw_lock := l\<rparr>) \<noteq> Some (u, 0)"
    using assms(4) by (auto simp: pg_try_advisory_lock_def split: option.splits if_splits)
qed

lemma sweepers_ok_unlocked:
  assumes "sweepers_ok y" "sw_at y i = Sweeping s ks" "s \<notin> sw_closed y"
  shows "sweepers_ok (y\<lparr>sw_at := (sw_at y)(i := Resting), sw_lock := pg_advisory_unlock s (sw_lock y)\<rparr>)"
proof (rule sweepers_okI)
  fix j k u
  let ?y = "y\<lparr>sw_at := (sw_at y)(i := Resting), sw_lock := pg_advisory_unlock s (sw_lock y)\<rparr>"
  assume "session_of (sw_at ?y j) = Some u" "session_of (sw_at ?y k) = Some u"
  then have "session_of (sw_at y j) = Some u" "session_of (sw_at y k) = Some u" by (auto split: if_splits)
  then show "j = k" by (rule sweepers_okD(1)[OF assms(1)])
next
  fix j u ks'
  let ?y = "y\<lparr>sw_at := (sw_at y)(i := Resting), sw_lock := pg_advisory_unlock s (sw_lock y)\<rparr>"
  assume a: "sw_at ?y j = Sweeping u ks'" "u \<notin> sw_closed ?y"
  then have "j \<noteq> i" "sw_at y j = Sweeping u ks'" by (auto split: if_splits)
  moreover have "\<exists>n. sw_lock y = Some (s, n)" by (rule sweepers_okD(2)[OF assms])
  moreover have "\<exists>n. sw_lock y = Some (u, n)" by (rule sweepers_okD(2)[OF assms(1) calculation(2)]) (use a in simp)
  ultimately have "j = i" using sweepers_okD(1)[OF assms(1), of j s i] assms(2) by auto
  with \<open>j \<noteq> i\<close> show "\<exists>n. sw_lock ?y = Some (u, n)" ..
next
  fix u
  show "sw_lock (y\<lparr>sw_at := (sw_at y)(i := Resting), sw_lock := pg_advisory_unlock s (sw_lock y)\<rparr>) \<noteq> Some (u, 0)"
  proof -
    obtain n where "sw_lock y = Some (s, n)" using sweepers_okD(2)[OF assms] by blast
    moreover from this have "n \<noteq> 0" using sweepers_okD(3)[OF assms(1)] by auto
    ultimately show ?thesis by (simp add: pg_advisory_unlock_def)
  qed
qed

lemma sweepers_ok_step:
  "cycle_step claimed_days unclaimed_days y y' \<Longrightarrow> sweepers_ok y \<Longrightarrow> sweepers_ok y'"
proof (induction rule: cycle_step.induct)
  case (acquire y i s)
  show ?case
  proof (rule sweepers_okI)
    fix j k u
    assume "session_of (sw_at (y\<lparr>sw_at := (sw_at y)(i := Connected s)\<rparr>) j) = Some u"
      "session_of (sw_at (y\<lparr>sw_at := (sw_at y)(i := Connected s)\<rparr>) k) = Some u"
    then show "j = k"
      using acquire(2) sweepers_okD(1)[OF acquire(4)] by (auto split: if_splits)
  next
    fix j u ks
    assume "sw_at (y\<lparr>sw_at := (sw_at y)(i := Connected s)\<rparr>) j = Sweeping u ks" "u \<notin> sw_closed (y\<lparr>sw_at := (sw_at y)(i := Connected s)\<rparr>)"
    then show "\<exists>n. sw_lock (y\<lparr>sw_at := (sw_at y)(i := Connected s)\<rparr>) = Some (u, n)"
      using sweepers_okD(2)[OF acquire(4)] by (auto split: if_splits)
  qed (use sweepers_okD(3)[OF acquire(4)] in simp)
next
  case (locked y i s l)
  show ?case by (rule sweepers_ok_locked[OF locked(4,1,2,3)])
next
  case (deletes y i s k ks e d' n)
  have "sweepers_ok (y\<lparr>sw_at := (sw_at y)(i := Sweeping s (if n < SWEEP_BATCH then ks else k # ks))\<rparr>)"
    by (rule sweepers_ok_move[OF deletes(4)]) (use deletes(1) in auto)
  then have "sweepers_ok (y\<lparr>sw_at := (sw_at y)(i := Sweeping s (if n < SWEEP_BATCH then ks else k # ks))\<rparr>\<lparr>sw_db := d'\<rparr>)"
    unfolding sweepers_ok_db .
  then show ?case by simp
next
  case (delete_fails y i s k ks)
  show ?case by (rule sweepers_ok_move[OF delete_fails(2)]) (use delete_fails(1) in auto)
next
  case (unlocked y i s)
  show ?case by (rule sweepers_ok_unlocked[OF unlocked(3,1,2)])
next
  case (closes y s)
  then show ?case unfolding sweepers_ok_def by (auto split: option.splits) metis+
qed (auto intro!: sweepers_ok_move)

interpretation sweepers: step_invariant "cycle_step claimed_days unclaimed_days" sweepers_ok "\<lambda>_ _. True"
  by unfold_locales (auto intro: sweepers_ok_step)

text \<open>
  C15. One replica sweeps at a time.  Under every interleaving of the cycles of any number of replicas,
  with failing statements and sessions that end: two replicas whose deletes can reach the database
  are the same, and it holds the lock.
\<close>

theorem one_sweeper_at_a_time:
  assumes "reachable (cycle_step claimed_days unclaimed_days) (all_resting d) y"
    and "sw_at y i = Sweeping s ks" "s \<notin> sw_closed y"
  shows "(\<exists>n. sw_lock y = Some (s, n)) \<and> (\<forall>j t ks'. sw_at y j = Sweeping t ks' \<and> t \<notin> sw_closed y \<longrightarrow> j = i)"
proof -
  have ok: "sweepers_ok y" using sweepers.reachable_ok[OF assms(1) sweepers_ok_init] .
  obtain n where n: "sw_lock y = Some (s, n)" using sweepers_okD(2)[OF ok assms(2,3)] by blast
  have "j = i" if "sw_at y j = Sweeping t ks'" "t \<notin> sw_closed y" for j t ks'
  proof -
    have "t = s" using sweepers_okD(2)[OF ok that] n by auto
    then show ?thesis using sweepers_okD(1)[OF ok, of j s i] that(1) assms(2) by simp
  qed
  then show ?thesis using n by blast
qed

section \<open>A cycle is a run of steps\<close>

lemma sweep_steps:
  assumes "sweep fuel env (expired_of kd) (days_of claimed_days unclaimed_days kd) k d = Some d'"
    and "sw_at y i = Sweeping s (kd # ks)" "s \<notin> sw_closed y" "sw_db y = d"
  shows "reachable (cycle_step claimed_days unclaimed_days) y (y\<lparr>sw_at := (sw_at y)(i := Sweeping s ks), sw_db := d'\<rparr>)"
  using assms
proof (induction fuel arbitrary: k d y)
  case (Suc fuel)
  let ?e = "delete_batch (env k) (expired_of kd) (days_of claimed_days unclaimed_days kd) d"
  show ?case
  proof (cases ?e)
    case (Inl err)
    then have "d' = d" using Suc.prems(1) by simp
    moreover have "reachable (cycle_step claimed_days unclaimed_days) y (y\<lparr>sw_at := (sw_at y)(i := Sweeping s ks)\<rparr>)"
      by (rule reachable_one, rule cycle_step.delete_fails[OF Suc.prems(2)])
    moreover have "y\<lparr>sw_at := (sw_at y)(i := Sweeping s ks), sw_db := d\<rparr> = y\<lparr>sw_at := (sw_at y)(i := Sweeping s ks)\<rparr>"
      using Suc.prems(4) by (cases y) simp
    ultimately show ?thesis by (simp del: fun_upd_apply)
  next
    case (Inr r)
    obtain d1 n where r: "r = (d1, n)" by (cases r)
    let ?y = "y\<lparr>sw_at := (sw_at y)(i := Sweeping s (if n < SWEEP_BATCH then ks else kd # ks)), sw_db := d1\<rparr>"
    have one: "reachable (cycle_step claimed_days unclaimed_days) y ?y"
      by (rule reachable_one, rule cycle_step.deletes[OF Suc.prems(2,3)]) (use Inr r Suc.prems(4) in simp)
    show ?thesis
    proof (cases "n < SWEEP_BATCH")
      case True
      then show ?thesis using one Suc.prems(1) Inr r by (simp del: fun_upd_apply)
    next
      case False
      then have rest: "sweep fuel env (expired_of kd) (days_of claimed_days unclaimed_days kd) (Suc k) d1 = Some d'"
        using Suc.prems(1) Inr r by simp
      have "reachable (cycle_step claimed_days unclaimed_days) ?y (?y\<lparr>sw_at := (sw_at ?y)(i := Sweeping s ks), sw_db := d'\<rparr>)"
        by (rule Suc.IH[OF rest]) (use False Suc.prems(3) in simp_all)
      then show ?thesis using reachable_trans[OF one] by (simp del: fun_upd_apply)
    qed
  qed
qed simp

lemma windows_steps:
  assumes "claimed_days > 0 \<Longrightarrow> sweep fuel env1 expired_claimed claimed_days 0 d = Some d1" "claimed_days = 0 \<Longrightarrow> d1 = d"
    and "unclaimed_days > 0 \<Longrightarrow> sweep fuel env2 expired_unclaimed unclaimed_days 0 d1 = Some d'" "unclaimed_days = 0 \<Longrightarrow> d' = d1"
    and "sw_at y i = Sweeping s (windows claimed_days unclaimed_days)" "s \<notin> sw_closed y" "sw_db y = d"
  shows "reachable (cycle_step claimed_days unclaimed_days) y (y\<lparr>sw_at := (sw_at y)(i := Sweeping s []), sw_db := d'\<rparr>)"
proof -
  let ?rest = "if unclaimed_days > 0 then [UnclaimedMail] else []"
  let ?y1 = "y\<lparr>sw_at := (sw_at y)(i := Sweeping s ?rest), sw_db := d1\<rparr>"
  have first: "reachable (cycle_step claimed_days unclaimed_days) y ?y1"
  proof (cases "claimed_days > 0")
    case True
    show ?thesis
      by (rule sweep_steps[of fuel env1 ClaimedMail _ _ 0 d]) (use assms True in \<open>simp_all add: days_of_def windows_def\<close>)
  next
    case False
    then have "claimed_days = 0" by (simp add: word_gt_0)
    then have "?y1 = y" using assms(2,5,7) by (cases y) (auto simp: windows_def fun_eq_iff)
    then show ?thesis using reachable.start by metis
  qed
  show ?thesis
  proof (cases "unclaimed_days > 0")
    case True
    have "reachable (cycle_step claimed_days unclaimed_days) ?y1 (?y1\<lparr>sw_at := (sw_at ?y1)(i := Sweeping s []), sw_db := d'\<rparr>)"
      by (rule sweep_steps[of fuel env2 UnclaimedMail _ _ 0 d1]) (use assms True in \<open>simp_all add: days_of_def\<close>)
    then show ?thesis using reachable_trans[OF first] by (simp del: fun_upd_apply)
  next
    case False
    then have "unclaimed_days = 0" by (simp add: word_gt_0)
    then show ?thesis using first assms(4) by (simp del: fun_upd_apply)
  qed
qed


text \<open>The witnesses: the first replica sweeps, an old claimed delivery is deleted.\<close>

definition first_sweeping :: "db \<Rightarrow> sweepers" where
  "first_sweeping d = (all_resting d)\<lparr>sw_at := (\<lambda>_. Resting)(0 := Sweeping 7 [ClaimedMail]), sw_lock := Some (7, 1)\<rparr>"

lemma first_sweeping_reached: "reachable (cycle_step 1 0) (all_resting d) (first_sweeping d)"
proof -
  let ?y1 = "(all_resting d)\<lparr>sw_at := (sw_at (all_resting d))(0 := Connected 7)\<rparr>"
  have "cycle_step 1 0 (all_resting d) ?y1"
    by (rule cycle_step.acquire) (simp_all add: all_resting_def)
  moreover have "cycle_step 1 0 ?y1 (?y1\<lparr>sw_at := (sw_at ?y1)(0 := Sweeping 7 (windows 1 0)), sw_lock := Some (7, 1)\<rparr>)"
    by (rule cycle_step.locked) (simp_all add: all_resting_def pg_try_advisory_lock_def)
  moreover have "?y1\<lparr>sw_at := (sw_at ?y1)(0 := Sweeping 7 (windows 1 0)), sw_lock := Some (7, 1)\<rparr> = first_sweeping d"
    by (simp add: first_sweeping_def all_resting_def windows_def)
  ultimately show ?thesis using reachable.next_step[OF reachable_one] by metis
qed

theorem one_sweeper_at_a_time_witness:
  "(\<exists>n. sw_lock (first_sweeping empty_db) = Some (7, n))
    \<and> {j. \<exists>t ks. sw_at (first_sweeping empty_db) j = Sweeping t ks \<and> t \<notin> sw_closed (first_sweeping empty_db)} = {0}"
proof -
  have at: "sw_at (first_sweeping empty_db) 0 = Sweeping 7 [ClaimedMail]" "7 \<notin> sw_closed (first_sweeping empty_db)"
    by (simp_all add: first_sweeping_def all_resting_def)
  from one_sweeper_at_a_time[OF first_sweeping_reached at] at show ?thesis by blast
qed

lemma sample_cycle:
  "run_cycle 1 None (Inr True) calm_env calm_env (word_of_nat 30) (word_of_nat 180) sample_mail_db
    = Some (without (expired (100 * DAY) 30 180) sample_mail_db)"
  by (rule retention_exact[OF _ calm_env calm_env])
     (simp_all add: sample_mail_db_def unique_key_def timestamp_ok_def DAY_def)


end
