(* ===== verification/Spec2Isabelle.thy ===== *)
theory Spec2Isabelle
  imports Prelude RustStd Errors Schema Merkle Codec TreeService F64 RateLimits Feed Notes Events
    Ingest Mailbox Retention Startup Artifacts RequestId Stats Router Disclosure Boot System Api
    Stack IndexerMain Relay CatchUp ApiMain Shutdown Serving SweepLock
begin

text \<open>
  Verification library of the Attesta backend.

  The program.  Attesta is a shielded payment protocol on Stellar.  Its backend has three programs
  over one PostgreSQL database and a shared core: the indexer (\<open>crates/attesta-indexer\<close>) polls a
  Soroban RPC node and mirrors the contracts' public events into tables; the API
  (\<open>crates/attesta-api\<close>) serves Merkle paths and roots of the commitment trees, relays encrypted
  notes by paging and by a live stream, keeps a mailbox of encrypted credentials, and serves
  statistics and prover artifacts; the disclosure tool (\<open>crates/attesta-disclosure\<close>) is a client of
  the API; \<open>crates/attesta-core\<close> holds the tree, the row types, the configuration and the
  connection.  The programs share nothing but the database, and inside the API requests share the
  tree cache, the buckets, the SSE slots, the broadcast channel and the statistics cache.

  How it is modelled.  Every definition that models code translates the Rust text of the function
  it is named after.  A Rust struct is a record, an enum a datatype, a fixed-width integer a word
  where its width can be observed and an \<open>int\<close> or \<open>nat\<close> within proved bounds elsewhere; a string is
  the list of its bytes.  State is passed explicitly.  A handler returns \<open>api_error + 'a\<close>; where
  code can panic or a loop may not end, an \<open>option\<close> lies around it, and the properties prove that
  its value is \<open>Some\<close>.  The database is a record of tables, lists of rows in insertion order, and
  the SQL of the program is rendered with the combinators of \<open>Schema\<close>.  Every statement has an
  argument that says whether it fails, so every error path of the handlers is a branch of the
  model.  Code of other crates (SHA-256, hex, base64, XDR, JSON, headers, the file system) is a
  parameter; what the properties need of it is a named hypothesis that a concrete instance
  satisfies in the witness.

  The theories.
  \<^item> \<open>Prelude\<close>: vectors, collections of facts, and transition systems with the locale
    \<open>step_invariant\<close>, the contract of every invariant of interleaved steps.  \<open>RustStd\<close>: string
    splitting, integer parsing and printing, conversions, monotonic time.  \<open>Errors\<close>:
    \<open>attesta-core/src/error.rs\<close> and \<open>attesta-api/src/error.rs\<close>.  \<open>Schema\<close>: \<open>models.rs\<close> and
    \<open>migrations\<close>.  \<open>Codec\<close>: what is asked of the crate hex.
  \<^item> \<open>Merkle\<close>: \<open>merkle.rs\<close>.  The abstract tree is the list of its leaves; \<open>append\<close> refines
    appending to it level by level, root and path are those of the complete tree of depth 32, the
    naive rebuild agrees, and verification is sound up to an explicit collision.  The abstract data
    type is the locale \<open>commitment_tree\<close>, interpreted on the code.
  \<^item> \<open>TreeService\<close>: \<open>routes/tree.rs\<close> and \<open>PoolTree\<close> of \<open>state.rs\<close>.  The mirror of a pool is its
    gap-free run of well-formed leaves; the cache invariant, the top-up, the root history and both
    endpoints are stated against it.
  \<^item> \<open>F64\<close> and \<open>RateLimits\<close>: \<open>limits.rs\<close>.  Doubles are rationals under rounding to nearest even,
    of which the locale \<open>rounding\<close> names the laws the token buckets need; SSE slots are a step
    relation over their atomic actions.
  \<^item> \<open>Feed\<close> and \<open>Notes\<close>: cursor pagination as the locale \<open>cursor_feed\<close>, and \<open>routes/notes.rs\<close>
    with its listing, replay, live stream and fan-out task; \<open>Mailbox\<close> interprets it again.
    \<open>Relay\<close> puts them together with the indexer's inserts, the broadcast channel and a client that
    reconnects, as a step relation with its invariant; \<open>CatchUp\<close> is its progress: a client can always
    be brought up to date.
  \<^item> \<open>Events\<close> and \<open>Ingest\<close>: \<open>events.rs\<close>, \<open>rpc.rs\<close> and \<open>ingest.rs\<close>: decoding, storing, the sync
    loop with its cursor, replays.
  \<^item> \<open>Mailbox\<close> and \<open>Retention\<close>: \<open>routes/issuer.rs\<close>, with concurrent claims and concurrent
    deliveries as step relations, and \<open>retention.rs\<close>.  \<open>SweepLock\<close> interleaves the sweepers of all
    replicas statement by statement under PostgreSQL's advisory lock; a cycle of \<open>Retention\<close> is a run
    of its steps.
  \<^item> \<open>Startup\<close>: \<open>config.rs\<close>, \<open>db.rs\<close>, and \<open>cors_layer\<close> and the choice of the log format of \<open>main.rs\<close>.  \<open>Artifacts\<close>,
    \<open>RequestId\<close>, \<open>Stats\<close>: \<open>routes/artifacts.rs\<close>, \<open>request_id.rs\<close>, \<open>routes/stats.rs\<close>.  \<open>Router\<close>:
    \<open>routes/mod.rs\<close>, the routes under their budgets, and the health probes.  \<open>Boot\<close>: \<open>main\<close> of
    the API up to its bound listener, and \<open>telemetry.rs\<close>.
  \<^item> \<open>Disclosure\<close>: the disclosure tool, command line and files included, run against the models of
    the API.  \<open>IndexerMain\<close>: \<open>main\<close> of the indexer around its ingest loop.  \<open>Shutdown\<close>: that
    loop with signals arriving at any time; it refines \<open>indexer_run\<close> of \<open>Ingest\<close>, which stops between passes.
  \<^item> \<open>System\<close>: the step relation of everything that writes the database and the tree caches of
    any number of API replicas, its invariant, and what a client can rely on across all programs.
  \<^item> \<open>Api\<close>: every handler of \<open>routes\<close> behind one dispatcher with the responses that are made of
    their results, under the router of \<open>Router\<close>; a request that nothing interrupts is a run of
    the steps of \<open>System\<close>.  \<open>Stack\<close>: the layers that \<open>main\<close> of the API wraps around it.
    \<open>ApiMain\<close>: a replica from its environment to its answers, in the middle of a system that moves on;
    \<open>Serving\<close>: its open streams, their slots, and the graceful shutdown.

  What the properties show.  A text block before each property names its claim.  In short: the
  tree is the one the contracts keep, every served path verifies, and an indexed leaf stays
  provable under every later step; tables, caches and history stay well formed under all
  interleavings and failures; the cursor of the indexer never passes an event that is not stored;
  notes and mail reach a client that follows the cursors exactly once and in order; a delivery has
  one winner; every routed request is answered, without panic and without telling what failed;
  a replica that starts keeps all of this, and its streams hold exactly the slots that are taken;
  limits isolate clients and separate reads from writes; one replica sweeps at a time, and the
  indexer stops between passes; configuration round-trips, connecting ends, artifacts stay inside their directory, answers are correlated, statistics are
  fresh, written reports are confirmed.  Several theorems state a defect as it is: the races on the
  global SSE cap, on the hourly quota of an issuer (with the bound that does hold) and of an early
  stream client with the start of the fan-out, the history row that is never repaired, replays that double notes and totals, the huge
  retention window that deletes all mail, the report within a ledger that is refused, the signals that
  the indexer misses, and the open stream that keeps a graceful shutdown from ending.

  Bounds and fuel.  Tree properties hold for fewer than \<open>2 ^ 32\<close> leaves, the capacity of the tree.
  The limiter's properties hold for \<open>u32\<close> settings and for times below the bound of \<open>clocked\<close>,
  where seconds fit a double.  Loops that may not end take fuel, one unit per round, and the
  properties say how much is enough: a page of 500 notes, 200 deliveries or 10000 deleted rows
  each; a list of responses or wake-ups plays the same part for tasks that wait for them.

  Granularity.  One statement of SQL is one step, and INSERTs become visible in the order of the
  serial numbers they draw.  In \<open>System\<close> the statements of tree requests, deliveries, claims and
  retention are interleaved with each other and with the indexer's events, and a tree request can
  end between its two statements when its client disconnects; SSE slots and the statistics cache
  are interleaved atomic action by atomic action in theories of their own, and so are the inserts,
  queries, sends and receives of \<open>Relay\<close>.  The event that the
  indexer stores is one step, although it can be two statements: the row and the total of the pool.
  In \<open>ApiMain\<close> and \<open>Serving\<close> a request of the replica is one step, taken while none of its tree
  requests is in between; what overlaps with it are the steps of \<open>System\<close>, its own replica's too.
  A signal that kills the indexer is placed between two contracts of a pass.

  Not modelled.  The tracing filter, the upkeep of the metrics recorder and its latency histograms,
  spawning of tasks: calls of libraries whose effect is outside the state modelled here.  What tokio
  does with signals, axum with a shutdown and PostgreSQL with an advisory lock is their documented behaviour.
  HTTP, SQL and file transport; axum's extractors and its 404 and 405 answers, and the layers of
  tower-http, which are parameters of \<open>Api\<close>, \<open>Stack\<close> and \<open>ApiMain\<close>; running the migrations; the decryption
  of notes, which the tool does not implement yet; columns that no code reads; the tests.
\<close>

end
